(* ===== verification/Prelude.thy ===== *)
theory Prelude
  imports Main "HOL-Library.Word" "HOL-Library.List_Lexorder"
begin

text \<open>
  Shared library of the development: the machine integers of the Rust sources, their checked and
  saturating arithmetic, the fixed-width byte encodings (\<open>to_be_bytes\<close>, \<open>to_le_bytes\<close>), the two
  standard-library maps (\<open>BTreeMap\<close> as a key-sorted association list, \<open>HashMap\<close> as an association
  list whose list order stands for the unspecified iteration order), and the interface both maps
  satisfy as the locale \<open>kv_map\<close>.
\<close>

section \<open>Integers\<close>

type_synonym u8 = "8 word"
type_synonym u16 = "16 word"
type_synonym u32 = "32 word"
type_synonym u64 = "64 word"
type_synonym u128 = "128 word"
type_synonym usize = nat
type_synonym bytes = "u8 list"

named_theorems arith_simps \<open>equations of the checked and saturating operations\<close>
named_theorems codec_simps \<open>round trips and lengths of the fixed-width encodings\<close>
named_theorems map_simps \<open>lookups in updated maps\<close>

definition checked_add :: "'a::len word \<Rightarrow> 'a word \<Rightarrow> 'a word option" where
  "checked_add a b = (if unat a + unat b < 2 ^ LENGTH('a) then Some (a + b) else None)"

definition checked_sub :: "'a::len word \<Rightarrow> 'a word \<Rightarrow> 'a word option" where
  "checked_sub a b = (if b \<le> a then Some (a - b) else None)"

definition saturating_add :: "'a::len word \<Rightarrow> 'a word \<Rightarrow> 'a word" where
  "saturating_add a b = (case checked_add a b of Some c \<Rightarrow> c | None \<Rightarrow> - 1)"

lemma checked_add_Some [arith_simps]:
  "checked_add a b = Some c \<longleftrightarrow> unat a + unat b < 2 ^ LENGTH('a) \<and> c = a + b"
  for a b c :: "'a::len word"
  by (auto simp: checked_add_def)

lemma checked_add_None [arith_simps]:
  "checked_add a b = None \<longleftrightarrow> 2 ^ LENGTH('a) \<le> unat a + unat b" for a b :: "'a::len word"
  by (auto simp: checked_add_def not_less)

text \<open>Overflow detected on the words themselves, for evaluation.\<close>

lemma checked_add_code [code]: "checked_add a b = (if a + b < a then None else Some (a + b))"
  for a b :: "'a::len word"
proof -
  have "a + b < a \<longleftrightarrow> \<not> unat a + unat b < 2 ^ LENGTH('a)"
    using no_olen_add_nat [of a b] by (metis not_le)
  then show ?thesis by (simp add: checked_add_def)
qed

lemma checked_add_unat:
  "checked_add a b = Some c \<Longrightarrow> unat c = unat a + unat b" for a b :: "'a::len word"
  by (auto simp: checked_add_def unat_word_ariths split: if_splits)

lemma checked_sub_unat:
  "checked_sub a b = Some c \<Longrightarrow> unat c = unat a - unat b \<and> unat b \<le> unat a"
  for a b :: "'a::len word"
  by (auto simp: checked_sub_def unat_sub word_le_nat_alt split: if_splits)

lemma checked_sub_None [arith_simps]: "checked_sub a b = None \<longleftrightarrow> a < b"
  for a b :: "'a::len word"
  by (auto simp: checked_sub_def)

lemma saturating_add_unat:
  "unat (saturating_add a b) = min (unat a + unat b) (2 ^ LENGTH('a) - 1)" for a b :: "'a::len word"
proof (cases "checked_add a b")
  case None
  have sat: "x \<ge> n \<Longrightarrow> min x (n - 1) = n - 1" for x n :: nat by simp
  from None have "2 ^ LENGTH('a) \<le> unat a + unat b" by (simp add: checked_add_None)
  from sat [OF this] None show ?thesis
    by (simp add: saturating_add_def unsigned_minus_1_eq_mask mask_eq_exp_minus_1)
next
  case (Some c)
  have nosat: "x < n \<Longrightarrow> min x (n - 1) = x" for x n :: nat by simp
  from Some have c: "unat c = unat a + unat b" by (rule checked_add_unat)
  from Some have lt: "unat a + unat b < 2 ^ LENGTH('a)" by (simp add: checked_add_Some)
  from c nosat [OF lt] Some show ?thesis by (simp add: saturating_add_def)
qed

section \<open>Byte encodings\<close>

fun nat_to_le :: "nat \<Rightarrow> nat \<Rightarrow> bytes" where
  "nat_to_le 0 x = []"
| "nat_to_le (Suc n) x = word_of_nat (x mod 256) # nat_to_le n (x div 256)"

fun nat_of_le :: "bytes \<Rightarrow> nat" where
  "nat_of_le [] = 0"
| "nat_of_le (b # bs) = unat b + 256 * nat_of_le bs"

definition to_le_bytes :: "'a::len word \<Rightarrow> bytes" where
  "to_le_bytes w = nat_to_le (LENGTH('a) div 8) (unat w)"

definition from_le_bytes :: "bytes \<Rightarrow> 'a::len word" where
  "from_le_bytes bs = word_of_nat (nat_of_le bs)"

definition to_be_bytes :: "'a::len word \<Rightarrow> bytes" where
  "to_be_bytes w = rev (to_le_bytes w)"

definition from_be_bytes :: "bytes \<Rightarrow> 'a::len word" where
  "from_be_bytes bs = from_le_bytes (rev bs)"

lemma length_nat_to_le [simp]: "length (nat_to_le n x) = n"
  by (induction n arbitrary: x) auto

lemma nat_of_le_to_le: "nat_of_le (nat_to_le n x) = x mod 256 ^ n"
proof (induction n arbitrary: x)
  case 0
  then show ?case by simp
next
  case (Suc n)
  have "unat (word_of_nat (x mod 256) :: u8) = x mod 256"
    by (simp add: unat_of_nat)
  then show ?case
    using Suc mod_mult2_eq [of x 256 "256 ^ n"] by simp
qed

lemma nat_to_le_of_le: "nat_to_le (length bs) (nat_of_le bs) = bs"
proof (induction bs)
  case Nil
  then show ?case by simp
next
  case (Cons b bs)
  have "unat b < 256" using unsigned_less [of b, where ?'a = nat] by simp
  then have "(unat b + 256 * nat_of_le bs) mod 256 = unat b"
    and "(unat b + 256 * nat_of_le bs) div 256 = nat_of_le bs" by auto
  with Cons show ?case by simp
qed

lemma nat_of_le_bound: "nat_of_le bs < 256 ^ length bs"
proof (induction bs)
  case Nil
  then show ?case by simp
next
  case (Cons b bs)
  have "unat b < 256" using unsigned_less [of b, where ?'a = nat] by simp
  with Cons show ?case by simp
qed

text \<open>The widths of the sources are whole numbers of bytes.\<close>

definition byte_width :: "'a::len itself \<Rightarrow> bool" where
  "byte_width t \<longleftrightarrow> LENGTH('a) mod 8 = 0"

lemma byte_width_lengths [simp]:
  "byte_width TYPE(8)" "byte_width TYPE(16)" "byte_width TYPE(32)" "byte_width TYPE(64)"
  "byte_width TYPE(128)"
  by (simp_all add: byte_width_def)

lemma byte_width_pow:
  assumes "byte_width TYPE('a::len)"
  shows "256 ^ (LENGTH('a) div 8) = (2::nat) ^ LENGTH('a)"
proof -
  have "8 * (LENGTH('a) div 8) = LENGTH('a)" using assms by (auto simp: byte_width_def)
  then have "(2::nat) ^ LENGTH('a) = (2 ^ 8) ^ (LENGTH('a) div 8)" by (metis power_mult)
  then show ?thesis by simp
qed

lemma length_to_le_bytes [simp, codec_simps]:
  "length (to_le_bytes (w :: 'a::len word)) = LENGTH('a) div 8"
  by (simp add: to_le_bytes_def)

lemma length_to_be_bytes [simp, codec_simps]:
  "length (to_be_bytes (w :: 'a::len word)) = LENGTH('a) div 8"
  by (simp add: to_be_bytes_def)

lemma from_to_le_bytes [codec_simps]:
  "byte_width TYPE('a::len) \<Longrightarrow> from_le_bytes (to_le_bytes w) = (w :: 'a word)"
  by (simp add: from_le_bytes_def to_le_bytes_def nat_of_le_to_le byte_width_pow)

lemma from_to_be_bytes [codec_simps]:
  "byte_width TYPE('a::len) \<Longrightarrow> from_be_bytes (to_be_bytes w) = (w :: 'a word)"
  by (simp add: from_be_bytes_def to_be_bytes_def from_to_le_bytes)

lemma to_from_le_bytes:
  assumes "byte_width TYPE('a::len)" and "length bs = LENGTH('a) div 8"
  shows "to_le_bytes (from_le_bytes bs :: 'a word) = bs"
proof -
  have "nat_of_le bs < 2 ^ LENGTH('a)"
    using nat_of_le_bound [of bs] assms byte_width_pow [where ?'a = 'a] by simp
  then have "unat (word_of_nat (nat_of_le bs) :: 'a word) = nat_of_le bs"
    by (simp add: unat_of_nat)
  with assms(2) show ?thesis
    by (simp add: to_le_bytes_def from_le_bytes_def nat_to_le_of_le flip: assms(2))
qed

lemma to_from_be_bytes:
  assumes "byte_width TYPE('a::len)" and "length bs = LENGTH('a) div 8"
  shows "to_be_bytes (from_be_bytes bs :: 'a word) = bs"
  using assms by (simp add: to_be_bytes_def from_be_bytes_def to_from_le_bytes)

lemma to_be_bytes_inj:
  "byte_width TYPE('a::len) \<Longrightarrow> to_be_bytes v = to_be_bytes w \<longleftrightarrow> v = (w :: 'a word)"
  by (metis from_to_be_bytes)

lemma to_le_bytes_inj:
  "byte_width TYPE('a::len) \<Longrightarrow> to_le_bytes v = to_le_bytes w \<longleftrightarrow> v = (w :: 'a word)"
  by (metis from_to_le_bytes)

text \<open>Evaluation of the encodings on words, without unary numbers.\<close>

fun word_to_le :: "nat \<Rightarrow> 'a::len word \<Rightarrow> bytes" where
  "word_to_le 0 w = []"
| "word_to_le (Suc n) w = ucast w # word_to_le n (drop_bit 8 w)"

lemma word_to_le_eq: "word_to_le n w = nat_to_le n (unat w)"
proof (induction n arbitrary: w)
  case (Suc n)
  have "unat (drop_bit 8 w) = unat w div 256"
    unfolding unat_drop_bit_eq by (simp add: drop_bit_eq_div)
  moreover have "(word_of_nat (unat w mod 256) :: u8) = ucast w"
    by (rule word_unat_eq_iff [THEN iffD2]) (simp add: unat_of_nat unsigned_ucast_eq take_bit_eq_mod)
  ultimately show ?case by (simp add: Suc)
qed simp

lemma to_le_bytes_code [code]: "to_le_bytes w = word_to_le (LENGTH('a) div 8) w"
  for w :: "'a::len word"
  by (simp add: to_le_bytes_def word_to_le_eq)

lemma from_le_bytes_code [code]: "from_le_bytes bs = foldr (\<lambda>b acc. ucast b + 256 * acc) bs 0"
  by (induction bs) (simp_all add: from_le_bytes_def)

section \<open>Formatting of integers\<close>

text \<open>Positional notation of an unsigned integer, and \<open>to_string\<close> or \<open>{}\<close> of one.\<close>

definition digit_char :: "nat \<Rightarrow> char" where
  "digit_char d = (if d < 10 then char_of (48 + d) else char_of (87 + d))"

fun digits :: "nat \<Rightarrow> nat \<Rightarrow> string" where
  "digits base n = (if base < 2 \<or> n < base then [digit_char n] else digits base (n div base) @ [digit_char (n mod base)])"

declare digits.simps [simp del]

definition to_decimal :: "nat \<Rightarrow> string" where
  "to_decimal n = digits 10 n"

section \<open>Standard-library maps\<close>

text \<open>
  \<open>BTreeMap\<close>: keys strictly ascending, iteration in key order. \<open>HashMap\<close>: distinct keys; a new key
  is put at the end of the list, an existing one is overwritten in place. The list order of a
  \<open>HashMap\<close> is one possible iteration order; results about contents do not depend on it.
\<close>

type_synonym ('k, 'v) btree_map = "('k \<times> 'v) list"
type_synonym ('k, 'v) hash_map = "('k \<times> 'v) list"

definition map_get :: "('k \<times> 'v) list \<Rightarrow> 'k \<Rightarrow> 'v option" where
  "map_get m k = map_of m k"

definition map_remove :: "'k \<Rightarrow> ('k \<times> 'v) list \<Rightarrow> ('k \<times> 'v) list" where
  "map_remove k m = filter (\<lambda>e. fst e \<noteq> k) m"

fun bt_insert :: "'k::linorder \<Rightarrow> 'v \<Rightarrow> ('k, 'v) btree_map \<Rightarrow> ('k, 'v) btree_map" where
  "bt_insert k v [] = [(k, v)]"
| "bt_insert k v ((k', v') # m) =
     (if k < k' then (k, v) # (k', v') # m
      else if k = k' then (k, v) # m
      else (k', v') # bt_insert k v m)"

fun hm_insert :: "'k \<Rightarrow> 'v \<Rightarrow> ('k, 'v) hash_map \<Rightarrow> ('k, 'v) hash_map" where
  "hm_insert k v [] = [(k, v)]"
| "hm_insert k v ((k', v') # m) = (if k = k' then (k, v) # m else (k', v') # hm_insert k v m)"

definition bt_invar :: "('k::linorder, 'v) btree_map \<Rightarrow> bool" where
  "bt_invar m \<longleftrightarrow> sorted_wrt (<) (map fst m)"

definition hm_invar :: "('k, 'v) hash_map \<Rightarrow> bool" where
  "hm_invar m \<longleftrightarrow> distinct (map fst m)"

lemma map_get_Nil [simp]: "map_get [] = Map.empty"
  by (simp add: map_get_def fun_eq_iff)

lemma map_get_Cons: "map_get ((k, v) # m) x = (if x = k then Some v else map_get m x)"
  by (simp add: map_get_def)

lemma map_get_bt_insert [map_simps, simp]: "map_get (bt_insert k v m) = (map_get m)(k \<mapsto> v)"
  by (induction m) (auto simp: map_get_def fun_eq_iff)

lemma map_get_hm_insert [map_simps, simp]: "map_get (hm_insert k v m) = (map_get m)(k \<mapsto> v)"
  by (induction m) (auto simp: map_get_def fun_eq_iff)

lemma map_get_remove [map_simps, simp]: "map_get (map_remove k m) = (map_get m)(k := None)"
proof
  fix x
  show "map_get (map_remove k m) x = ((map_get m)(k := None)) x"
    by (induction m) (auto simp: map_get_def map_remove_def)
qed

lemma set_bt_insert: "fst ` set (bt_insert k v m) = insert k (fst ` set m)"
  by (induction k v m rule: bt_insert.induct) (simp_all add: insert_commute)

lemma set_hm_insert: "fst ` set (hm_insert k v m) = insert k (fst ` set m)"
  by (induction k v m rule: hm_insert.induct) (simp_all add: insert_commute)

lemma bt_invar_Nil [simp]: "bt_invar []"
  by (simp add: bt_invar_def)

lemma hm_invar_Nil [simp]: "hm_invar []"
  by (simp add: hm_invar_def)

lemma bt_invar_insert [simp]: "bt_invar m \<Longrightarrow> bt_invar (bt_insert k v m)"
proof (induction m)
  case Nil
  then show ?case by (simp add: bt_invar_def)
next
  case (Cons e m)
  obtain k' v' where e: "e = (k', v')" by (cases e)
  with Cons have sorted: "\<forall>x \<in> fst ` set m. k' < x" and rec: "bt_invar (bt_insert k v m)"
    by (auto simp: bt_invar_def)
  from Cons.prems have "bt_invar m" by (simp add: bt_invar_def)
  have "\<forall>x \<in> fst ` set (bt_insert k v m). k < x \<or> x = k \<or> k' < x"
    using sorted by (auto simp: set_bt_insert)
  with sorted rec \<open>bt_invar m\<close> e show ?case
    by (auto simp: bt_invar_def set_bt_insert dest: less_trans)
qed

lemma hm_invar_insert [simp]: "hm_invar m \<Longrightarrow> hm_invar (hm_insert k v m)"
proof (induction m)
  case Nil
  then show ?case by (simp add: hm_invar_def)
next
  case (Cons e m)
  obtain k' v' where e: "e = (k', v')" by (cases e)
  with Cons have fresh: "k' \<notin> fst ` set m" and rec: "hm_invar (hm_insert k v m)"
    by (auto simp: hm_invar_def)
  have "k \<noteq> k' \<Longrightarrow> k' \<notin> fst ` set (hm_insert k v m)"
    using fresh by (simp add: set_hm_insert)
  with Cons.prems rec e show ?case by (auto simp: hm_invar_def)
qed

lemma bt_invar_remove [simp]: "bt_invar m \<Longrightarrow> bt_invar (map_remove k m)"
  by (auto simp: bt_invar_def map_remove_def sorted_wrt_map intro: sorted_wrt_filter)

lemma hm_invar_remove [simp]: "hm_invar m \<Longrightarrow> hm_invar (map_remove k m)"
  by (auto simp: hm_invar_def map_remove_def distinct_map_filter)

lemma bt_invar_distinct: "bt_invar m \<Longrightarrow> distinct (map fst m)"
  by (simp add: bt_invar_def strict_sorted_iff)

text \<open>A B-tree map is determined by its lookups: iteration order carries no information.\<close>

lemma bt_map_eqI:
  assumes "bt_invar m" "bt_invar m'" "map_get m = map_get m'"
  shows "m = m'"
proof -
  have dist: "distinct (map fst m)" "distinct (map fst m')"
    using assms by (simp_all add: bt_invar_distinct)
  have sorted: "sorted (map fst m)" "sorted (map fst m')"
    using assms by (simp_all add: bt_invar_def strict_sorted_iff)
  have "map_of m = map_of m'" using assms(3) by (simp add: map_get_def fun_eq_iff)
  with dist have same: "set m = set m'" using map_of_inject_set by blast
  with dist have "inj_on fst (set m \<union> set m')" by (simp add: distinct_map)
  with dist sorted same show ?thesis by (intro map_sorted_distinct_set_unique)
qed

section \<open>The key/value interface\<close>

text \<open>
  What the clients of either map rely on: lookups after an insertion or a removal, iteration that
  agrees with the lookups, and that no operation leaves the representation invariant.
\<close>

locale kv_map =
  fixes invar :: "('k \<times> 'v) list \<Rightarrow> bool"
    and insert_kv :: "'k \<Rightarrow> 'v \<Rightarrow> ('k \<times> 'v) list \<Rightarrow> ('k \<times> 'v) list"
  assumes invar_empty: "invar []"
    and invar_insert: "invar m \<Longrightarrow> invar (insert_kv k v m)"
    and invar_remove: "invar m \<Longrightarrow> invar (map_remove k m)"
    and get_insert: "map_get (insert_kv k v m) = (map_get m)(k \<mapsto> v)"
    and invar_distinct: "invar m \<Longrightarrow> distinct (map fst m)"
begin

text \<open>Iteration yields exactly the entries a lookup finds.\<close>

lemma iter_iff_get: "invar m \<Longrightarrow> (k, v) \<in> set m \<longleftrightarrow> map_get m k = Some v"
  by (simp add: map_get_def invar_distinct)

lemma insert_twice: "map_get (insert_kv k v (insert_kv k w m)) = map_get (insert_kv k v m)"
  by (simp add: get_insert)

lemma insert_commute:
  "k \<noteq> k' \<Longrightarrow> map_get (insert_kv k v (insert_kv k' v' m)) = map_get (insert_kv k' v' (insert_kv k v m))"
  by (auto simp: get_insert fun_eq_iff)

text \<open>Building a map from a list of pairs: the last pair of each key wins.\<close>

lemma get_fold_insert:
  "map_get (fold (\<lambda>(k, v). insert_kv k v) es m) k =
     (case map_of (rev es) k of Some v \<Rightarrow> Some v | None \<Rightarrow> map_get m k)"
proof (induction es arbitrary: m)
  case Nil
  then show ?case by simp
next
  case (Cons e es)
  obtain k' v' where e: "e = (k', v')" by (cases e)
  have "map_of (rev (e # es)) = (map_of [e]) ++ (map_of (rev es))" by simp
  then show ?case
    by (simp add: Cons.IH e get_insert map_add_def split: option.splits)
qed

lemma invar_fold_insert: "invar m \<Longrightarrow> invar (fold (\<lambda>(k, v). insert_kv k v) es m)"
  by (induction es arbitrary: m) (auto simp: invar_insert split: prod.splits)

end

interpretation bt: kv_map bt_invar bt_insert
  by unfold_locales (auto simp: bt_invar_distinct)

lemma hm_invar_distinct: "hm_invar m \<Longrightarrow> distinct (map fst m)"
  by (simp add: hm_invar_def)

interpretation hm: kv_map hm_invar hm_insert
  by unfold_locales (auto simp: hm_invar_distinct)

end
