(* ===== verification/Accounts.thy ===== *)
theory Accounts
  imports Prelude
begin

text \<open>
  The account data of \<open>suwappudb-state\<close>: addresses and their EVM/Move shapes
  (\<open>lib.rs\<close>, \<open>address_shape.rs\<close>), the shared nonce (\<open>nonce_semantics.rs\<close>) and the balance slot with
  its two VM projections (\<open>balance_slot.rs\<close>). A fixed-size array \<open>[u8; N]\<close> is a byte list; the
  length the Rust type guarantees is the predicate \<open>wf_addr\<close> (\<open>wf_move_addr\<close>), a hypothesis only
  where it matters.
\<close>

section \<open>Addresses\<close>

datatype Address = Address (addr_bytes: bytes)

definition wf_addr :: "Address \<Rightarrow> bool" where
  "wf_addr a \<longleftrightarrow> length (addr_bytes a) = 20"

text \<open>\<open>Address([b; 20])\<close>, the addresses of the concrete inputs.\<close>

definition addr_of :: "u8 \<Rightarrow> Address" where
  "addr_of b = Address (replicate 20 b)"

lemma wf_addr_of [simp]: "wf_addr (addr_of b)"
  by (simp add: wf_addr_def addr_of_def)

lemma addr_of_eq [simp]: "addr_of b = addr_of c \<longleftrightarrow> b = c"
  by (simp add: addr_of_def)

text \<open>The derived \<open>Ord\<close> of the tuple struct compares the byte arrays lexicographically.\<close>

instantiation Address :: linorder
begin

definition less_eq_Address :: "Address \<Rightarrow> Address \<Rightarrow> bool" where
  "less_eq_Address a b \<longleftrightarrow> addr_bytes a \<le> addr_bytes b"

definition less_Address :: "Address \<Rightarrow> Address \<Rightarrow> bool" where
  "less_Address a b \<longleftrightarrow> addr_bytes a < addr_bytes b"

instance by standard (auto simp: less_eq_Address_def less_Address_def intro: Address.expand)

end

datatype MoveAddress = MoveAddress (move_bytes: bytes)

definition wf_move_addr :: "MoveAddress \<Rightarrow> bool" where
  "wf_move_addr m \<longleftrightarrow> length (move_bytes m) = 32"

instantiation MoveAddress :: linorder
begin

definition less_eq_MoveAddress :: "MoveAddress \<Rightarrow> MoveAddress \<Rightarrow> bool" where
  "less_eq_MoveAddress a b \<longleftrightarrow> move_bytes a \<le> move_bytes b"

definition less_MoveAddress :: "MoveAddress \<Rightarrow> MoveAddress \<Rightarrow> bool" where
  "less_MoveAddress a b \<longleftrightarrow> move_bytes a < move_bytes b"

instance by standard (auto simp: less_eq_MoveAddress_def less_MoveAddress_def intro: MoveAddress.expand)

end

text \<open>\<open>&self.0[12..32]\<close>, and twelve zero bytes in front.\<close>

definition MoveAddress_to_evm :: "MoveAddress \<Rightarrow> Address" where
  "MoveAddress_to_evm m = Address (take 20 (drop 12 (move_bytes m)))"

definition MoveAddress_from_evm :: "Address \<Rightarrow> MoveAddress" where
  "MoveAddress_from_evm a = MoveAddress (replicate 12 0 @ addr_bytes a)"

text \<open>
  Hexadecimal form. \<open>hex::encode\<close> and \<open>hex::decode\<close> belong to the \<open>hex\<close> crate and are parameters; an
  \<open>Inl\<close> of the decoder carries the crate's message.
\<close>

datatype HexError = WrongHexLength nat | InvalidHex string

definition strip_0x :: "string \<Rightarrow> string" where
  "strip_0x s = (if take 2 s = ''0x'' then drop 2 s else s)"

definition MoveAddress_from_hex ::
  "(string \<Rightarrow> string + bytes) \<Rightarrow> string \<Rightarrow> HexError + MoveAddress" where
  "MoveAddress_from_hex hex_decode s =
     (let hex_str = strip_0x s in
      if length hex_str \<noteq> 64 then Inl (WrongHexLength (length hex_str))
      else case hex_decode hex_str of
             Inl e \<Rightarrow> Inl (InvalidHex e)
           | Inr bs \<Rightarrow> Inr (MoveAddress bs))"

definition MoveAddress_to_hex :: "(bytes \<Rightarrow> string) \<Rightarrow> MoveAddress \<Rightarrow> string" where
  "MoveAddress_to_hex hex_encode m = ''0x'' @ hex_encode (move_bytes m)"

lemma Address_collapse: "Address (addr_bytes a) = a"
  by (cases a) simp

lemma wf_to_evm: "wf_move_addr m \<Longrightarrow> wf_addr (MoveAddress_to_evm m)"
  by (simp add: wf_move_addr_def wf_addr_def MoveAddress_to_evm_def)

lemma wf_from_evm: "wf_addr a \<Longrightarrow> wf_move_addr (MoveAddress_from_evm a)"
  by (simp add: wf_move_addr_def wf_addr_def MoveAddress_from_evm_def)

lemma to_evm_from_evm: "wf_addr a \<Longrightarrow> MoveAddress_to_evm (MoveAddress_from_evm a) = a"
  by (cases a) (simp add: MoveAddress_to_evm_def MoveAddress_from_evm_def wf_addr_def)

text \<open>
  The lift inverts the projection exactly on the addresses whose upper twelve bytes are zero.
\<close>

lemma from_evm_to_evm:
  assumes "wf_move_addr m"
  shows "MoveAddress_from_evm (MoveAddress_to_evm m) = m \<longleftrightarrow> take 12 (move_bytes m) = replicate 12 0"
proof -
  have split: "move_bytes m = take 12 (move_bytes m) @ take 20 (drop 12 (move_bytes m))"
    using assms by (simp add: wf_move_addr_def)
  have "length (take 12 (move_bytes m)) = 12" using assms by (simp add: wf_move_addr_def)
  then show ?thesis
    using split by (cases m)
      (auto simp: MoveAddress_from_evm_def MoveAddress_to_evm_def, metis append_eq_append_conv length_replicate)
qed

section \<open>Nonces\<close>

datatype EvmNonce = EvmNonce (evm_nonce_val: u64)
datatype MoveSequenceNumber = MoveSequenceNumber (move_seq_val: u64)

definition EvmNonce_next :: "EvmNonce \<Rightarrow> EvmNonce" where
  "EvmNonce_next n = EvmNonce (saturating_add (evm_nonce_val n) 1)"

definition EvmNonce_is_valid_for_next_tx :: "EvmNonce \<Rightarrow> u64 \<Rightarrow> bool" where
  "EvmNonce_is_valid_for_next_tx n incoming_nonce \<longleftrightarrow> incoming_nonce = evm_nonce_val n"

definition MoveSequenceNumber_next :: "MoveSequenceNumber \<Rightarrow> MoveSequenceNumber" where
  "MoveSequenceNumber_next n = MoveSequenceNumber (saturating_add (move_seq_val n) 1)"

definition MoveSequenceNumber_is_valid_for_next_tx :: "MoveSequenceNumber \<Rightarrow> u64 \<Rightarrow> bool" where
  "MoveSequenceNumber_is_valid_for_next_tx n incoming_seq \<longleftrightarrow> incoming_seq = move_seq_val n"

record AccountNonce =
  nonce_value :: u64

definition AccountNonce_new :: "u64 \<Rightarrow> AccountNonce" where
  "AccountNonce_new v = \<lparr>nonce_value = v\<rparr>"

definition AccountNonce_default :: AccountNonce where
  "AccountNonce_default = \<lparr>nonce_value = 0\<rparr>"

definition AccountNonce_evm_nonce :: "AccountNonce \<Rightarrow> EvmNonce" where
  "AccountNonce_evm_nonce n = EvmNonce (nonce_value n)"

definition AccountNonce_move_sequence :: "AccountNonce \<Rightarrow> MoveSequenceNumber" where
  "AccountNonce_move_sequence n = MoveSequenceNumber (nonce_value n)"

definition AccountNonce_next :: "AccountNonce \<Rightarrow> AccountNonce" where
  "AccountNonce_next n = \<lparr>nonce_value = saturating_add (nonce_value n) 1\<rparr>"

definition AccountNonce_is_valid_next :: "AccountNonce \<Rightarrow> u64 \<Rightarrow> bool" where
  "AccountNonce_is_valid_next n incoming \<longleftrightarrow> incoming = nonce_value n"

section \<open>Balance slots\<close>

datatype Balance = Balance (balance_val: u128)
datatype EvmBalance = EvmBalance (EvmBalance_to_u128: u128)
datatype MoveCoinValue = MoveCoinValue (MoveCoinValue_to_u128: u128)

definition MoveCoinValue_from_u128 :: "u128 \<Rightarrow> MoveCoinValue" where
  "MoveCoinValue_from_u128 v = MoveCoinValue v"

datatype SlotError = Overflow | Underflow

record BalanceSlot =
  canonical :: u128
  nonce :: AccountNonce

definition BalanceSlot_default :: BalanceSlot where
  "BalanceSlot_default = \<lparr>canonical = 0, nonce = AccountNonce_default\<rparr>"

definition BalanceSlot_new :: "u128 \<Rightarrow> BalanceSlot" where
  "BalanceSlot_new v = \<lparr>canonical = v, nonce = AccountNonce_default\<rparr>"

definition BalanceSlot_with_nonce :: "u128 \<Rightarrow> AccountNonce \<Rightarrow> BalanceSlot" where
  "BalanceSlot_with_nonce v n = \<lparr>canonical = v, nonce = n\<rparr>"

definition BalanceSlot_evm_balance :: "BalanceSlot \<Rightarrow> EvmBalance" where
  "BalanceSlot_evm_balance s = EvmBalance (canonical s)"

definition BalanceSlot_move_coin_value :: "BalanceSlot \<Rightarrow> MoveCoinValue" where
  "BalanceSlot_move_coin_value s = MoveCoinValue (canonical s)"

definition BalanceSlot_as_balance :: "BalanceSlot \<Rightarrow> Balance" where
  "BalanceSlot_as_balance s = Balance (canonical s)"

definition BalanceSlot_deposit :: "BalanceSlot \<Rightarrow> u128 \<Rightarrow> SlotError + BalanceSlot" where
  "BalanceSlot_deposit s amount =
     (case checked_add (canonical s) amount of
        None \<Rightarrow> Inl Overflow
      | Some v \<Rightarrow> Inr (s\<lparr>canonical := v\<rparr>))"

definition BalanceSlot_withdraw :: "BalanceSlot \<Rightarrow> u128 \<Rightarrow> SlotError + BalanceSlot" where
  "BalanceSlot_withdraw s amount =
     (case checked_sub (canonical s) amount of
        None \<Rightarrow> Inl Underflow
      | Some v \<Rightarrow> Inr (s\<lparr>canonical := v\<rparr>))"

lemma canonical_new [simp]: "canonical (BalanceSlot_new v) = v"
  by (simp add: BalanceSlot_new_def)

lemma nonce_new [simp]: "nonce (BalanceSlot_new v) = AccountNonce_default"
  by (simp add: BalanceSlot_new_def)

lemma canonical_default [simp]: "canonical BalanceSlot_default = 0"
  by (simp add: BalanceSlot_default_def)

lemma slot_default_new: "BalanceSlot_default = BalanceSlot_new 0"
  by (simp add: BalanceSlot_default_def BalanceSlot_new_def)

lemma slot_eqI: "canonical s = canonical t \<Longrightarrow> nonce s = nonce t \<Longrightarrow> s = (t :: BalanceSlot)"
  by simp

end
