(* ===== verification/Store.thy ===== *)
theory Store
  imports Accounts
begin

text \<open>
  The authoritative state of \<open>suwappudb-state\<close>: the \<open>BalanceStore\<close> trait as the locale
  \<open>balance_store\<close>, its in-memory implementation (\<open>store.rs\<close>) and \<open>State\<close> with its single mutation
  \<open>State::apply\<close> (\<open>lib.rs\<close>). \<open>State\<close> is modelled over the in-memory backend, the one
  \<open>State::default\<close> uses; the redb backend is related to it in theory \<open>Redb_Store\<close>.
\<close>

section \<open>The in-memory store\<close>

record InMemoryBalanceStore =
  slots :: "(Address, BalanceSlot) hash_map"
  bytes_col :: "(Address, bytes) btree_map"

definition InMemory_new :: InMemoryBalanceStore where
  "InMemory_new = \<lparr>slots = [], bytes_col = []\<rparr>"

definition InMemory_get :: "InMemoryBalanceStore \<Rightarrow> Address \<Rightarrow> BalanceSlot" where
  "InMemory_get s addr =
     (case map_get (slots s) addr of Some slot \<Rightarrow> slot | None \<Rightarrow> BalanceSlot_default)"

definition InMemory_set ::
  "InMemoryBalanceStore \<Rightarrow> Address \<Rightarrow> BalanceSlot \<Rightarrow> InMemoryBalanceStore" where
  "InMemory_set s addr slot = s\<lparr>slots := hm_insert addr slot (slots s)\<rparr>"

definition InMemory_len :: "InMemoryBalanceStore \<Rightarrow> usize" where
  "InMemory_len s = length (slots s)"

definition InMemory_entries :: "InMemoryBalanceStore \<Rightarrow> (Address \<times> BalanceSlot) list" where
  "InMemory_entries s = slots s"

definition InMemory_get_bytes :: "InMemoryBalanceStore \<Rightarrow> Address \<Rightarrow> bytes option" where
  "InMemory_get_bytes s addr = map_get (bytes_col s) addr"

definition InMemory_set_bytes ::
  "InMemoryBalanceStore \<Rightarrow> Address \<Rightarrow> bytes \<Rightarrow> InMemoryBalanceStore" where
  "InMemory_set_bytes s addr bs =
     (if bs = [] then s\<lparr>bytes_col := map_remove addr (bytes_col s)\<rparr>
      else s\<lparr>bytes_col := bt_insert addr bs (bytes_col s)\<rparr>)"

definition InMemory_bytes_entries :: "InMemoryBalanceStore \<Rightarrow> (Address \<times> bytes) list" where
  "InMemory_bytes_entries s = bytes_col s"

text \<open>
  Representation invariant: hash-map keys distinct, bytes column sorted and free of empty blobs.
\<close>

definition InMemory_invar :: "InMemoryBalanceStore \<Rightarrow> bool" where
  "InMemory_invar s \<longleftrightarrow> hm_invar (slots s) \<and> bt_invar (bytes_col s) \<and>
     (\<forall>a. map_get (bytes_col s) a \<noteq> Some [])"

lemmas InMemory_defs = InMemory_new_def InMemory_get_def InMemory_set_def InMemory_len_def
  InMemory_entries_def InMemory_get_bytes_def InMemory_set_bytes_def InMemory_bytes_entries_def
  InMemory_invar_def

section \<open>The trait and its contract\<close>

text \<open>
  The contract stated on the trait: round trip, default-zero, \<open>entries\<close> that agree with \<open>get\<close>, and a
  bytes column in which the empty blob is the absent one. \<open>slot_invar\<close> is the implementation's own
  representation invariant.
\<close>

definition total_supply :: "(Address \<times> BalanceSlot) list \<Rightarrow> nat" where
  "total_supply es = (\<Sum>e\<leftarrow>es. unat (canonical (snd e)))"

locale balance_store =
  fixes slot_invar :: "'s \<Rightarrow> bool"
    and fresh :: 's
    and get :: "'s \<Rightarrow> Address \<Rightarrow> BalanceSlot"
    and set_slot :: "'s \<Rightarrow> Address \<Rightarrow> BalanceSlot \<Rightarrow> 's"
    and entries :: "'s \<Rightarrow> (Address \<times> BalanceSlot) list"
    and get_bytes :: "'s \<Rightarrow> Address \<Rightarrow> bytes option"
    and set_bytes :: "'s \<Rightarrow> Address \<Rightarrow> bytes \<Rightarrow> 's"
    and bytes_entries :: "'s \<Rightarrow> (Address \<times> bytes) list"
  assumes invar_fresh: "slot_invar fresh"
    and invar_set: "slot_invar s \<Longrightarrow> slot_invar (set_slot s a v)"
    and invar_set_bytes: "slot_invar s \<Longrightarrow> slot_invar (set_bytes s a bs)"
    and get_fresh: "get fresh a = BalanceSlot_default"
    and get_set: "get (set_slot s a v) b = (if b = a then v else get s b)"
    and get_set_bytes: "get (set_bytes s a bs) b = get s b"
    and bytes_fresh: "get_bytes fresh a = None"
    and bytes_set: "get_bytes (set_slot s a v) b = get_bytes s b"
    and bytes_set_bytes:
      "get_bytes (set_bytes s a bs) b = (if b = a then if bs = [] then None else Some bs else get_bytes s b)"
    and entries_distinct: "slot_invar s \<Longrightarrow> distinct (map fst (entries s))"
    and entries_get: "slot_invar s \<Longrightarrow> (a, v) \<in> set (entries s) \<Longrightarrow> get s a = v"
    and get_no_entry: "slot_invar s \<Longrightarrow> a \<notin> fst ` set (entries s) \<Longrightarrow> get s a = BalanceSlot_default"
    and entries_set: "fst ` set (entries (set_slot s a v)) = insert a (fst ` set (entries s))"
    and entries_set_bytes: "entries (set_bytes s a bs) = entries s"
    and bytes_entries_iff:
      "slot_invar s \<Longrightarrow> (a, bs) \<in> set (bytes_entries s) \<longleftrightarrow> get_bytes s a = Some bs"
begin

text \<open>Two writes to different addresses commute; a second write to one address wins.\<close>

lemma get_set_commute:
  "a \<noteq> b \<Longrightarrow> get (set_slot (set_slot s a v) b w) c = get (set_slot (set_slot s b w) a v) c"
  by (simp add: get_set)

lemma get_set_twice: "get (set_slot (set_slot s a v) a w) b = get (set_slot s a w) b"
  by (simp add: get_set)

text \<open>The sum over the entries is the sum of the reads over any finite set that covers them.\<close>

lemma total_supply_sum:
  assumes "slot_invar s" "finite A" "fst ` set (entries s) \<subseteq> A"
  shows "total_supply (entries s) = (\<Sum>a\<in>A. unat (canonical (get s a)))"
proof -
  let ?d = "fst ` set (entries s)"
  have "total_supply (entries s) = (\<Sum>a\<leftarrow>map fst (entries s). unat (canonical (get s a)))"
    unfolding total_supply_def map_map comp_def
    by (rule arg_cong [where f = sum_list], rule map_cong [OF refl])
      (metis assms(1) entries_get prod.collapse)
  also have "\<dots> = (\<Sum>a\<in>?d. unat (canonical (get s a)))"
    using assms(1) by (subst sum_list_distinct_conv_sum_set) (simp_all add: entries_distinct)
  also have "\<dots> = (\<Sum>a\<in>A. unat (canonical (get s a)))"
    using assms by (intro sum.mono_neutral_left) (auto simp: get_no_entry)
  finally show ?thesis .
qed

text \<open>One write changes the total by exactly the difference of the two slots.\<close>

lemma total_supply_set:
  assumes "slot_invar s"
  shows "total_supply (entries (set_slot s a v)) + unat (canonical (get s a)) =
         total_supply (entries s) + unat (canonical v)"
proof -
  let ?A = "insert a (fst ` set (entries s))" and ?B = "fst ` set (entries s) - {a}"
  have split: "?A = insert a ?B" and fin: "finite ?B" "a \<notin> ?B" by auto
  have "total_supply (entries (set_slot s a v)) = (\<Sum>b\<in>?A. unat (canonical (get (set_slot s a v) b)))"
    using assms by (intro total_supply_sum) (auto simp: invar_set entries_set)
  also have "\<dots> = unat (canonical v) + (\<Sum>b\<in>?B. unat (canonical (get (set_slot s a v) b)))"
    unfolding split sum.insert [OF fin] by (simp add: get_set)
  also have "(\<Sum>b\<in>?B. unat (canonical (get (set_slot s a v) b))) = (\<Sum>b\<in>?B. unat (canonical (get s b)))"
    by (intro sum.cong) (auto simp: get_set)
  finally have new: "total_supply (entries (set_slot s a v)) =
    unat (canonical v) + (\<Sum>b\<in>?B. unat (canonical (get s b)))" .
  have "total_supply (entries s) = (\<Sum>b\<in>?A. unat (canonical (get s b)))"
    using assms by (intro total_supply_sum) auto
  also have "\<dots> = unat (canonical (get s a)) + (\<Sum>b\<in>?B. unat (canonical (get s b)))"
    unfolding split sum.insert [OF fin] ..
  finally show ?thesis using new by simp
qed

end

interpretation ims: balance_store InMemory_invar InMemory_new InMemory_get InMemory_set
  InMemory_entries InMemory_get_bytes InMemory_set_bytes InMemory_bytes_entries
proof (unfold_locales, goal_cases)
  case (11 s a v)
  then show ?case using hm.iter_iff_get [of "slots s" a v] by (simp add: InMemory_defs)
next
  case (12 s a)
  then have "map_get (slots s) a = None"
    by (auto simp: map_get_def map_of_eq_None_iff InMemory_defs)
  then show ?case by (simp add: InMemory_defs)
next
  case (15 s a bs)
  then show ?case by (simp add: InMemory_defs bt.iter_iff_get)
qed (auto simp: InMemory_defs hm_invar_distinct set_hm_insert split: if_splits)

section \<open>State\<close>

record State =
  store :: InMemoryBalanceStore

datatype StateChange =
    SetBalance (sb_addr: Address) (sb_to: Balance)
  | SetBytes (sy_addr: Address) (sy_bytes: bytes)

definition State_default :: State where
  "State_default = \<lparr>store = InMemory_new\<rparr>"

definition State_balance_of :: "State \<Rightarrow> Address \<Rightarrow> Balance" where
  "State_balance_of st addr = BalanceSlot_as_balance (InMemory_get (store st) addr)"

definition State_slot_of :: "State \<Rightarrow> Address \<Rightarrow> BalanceSlot" where
  "State_slot_of st addr = InMemory_get (store st) addr"

definition State_entries :: "State \<Rightarrow> (Address \<times> BalanceSlot) list" where
  "State_entries st = InMemory_entries (store st)"

definition State_bytes_of :: "State \<Rightarrow> Address \<Rightarrow> bytes option" where
  "State_bytes_of st addr = InMemory_get_bytes (store st) addr"

definition State_bytes_entries :: "State \<Rightarrow> (Address \<times> bytes) list" where
  "State_bytes_entries st = InMemory_bytes_entries (store st)"

fun State_apply :: "State \<Rightarrow> StateChange \<Rightarrow> State" where
  "State_apply st (SetBalance addr to_bal) =
     st\<lparr>store := InMemory_set (store st) addr (BalanceSlot_new (balance_val to_bal))\<rparr>"
| "State_apply st (SetBytes addr bs) = st\<lparr>store := InMemory_set_bytes (store st) addr bs\<rparr>"

definition State_invar :: "State \<Rightarrow> bool" where
  "State_invar st \<longleftrightarrow> InMemory_invar (store st)"

text \<open>The numeric balance, the sum of all balances, and a fold over validated changes.\<close>

abbreviation bal :: "State \<Rightarrow> Address \<Rightarrow> u128" where
  "bal st a \<equiv> balance_val (State_balance_of st a)"

definition State_supply :: "State \<Rightarrow> nat" where
  "State_supply st = total_supply (State_entries st)"

lemma bal_slot: "bal st a = canonical (State_slot_of st a)"
  by (simp add: State_balance_of_def State_slot_of_def BalanceSlot_as_balance_def)

lemma bal_default [simp]: "bal State_default a = 0"
  by (simp add: bal_slot State_slot_of_def State_default_def ims.get_fresh)

lemma bal_apply [simp]:
  "bal (State_apply st (SetBalance a v)) b = (if b = a then balance_val v else bal st b)"
  by (simp add: bal_slot State_slot_of_def ims.get_set)

lemma bal_apply_bytes [simp]: "bal (State_apply st (SetBytes a bs)) b = bal st b"
  by (simp add: bal_slot State_slot_of_def ims.get_set_bytes)

lemma bytes_apply [simp]: "State_bytes_of (State_apply st (SetBalance a v)) b = State_bytes_of st b"
  by (simp add: State_bytes_of_def ims.bytes_set)

lemma bytes_apply_bytes [simp]:
  "State_bytes_of (State_apply st (SetBytes a bs)) b =
     (if b = a then if bs = [] then None else Some bs else State_bytes_of st b)"
  by (simp add: State_bytes_of_def ims.bytes_set_bytes)

lemma slot_apply:
  "State_slot_of (State_apply st (SetBalance a v)) b =
     (if b = a then BalanceSlot_new (balance_val v) else State_slot_of st b)"
  by (simp add: State_slot_of_def ims.get_set)

lemma State_invar_default [simp]: "State_invar State_default"
  by (simp add: State_invar_def State_default_def ims.invar_fresh)

lemma State_invar_apply [simp]: "State_invar st \<Longrightarrow> State_invar (State_apply st c)"
  by (cases c) (simp_all add: State_invar_def ims.invar_set ims.invar_set_bytes)

lemma supply_set_balance:
  "State_invar st \<Longrightarrow>
   State_supply (State_apply st (SetBalance a v)) + unat (bal st a) = State_supply st + unat (balance_val v)"
  using ims.total_supply_set [of "store st" a "BalanceSlot_new (balance_val v)"]
  by (simp add: State_invar_def State_supply_def State_entries_def bal_slot State_slot_of_def)

lemma supply_set_bytes: "State_supply (State_apply st (SetBytes a bs)) = State_supply st"
  by (simp add: State_supply_def State_entries_def ims.entries_set_bytes)

declare State_apply.simps [simp del]

text \<open>Observational equality: the same slots and the same blobs at every address.\<close>

definition state_eq :: "State \<Rightarrow> State \<Rightarrow> bool" where
  "state_eq s t \<longleftrightarrow> (\<forall>a. State_slot_of s a = State_slot_of t a) \<and> (\<forall>a. State_bytes_of s a = State_bytes_of t a)"

lemma supply_cong:
  assumes "State_invar s" "State_invar t" "\<And>a. bal s a = bal t a"
  shows "State_supply s = State_supply t"
proof -
  let ?A = "fst ` set (State_entries s) \<union> fst ` set (State_entries t)"
  have "State_supply s = (\<Sum>a\<in>?A. unat (bal s a))"
    using assms(1) ims.total_supply_sum [of "store s" ?A]
    by (simp add: State_supply_def State_invar_def State_entries_def bal_slot State_slot_of_def)
  also have "\<dots> = (\<Sum>a\<in>?A. unat (bal t a))" using assms(3) by simp
  also have "\<dots> = State_supply t"
    using assms(2) ims.total_supply_sum [of "store t" ?A]
    by (simp add: State_supply_def State_invar_def State_entries_def bal_slot State_slot_of_def)
  finally show ?thesis .
qed

end
