(* ===== verification/Move_VM.thy ===== *)
theory Move_VM
  imports Accounts "HOL-Library.Product_Lexorder"
begin

text \<open>
  The Move call site of \<open>suwappudb-state/src/vm/executor.rs\<close>: identifiers, module ids, type tags,
  calls, the module store (trait as locale \<open>module_store\<close>, in-memory implementation) and the mock
  executor that simulates \<open>0x1::coin::transfer\<close>. A Rust \<open>String\<close> is its UTF-8 byte list. The
  \<open>MoveBalanceView\<close> trait object, which callers supply, is a record of its two methods. Unchecked
  \<open>u128\<close> additions wrap, as they do in the release profile (which sets no \<open>overflow-checks\<close>).
\<close>

definition ascii :: "string \<Rightarrow> bytes" where
  "ascii s = map of_char s"

section \<open>Identifiers\<close>

datatype IdentifierError = Empty_ident | InvalidByte u8 | InvalidLeadingByte u8

datatype Identifier = Identifier (as_str: bytes)

text \<open>The derived \<open>Ord\<close> of a string is the lexicographic order of its bytes.\<close>

instantiation Identifier :: linorder
begin

definition less_eq_Identifier :: "Identifier \<Rightarrow> Identifier \<Rightarrow> bool" where
  "less_eq_Identifier a b \<longleftrightarrow> as_str a \<le> as_str b"

definition less_Identifier :: "Identifier \<Rightarrow> Identifier \<Rightarrow> bool" where
  "less_Identifier a b \<longleftrightarrow> as_str a < as_str b"

instance by standard (auto simp: less_eq_Identifier_def less_Identifier_def intro: Identifier.expand)

end

definition is_ascii_alphabetic :: "u8 \<Rightarrow> bool" where
  "is_ascii_alphabetic b \<longleftrightarrow> (65 \<le> b \<and> b \<le> 90) \<or> (97 \<le> b \<and> b \<le> 122)"

definition is_ascii_alphanumeric :: "u8 \<Rightarrow> bool" where
  "is_ascii_alphanumeric b \<longleftrightarrow> is_ascii_alphabetic b \<or> (48 \<le> b \<and> b \<le> 57)"

text \<open>The loop over \<open>&bytes[1..]\<close>: the first byte outside the alphabet, if any.\<close>

fun first_invalid :: "bytes \<Rightarrow> u8 option" where
  "first_invalid [] = None"
| "first_invalid (b # bs) =
     (if \<not> (is_ascii_alphanumeric b \<or> b = 95) then Some b else first_invalid bs)"

fun Identifier_new :: "bytes \<Rightarrow> IdentifierError + Identifier" where
  "Identifier_new [] = Inl Empty_ident"
| "Identifier_new (first # rest) =
     (if \<not> (is_ascii_alphabetic first \<or> first = 95) then Inl (InvalidLeadingByte first)
      else case first_invalid rest of
             Some b \<Rightarrow> Inl (InvalidByte b)
           | None \<Rightarrow> Inr (Identifier (first # rest)))"

text \<open>What a constructed identifier satisfies: the type invariant of the private field.\<close>

definition wf_ident :: "Identifier \<Rightarrow> bool" where
  "wf_ident i \<longleftrightarrow> as_str i \<noteq> [] \<and> (is_ascii_alphabetic (hd (as_str i)) \<or> hd (as_str i) = 95) \<and>
     (\<forall>b \<in> set (tl (as_str i)). is_ascii_alphanumeric b \<or> b = 95)"

lemma first_invalid_None:
  "first_invalid bs = None \<longleftrightarrow> (\<forall>b \<in> set bs. is_ascii_alphanumeric b \<or> b = 95)"
  by (induction bs) auto

lemma Identifier_new_iff: "Identifier_new bs = Inr i \<longleftrightarrow> i = Identifier bs \<and> wf_ident i"
  by (cases bs) (auto simp: wf_ident_def first_invalid_None split: option.splits,
      (metis first_invalid_None option.distinct(1))+)

section \<open>Modules and calls\<close>

record ModuleId =
  mod_address :: MoveAddress
  mod_name :: Identifier

text \<open>The derived \<open>Ord\<close> of a struct compares its fields in order: the address first, then the name.\<close>

definition module_key :: "'a ModuleId_scheme \<Rightarrow> MoveAddress \<times> Identifier \<times> 'a" where
  "module_key i = (mod_address i, mod_name i, ModuleId.more i)"

instantiation ModuleId_ext :: (linorder) linorder
begin

definition less_eq_ModuleId_ext :: "'a ModuleId_scheme \<Rightarrow> 'a ModuleId_scheme \<Rightarrow> bool" where
  "less_eq_ModuleId_ext i j \<longleftrightarrow> module_key i \<le> module_key j"

definition less_ModuleId_ext :: "'a ModuleId_scheme \<Rightarrow> 'a ModuleId_scheme \<Rightarrow> bool" where
  "less_ModuleId_ext i j \<longleftrightarrow> module_key i < module_key j"

instance
  by standard (auto simp: less_eq_ModuleId_ext_def less_ModuleId_ext_def module_key_def intro: ModuleId.equality)

end

datatype TypeTag =
    TBool | TU8 | TU16 | TU32 | TU64 | TU128 | TU256 | TAddress | TSigner
  | TVector TypeTag
  | TStruct StructTag
and StructTag =
    StructTag (st_address: MoveAddress) (st_module: Identifier) (st_name: Identifier)
      (st_type_params: "TypeTag list")

record MoveCall =
  mc_caller :: MoveAddress
  mc_module :: ModuleId
  mc_function :: Identifier
  mc_type_arguments :: "TypeTag list"
  mc_arguments :: "bytes list"

record CompiledModule =
  cm_bytes :: bytes

datatype ModuleStoreError = AlreadyExists ModuleId | Backend string

record InMemoryModuleStore =
  modules :: "(ModuleId, CompiledModule) btree_map"

definition InMemoryModuleStore_new :: InMemoryModuleStore where
  "InMemoryModuleStore_new = \<lparr>modules = []\<rparr>"

definition ModuleStore_len :: "InMemoryModuleStore \<Rightarrow> usize" where
  "ModuleStore_len s = length (modules s)"

definition ModuleStore_is_empty :: "InMemoryModuleStore \<Rightarrow> bool" where
  "ModuleStore_is_empty s \<longleftrightarrow> modules s = []"

definition ModuleStore_get :: "InMemoryModuleStore \<Rightarrow> ModuleId \<Rightarrow> CompiledModule option" where
  "ModuleStore_get s i = map_get (modules s) i"

definition ModuleStore_contains :: "InMemoryModuleStore \<Rightarrow> ModuleId \<Rightarrow> bool" where
  "ModuleStore_contains s i \<longleftrightarrow> map_get (modules s) i \<noteq> None"

definition ModuleStore_put ::
  "InMemoryModuleStore \<Rightarrow> ModuleId \<Rightarrow> CompiledModule \<Rightarrow> ModuleStoreError + InMemoryModuleStore" where
  "ModuleStore_put s i m =
     (if ModuleStore_contains s i then Inl (AlreadyExists i)
      else Inr (s\<lparr>modules := bt_insert i m (modules s)\<rparr>))"

text \<open>
  The trait's contract: a deployed module is found again, a second deploy at an id is refused and
  no other id changes.
\<close>

locale module_store =
  fixes mget :: "'s \<Rightarrow> ModuleId \<Rightarrow> CompiledModule option"
    and mput :: "'s \<Rightarrow> ModuleId \<Rightarrow> CompiledModule \<Rightarrow> ModuleStoreError + 's"
    and mcontains :: "'s \<Rightarrow> ModuleId \<Rightarrow> bool"
  assumes contains_get: "mcontains s i \<longleftrightarrow> mget s i \<noteq> None"
    and put_taken: "mcontains s i \<Longrightarrow> mput s i m = Inl (AlreadyExists i)"
    and put_free: "\<not> mcontains s i \<Longrightarrow> \<exists>s'. mput s i m = Inr s' \<and> mget s' = (mget s)(i \<mapsto> m)"
begin

text \<open>Deploying a queue of modules, ignoring refusals (\<open>let _ = module_store.put(..)\<close>).\<close>

definition put_or_keep :: "'s \<Rightarrow> ModuleId \<times> CompiledModule \<Rightarrow> 's" where
  "put_or_keep s e = (case mput s (fst e) (snd e) of Inl _ \<Rightarrow> s | Inr s' \<Rightarrow> s')"

lemma get_put_or_keep:
  "mget (put_or_keep s (i, m)) = (if mcontains s i then mget s else (mget s)(i \<mapsto> m))"
  using put_taken [of s i m] put_free [of s i m] by (auto simp: put_or_keep_def)

text \<open>A queue of distinct, free ids lands completely.\<close>

lemma fold_put_all:
  assumes "distinct (map fst q)" "\<forall>i \<in> fst ` set q. \<not> mcontains s i"
  shows "mget (fold (\<lambda>e s. put_or_keep s e) q s) i =
    (case map_of q i of Some m \<Rightarrow> Some m | None \<Rightarrow> mget s i)"
  using assms
proof (induction q arbitrary: s)
  case Nil
  then show ?case by simp
next
  case (Cons e q)
  obtain j m where e: "e = (j, m)" by (cases e)
  let ?s = "put_or_keep s (j, m)"
  from Cons.prems e have get: "mget ?s = (mget s)(j \<mapsto> m)" by (simp add: get_put_or_keep)
  from Cons.prems e get have "\<forall>i \<in> fst ` set q. \<not> mcontains ?s i"
    by (auto simp: contains_get)
  moreover have "map_of q j = None" using Cons.prems e by (simp add: map_of_eq_None_iff)
  ultimately show ?case using Cons e get by (auto split: option.splits)
qed

end

interpretation ms: module_store ModuleStore_get ModuleStore_put ModuleStore_contains
  by unfold_locales (auto simp: ModuleStore_get_def ModuleStore_put_def ModuleStore_contains_def)

text \<open>The map stays sorted by module id, and an accepted deploy adds exactly one module.\<close>

lemma module_store_grows:
  assumes "ModuleStore_put s i m = Inr s'"
  shows "ModuleStore_len s' = ModuleStore_len s + 1" "\<not> ModuleStore_is_empty s'"
    "bt_invar (modules s) \<Longrightarrow> bt_invar (modules s')"
proof -
  from assms have s': "s' = s\<lparr>modules := bt_insert i m (modules s)\<rparr>" "map_get (modules s) i = None"
    by (auto simp: ModuleStore_put_def ModuleStore_contains_def split: if_splits)
  have "length (bt_insert i m ms) = Suc (length ms)" if "map_get ms i = None" for ms
    using that by (induction i m ms rule: bt_insert.induct) (auto simp: map_get_Cons split: if_splits)
  with s' have "length (modules s') = Suc (length (modules s))" by simp
  then show "ModuleStore_len s' = ModuleStore_len s + 1" "\<not> ModuleStore_is_empty s'"
    by (auto simp: ModuleStore_len_def ModuleStore_is_empty_def)
  show "bt_invar (modules s) \<Longrightarrow> bt_invar (modules s')" by (simp add: s')
qed

section \<open>Sessions and the mock executor\<close>

record MoveBalanceView =
  view_coin_value :: "MoveAddress \<Rightarrow> MoveCoinValue"
  view_nonce :: "MoveAddress \<Rightarrow> AccountNonce"

record ResourceWrite =
  rw_addr :: MoveAddress
  rw_coin_value :: MoveCoinValue
  rw_nonce :: AccountNonce

record MoveEvent =
  ev_type_tag :: TypeTag
  ev_data :: bytes

record MoveSessionState =
  balance_view :: MoveBalanceView
  buffered_writes :: "ResourceWrite list"
  events :: "MoveEvent list"

definition MoveSessionState_new :: "MoveBalanceView \<Rightarrow> MoveSessionState" where
  "MoveSessionState_new v = \<lparr>balance_view = v, buffered_writes = [], events = []\<rparr>"

record MoveOutcome =
  return_values :: "bytes list"
  out_events :: "MoveEvent list"
  resource_writes :: "ResourceWrite list"

record AbortLocation =
  loc_module :: "ModuleId option"
  function_index :: u16
  instruction_index :: u16

datatype MoveExecutionError =
    ModuleNotFound ModuleId
  | BytecodeVerificationFailed string
  | Abort u64 AbortLocation
  | OutOfGas
  | InvalidArguments string
  | LinkerError string

type_synonym MoveExecutor =
  "MoveCall \<Rightarrow> InMemoryModuleStore \<Rightarrow> MoveSessionState \<Rightarrow> (MoveExecutionError + MoveOutcome) \<times> MoveSessionState"

definition CANONICAL_COIN_ADDRESS :: MoveAddress where
  "CANONICAL_COIN_ADDRESS = MoveAddress (replicate 31 0 @ [1])"

definition ABORT_INSUFFICIENT_BALANCE :: u64 where
  "ABORT_INSUFFICIENT_BALANCE = 0x10006"

definition empty_outcome :: MoveOutcome where
  "empty_outcome = \<lparr>return_values = [], out_events = [], resource_writes = []\<rparr>"

definition MockMoveExecutor_execute :: MoveExecutor where
  "MockMoveExecutor_execute call _ state =
     (let is_canonical_coin = mod_address (mc_module call) = CANONICAL_COIN_ADDRESS \<and>
            as_str (mod_name (mc_module call)) = ascii ''coin'';
          is_transfer = as_str (mc_function call) = ascii ''transfer''
      in if \<not> (is_canonical_coin \<and> is_transfer) then (Inr empty_outcome, state)
      else if length (mc_arguments call) \<noteq> 2 then
        (Inl (InvalidArguments (''0x1::coin::transfer expects 2 arguments, got '' @ to_decimal (length (mc_arguments call)))), state)
      else if length (mc_arguments call ! 0) \<noteq> 32 then
        (Inl (InvalidArguments ''0x1::coin::transfer: arg 0 must be 32-byte address''), state)
      else if length (mc_arguments call ! 1) \<noteq> 8 then
        (Inl (InvalidArguments ''0x1::coin::transfer: arg 1 must be u64 (8 bytes LE)''), state)
      else
        let to_addr = MoveAddress (mc_arguments call ! 0);
            amount = (from_le_bytes (mc_arguments call ! 1) :: u64);
            view = balance_view state;
            caller_balance = MoveCoinValue_to_u128 (view_coin_value view (mc_caller call))
        in if (ucast amount :: u128) > caller_balance then
             (Inl (Abort ABORT_INSUFFICIENT_BALANCE
                \<lparr>loc_module = Some (mc_module call), function_index = 0, instruction_index = 0\<rparr>), state)
           else
             let caller_new = caller_balance - ucast amount;
                 recipient_new = MoveCoinValue_to_u128 (view_coin_value view to_addr) + ucast amount;
                 caller_nonce = AccountNonce_next (view_nonce view (mc_caller call));
                 recipient_nonce = view_nonce view to_addr;
                 writes = buffered_writes state @
                   [\<lparr>rw_addr = mc_caller call, rw_coin_value = MoveCoinValue_from_u128 caller_new,
                     rw_nonce = caller_nonce\<rparr>,
                    \<lparr>rw_addr = to_addr, rw_coin_value = MoveCoinValue_from_u128 recipient_new,
                     rw_nonce = recipient_nonce\<rparr>]
             in (Inr \<lparr>return_values = [], out_events = [], resource_writes = writes\<rparr>,
                 state\<lparr>buffered_writes := writes\<rparr>))"

end
