(* ===== verification/Bridge.thy ===== *)
theory Bridge
  imports Store Move_VM
begin

text \<open>
  The validated mutation path of \<open>suwappudb-bridge\<close>: intents and rejections, the \<open>Bridge\<close>
  operations (\<open>lib.rs\<close>), the VM-shaped transactions and read projections
  (\<open>suwappudb-state/src/vm/tx.rs\<close>, \<open>projector.rs\<close>), the two mock VMs (\<open>vm/executor.rs\<close>) and the lane's
  mempool (\<open>suwappudb-lane\<close>). A \<open>Bridge\<close> is a mutable reference to the state together with the
  capability token, so its operations are state transformers; the token is not represented, only
  definitions of this theory and of its clients call \<open>State_apply\<close>.
\<close>

section \<open>Intents\<close>

datatype Intent =
    Transfer (tr_from: Address) (tr_to: Address) (tr_amount: u128)
  | Call (call_caller: Address) (call_target: Address) (call_value: u128) (call_calldata: bytes)
  | DeployModule (dm_account: MoveAddress) (dm_name: Identifier) (dm_bytes: bytes)

datatype RejectReason =
    InsufficientBalance
  | AmountOverflow
  | CallRequiresRegistry
  | DeployModuleRequiresModuleStore
  | MoveRuntimeRequired
  | MoveCallFailed MoveExecutionError
  | ModuleDeployFailed MoveAddress Identifier

text \<open>
  \<open>MoveCallFailed\<close> and \<open>ModuleDeployFailed\<close> carry a formatted message in the source; the model carries
  the values the message is formatted from.
\<close>

section \<open>Bridge operations\<close>

text \<open>
  Each operation returns its result and the state after the call; an \<open>Err\<close> carries the state it
  leaves behind, so that "no mutation on error" is a theorem and not built in.
\<close>

definition Bridge_balance_of :: "State \<Rightarrow> Address \<Rightarrow> Balance" where
  "Bridge_balance_of st a = State_balance_of st a"

definition Bridge_bytes_of :: "State \<Rightarrow> Address \<Rightarrow> bytes option" where
  "Bridge_bytes_of st a = State_bytes_of st a"

fun Bridge_submit :: "State \<Rightarrow> Intent \<Rightarrow> (RejectReason + unit) \<times> State" where
  "Bridge_submit st (Call _ _ _ _) = (Inl CallRequiresRegistry, st)"
| "Bridge_submit st (DeployModule _ _ _) = (Inl DeployModuleRequiresModuleStore, st)"
| "Bridge_submit st (Transfer from to_addr amount) =
     (let from_balance = balance_val (State_balance_of st from) in
      if from_balance < amount then (Inl InsufficientBalance, st)
      else if from = to_addr then (Inr (), st)
      else
        let to_balance = balance_val (State_balance_of st to_addr) in
        case checked_add to_balance amount of
          None \<Rightarrow> (Inl AmountOverflow, st)
        | Some new_to \<Rightarrow>
            let new_from = from_balance - amount;
                st1 = State_apply st (SetBalance from (Balance new_from));
                st2 = State_apply st1 (SetBalance to_addr (Balance new_to))
            in (Inr (), st2))"

definition Bridge_credit :: "State \<Rightarrow> Address \<Rightarrow> u128 \<Rightarrow> (RejectReason + unit) \<times> State" where
  "Bridge_credit st addr amount =
     (if amount = 0 then (Inr (), st)
      else case checked_add (balance_val (State_balance_of st addr)) amount of
             None \<Rightarrow> (Inl AmountOverflow, st)
           | Some new \<Rightarrow> (Inr (), State_apply st (SetBalance addr (Balance new))))"

definition Bridge_debit :: "State \<Rightarrow> Address \<Rightarrow> u128 \<Rightarrow> (RejectReason + unit) \<times> State" where
  "Bridge_debit st addr amount =
     (if amount = 0 then (Inr (), st)
      else let b = balance_val (State_balance_of st addr) in
           if b < amount then (Inl InsufficientBalance, st)
           else (Inr (), State_apply st (SetBalance addr (Balance (b - amount)))))"

definition Bridge_transfer_internal ::
  "State \<Rightarrow> Address \<Rightarrow> Address \<Rightarrow> u128 \<Rightarrow> (RejectReason + unit) \<times> State" where
  "Bridge_transfer_internal st from to_addr amount =
     (if amount = 0 \<or> from = to_addr then (Inr (), st)
      else
        let from_bal = balance_val (State_balance_of st from) in
        if from_bal < amount then (Inl InsufficientBalance, st)
        else case checked_add (balance_val (State_balance_of st to_addr)) amount of
               None \<Rightarrow> (Inl AmountOverflow, st)
             | Some new_to \<Rightarrow>
                 let st1 = State_apply st (SetBalance from (Balance (from_bal - amount)))
                 in (Inr (), State_apply st1 (SetBalance to_addr (Balance new_to))))"

definition Bridge_write_bytes :: "State \<Rightarrow> Address \<Rightarrow> bytes \<Rightarrow> State" where
  "Bridge_write_bytes st addr bs = State_apply st (SetBytes addr bs)"

section \<open>What a transfer does to the balances\<close>

text \<open>
  Reference semantics on balance functions, shared by every executor: the balances after moving
  \<open>amount\<close> from one address to a different one.
\<close>

definition move_balance :: "(Address \<Rightarrow> u128) \<Rightarrow> Address \<Rightarrow> Address \<Rightarrow> u128 \<Rightarrow> Address \<Rightarrow> u128" where
  "move_balance f from to_addr amount =
     (if from = to_addr then f else f(from := f from - amount, to_addr := f to_addr + amount))"

text \<open>
  The ledger interface: a numeric balance per address and a write. Its clients are the operations
  that write a debited and a credited balance one after the other.
\<close>

locale ledger =
  fixes linvar :: "'s \<Rightarrow> bool"
    and lbal :: "'s \<Rightarrow> Address \<Rightarrow> u128"
    and lset :: "'s \<Rightarrow> Address \<Rightarrow> u128 \<Rightarrow> 's"
    and lsupply :: "'s \<Rightarrow> nat"
  assumes linvar_set: "linvar s \<Longrightarrow> linvar (lset s a v)"
    and lbal_set: "lbal (lset s a v) = (lbal s)(a := v)"
    and supply_set: "linvar s \<Longrightarrow> lsupply (lset s a v) + unat (lbal s a) = lsupply s + unat v"
begin

text \<open>Debit then credit between distinct addresses keeps the supply.\<close>

lemma move_supply:
  assumes "linvar s" "a \<noteq> b" "n \<le> lbal s a" "unat (lbal s b) + unat n < 2 ^ 128"
  shows "lsupply (lset (lset s a (lbal s a - n)) b (lbal s b + n)) = lsupply s"
proof -
  let ?s1 = "lset s a (lbal s a - n)"
  have "unat (lbal s a - n) = unat (lbal s a) - unat n" and "unat n \<le> unat (lbal s a)"
    using assms(3) by (simp_all add: unat_sub word_le_nat_alt)
  then have s1: "lsupply ?s1 + unat n = lsupply s"
    using supply_set [OF assms(1), of a "lbal s a - n"] by linarith
  have "unat (lbal s b + n) = unat (lbal s b) + unat n"
    using assms(4) by (simp add: unat_word_ariths)
  then have "lsupply (lset ?s1 b (lbal s b + n)) = lsupply ?s1 + unat n"
    using supply_set [OF linvar_set [OF assms(1)], of a "lbal s a - n" b "lbal s b + n"] assms(2)
    by (simp add: lbal_set)
  with s1 show ?thesis by simp
qed

lemma move_lbal:
  "a \<noteq> b \<Longrightarrow> lbal (lset (lset s a (lbal s a - n)) b (lbal s b + n)) = move_balance (lbal s) a b n"
  by (simp add: lbal_set move_balance_def)

end

interpretation sl: ledger State_invar bal "\<lambda>st a v. State_apply st (SetBalance a (Balance v))" State_supply
  by unfold_locales (auto simp: supply_set_balance [of _ _ "Balance _", simplified])

section \<open>Facts about the operations\<close>

lemma submit_error_unchanged: "Bridge_submit st i = (Inl e, st') \<Longrightarrow> st' = st"
  by (cases i) (auto simp: Let_def split: if_splits option.splits)

lemma submit_transfer_cases:
  "Bridge_submit st (Transfer a b n) =
     (if bal st a < n then (Inl InsufficientBalance, st)
      else if a = b then (Inr (), st)
      else if 2 ^ 128 \<le> unat (bal st b) + unat n then (Inl AmountOverflow, st)
      else (Inr (), State_apply (State_apply st (SetBalance a (Balance (bal st a - n))))
                      (SetBalance b (Balance (bal st b + n)))))"
  by (auto simp: Let_def checked_add_def split: option.splits)

declare Bridge_submit.simps(3) [simp del]

lemma submit_ok_bal:
  assumes "Bridge_submit st (Transfer a b n) = (Inr (), st')"
  shows "bal st' = move_balance (bal st) a b n"
proof (cases "a = b")
  case True
  with assms show ?thesis by (auto simp: submit_transfer_cases move_balance_def split: if_splits)
next
  case False
  with assms show ?thesis
    using sl.move_lbal [OF False] by (auto simp: submit_transfer_cases split: if_splits)
qed

lemma submit_invar: "State_invar st \<Longrightarrow> State_invar (snd (Bridge_submit st i))"
  by (cases i) (auto simp: submit_transfer_cases)

lemma submit_supply:
  assumes "State_invar st"
  shows "State_supply (snd (Bridge_submit st i)) = State_supply st"
proof (cases i)
  case (Transfer a b n)
  then show ?thesis
    using assms sl.move_supply [of st a b n]
    by (auto simp: submit_transfer_cases not_less not_le)
qed simp_all

lemma submit_bytes: "State_bytes_of (snd (Bridge_submit st i)) a = State_bytes_of st a"
  by (cases i) (auto simp: submit_transfer_cases)

text \<open>A fold of \<open>Bridge::submit\<close> over a list of intents: what a sequential driver computes.\<close>

fun submit_all :: "State \<Rightarrow> Intent list \<Rightarrow> (RejectReason + unit) list \<times> State" where
  "submit_all st [] = ([], st)"
| "submit_all st (i # is) =
     (let (r, st1) = Bridge_submit st i; (rs, st2) = submit_all st1 is in (r # rs, st2))"

lemma submit_all_supply:
  "State_invar st \<Longrightarrow>
   State_supply (snd (submit_all st is)) = State_supply st \<and> State_invar (snd (submit_all st is))"
proof (induction "is" arbitrary: st)
  case Nil
  then show ?case by simp
next
  case (Cons i "is")
  then show ?case
    using submit_supply [of st i] submit_invar [of st i]
    by (simp add: Let_def case_prod_unfold)
qed

section \<open>VM-shaped transactions, projections and mock VMs\<close>

record EvmTx =
  etx_from :: Address
  etx_to :: Address
  etx_value :: u128

record MoveTx =
  mtx_signer :: Address
  mtx_recipient :: Address
  mtx_amount :: u128

record CanonicalTransfer =
  ct_from :: Address
  ct_to :: Address
  ct_amount :: u128

definition EvmTx_to_canonical :: "EvmTx \<Rightarrow> CanonicalTransfer" where
  "EvmTx_to_canonical tx = \<lparr>ct_from = etx_from tx, ct_to = etx_to tx, ct_amount = etx_value tx\<rparr>"

definition MoveTx_to_canonical :: "MoveTx \<Rightarrow> CanonicalTransfer" where
  "MoveTx_to_canonical tx = \<lparr>ct_from = mtx_signer tx, ct_to = mtx_recipient tx, ct_amount = mtx_amount tx\<rparr>"

definition EvmView_balance_of :: "State \<Rightarrow> Address \<Rightarrow> EvmBalance" where
  "EvmView_balance_of st a = BalanceSlot_evm_balance (State_slot_of st a)"

definition EvmProjector_nonce :: "State \<Rightarrow> Address \<Rightarrow> EvmNonce" where
  "EvmProjector_nonce st a = EvmNonce (evm_nonce_val (AccountNonce_evm_nonce (nonce (State_slot_of st a))))"

definition EvmProjector_slot :: "State \<Rightarrow> Address \<Rightarrow> BalanceSlot" where
  "EvmProjector_slot st a = State_slot_of st a"

definition MoveView_coin_value :: "State \<Rightarrow> Address \<Rightarrow> MoveCoinValue" where
  "MoveView_coin_value st a = BalanceSlot_move_coin_value (State_slot_of st a)"

definition MoveProjector_sequence_number :: "State \<Rightarrow> Address \<Rightarrow> MoveSequenceNumber" where
  "MoveProjector_sequence_number st a =
     MoveSequenceNumber (move_seq_val (AccountNonce_move_sequence (nonce (State_slot_of st a))))"

definition MoveProjector_slot :: "State \<Rightarrow> Address \<Rightarrow> BalanceSlot" where
  "MoveProjector_slot st a = State_slot_of st a"

datatype EvmError = Revert RejectReason
datatype MoveError = MoveAbort RejectReason

definition MockEvm_execute :: "State \<Rightarrow> EvmTx \<Rightarrow> (EvmError + unit) \<times> State" where
  "MockEvm_execute st tx =
     (let c = EvmTx_to_canonical tx;
          (r, st') = Bridge_submit st (Transfer (ct_from c) (ct_to c) (ct_amount c))
      in (case r of Inl e \<Rightarrow> Inl (Revert e) | Inr u \<Rightarrow> Inr u, st'))"

definition MockMove_execute :: "State \<Rightarrow> MoveTx \<Rightarrow> (MoveError + unit) \<times> State" where
  "MockMove_execute st tx =
     (let c = MoveTx_to_canonical tx;
          (r, st') = Bridge_submit st (Transfer (ct_from c) (ct_to c) (ct_amount c))
      in (case r of Inl e \<Rightarrow> Inl (MoveAbort e) | Inr u \<Rightarrow> Inr u, st'))"

section \<open>The lane's mempool\<close>

datatype DrainOutcome = Applied | DrainRejected RejectReason

record Mempool =
  queue :: "Intent list"

definition Mempool_new :: Mempool where
  "Mempool_new = \<lparr>queue = []\<rparr>"

definition Mempool_enqueue :: "Mempool \<Rightarrow> Intent \<Rightarrow> Mempool" where
  "Mempool_enqueue m i = m\<lparr>queue := queue m @ [i]\<rparr>"

definition Mempool_len :: "Mempool \<Rightarrow> usize" where
  "Mempool_len m = length (queue m)"

definition Mempool_is_empty :: "Mempool \<Rightarrow> bool" where
  "Mempool_is_empty m \<longleftrightarrow> queue m = []"

definition Mempool_drain_one :: "Mempool \<Rightarrow> State \<Rightarrow> DrainOutcome option \<times> Mempool \<times> State" where
  "Mempool_drain_one m st =
     (case queue m of
        [] \<Rightarrow> (None, m, st)
      | i # rest \<Rightarrow>
          let (r, st') = Bridge_submit st i
          in (Some (case r of Inr _ \<Rightarrow> Applied | Inl e \<Rightarrow> DrainRejected e), m\<lparr>queue := rest\<rparr>, st'))"

function Mempool_drain_all :: "Mempool \<Rightarrow> State \<Rightarrow> DrainOutcome list \<times> Mempool \<times> State" where
  "Mempool_drain_all m st =
     (case Mempool_drain_one m st of
        (None, m', st') \<Rightarrow> ([], m', st')
      | (Some oc, m', st') \<Rightarrow>
          let (ocs, m'', st'') = Mempool_drain_all m' st' in (oc # ocs, m'', st''))"
  by pat_completeness auto
termination
  by (relation "measure (\<lambda>(m, st). length (queue m))")
    (auto simp: Mempool_drain_one_def split: list.splits prod.splits)

declare Mempool_drain_all.simps [simp del]

end
