(* ===== verification/Bridge_Props.thy ===== *)
theory Bridge_Props
  imports Bridge
begin

text \<open>
  Properties of the validated mutation path of \<open>suwappudb-bridge/src/lib.rs\<close> and of its direct clients:
  the two mock VMs (\<open>vm/executor.rs\<close>), the mempool of \<open>suwappudb-lane\<close>, and the account values of
  \<open>suwappudb-state\<close> the bridge moves.
\<close>

section \<open>Accounts\<close>

lemma nonce_next_val: "unat (nonce_value (AccountNonce_next n)) = min (unat (nonce_value n) + 1) (2 ^ 64 - 1)"
  using saturating_add_unat [of "nonce_value n" 1] by (simp add: AccountNonce_next_def)

text \<open>
  A nonce is used once: after \<open>next\<close>, the nonce just consumed is no longer accepted, and the one
  accepted is its successor; the only exception is the saturated nonce \<open>u64::MAX\<close>, which stays valid.
\<close>

theorem nonce_used_once:
  "AccountNonce_is_valid_next (AccountNonce_next n) m \<longleftrightarrow>
     (if nonce_value n = - 1 then m = nonce_value n else m = nonce_value n + 1)"
proof -
  have max: "nonce_value n = - 1 \<longleftrightarrow> unat (nonce_value n) = 2 ^ 64 - 1"
    by (simp add: word_unat_eq_iff unsigned_minus_1_eq_mask mask_eq_exp_minus_1)
  have lt: "unat (nonce_value n) < 2 ^ 64" using unsigned_less [of "nonce_value n", where ?'a = nat] by simp
  show ?thesis
  proof (cases "nonce_value n = - 1")
    case True
    then have "nonce_value (AccountNonce_next n) = nonce_value n"
      using max nonce_next_val [of n] by (simp add: word_unat_eq_iff)
    with True show ?thesis by (simp add: AccountNonce_is_valid_next_def)
  next
    case False
    with max lt have "unat (nonce_value n) + 1 < 2 ^ 64" by linarith
    then have "nonce_value (AccountNonce_next n) = nonce_value n + 1"
      by (simp add: AccountNonce_next_def saturating_add_def checked_add_def)
    with False show ?thesis by (simp add: AccountNonce_is_valid_next_def)
  qed
qed

text \<open>
  \<open>deposit\<close> and \<open>withdraw\<close> are inverse: a deposit that succeeds adds exactly the amount, keeps the
  nonce, and withdrawing the amount gives the original slot back; it fails exactly when the sum does
  not fit 128 bits, and a withdrawal fails exactly when the balance is too small.
\<close>

theorem slot_deposit_withdraw:
  "(case BalanceSlot_deposit s n of
      Inl e \<Rightarrow> e = Overflow \<and> 2 ^ 128 \<le> unat (canonical s) + unat n
    | Inr s' \<Rightarrow> unat (canonical s') = unat (canonical s) + unat n \<and> nonce s' = nonce s \<and>
                BalanceSlot_withdraw s' n = Inr s) \<and>
   (BalanceSlot_withdraw s n = Inl Underflow \<longleftrightarrow> unat (canonical s) < unat n)"
proof -
  have "checked_sub (canonical s + n) n = Some (canonical s)" if "unat (canonical s) + unat n < 2 ^ 128"
    using that by (auto simp: checked_sub_def word_le_nat_alt unat_word_ariths)
  moreover have "unat (canonical s + n) = unat (canonical s) + unat n" if "unat (canonical s) + unat n < 2 ^ 128"
    using that by (simp add: unat_word_ariths)
  ultimately show ?thesis
    by (auto simp: BalanceSlot_deposit_def BalanceSlot_withdraw_def checked_add_def checked_sub_def
        word_less_nat_alt word_le_nat_alt not_less split: option.splits)
qed

section \<open>Transfers\<close>

text \<open>
  C8: a submitted intent either changes nothing or is a transfer that moves exactly its amount: no
  balance wraps around, no third balance changes, and the blobs stay. Rejections carry the state
  unchanged.
\<close>

theorem submit_exact:
  assumes "Bridge_submit st i = (r, st')"
  shows "(case r of
      Inl e \<Rightarrow> st' = st
    | Inr u \<Rightarrow> \<exists>a b n. i = Transfer a b n \<and> n \<le> bal st a \<and>
        (if a = b then st' = st
         else unat (bal st' a) + unat n = unat (bal st a) \<and>
              unat (bal st' b) = unat (bal st b) + unat n \<and>
              (\<forall>c. c \<noteq> a \<and> c \<noteq> b \<longrightarrow> bal st' c = bal st c) \<and>
              (\<forall>c. State_bytes_of st' c = State_bytes_of st c)))"
proof (cases r)
  case (Inl e)
  with assms show ?thesis by (auto dest: submit_error_unchanged)
next
  case (Inr u)
  with assms obtain a b n where i: "i = Transfer a b n" by (cases i) auto
  from assms Inr i have n: "n \<le> bal st a"
    by (auto simp: submit_transfer_cases not_less split: if_splits)
  have sub: "unat (bal st a - n) + unat n = unat (bal st a)"
    using n by (simp add: unat_sub word_le_nat_alt)
  show ?thesis
  proof (cases "a = b")
    case True
    with assms Inr i n show ?thesis by (auto simp: submit_transfer_cases split: if_splits)
  next
    case False
    with assms Inr i n have "unat (bal st b) + unat n < 2 ^ 128" and
      st': "st' = State_apply (State_apply st (SetBalance a (Balance (bal st a - n)))) (SetBalance b (Balance (bal st b + n)))"
      by (auto simp: submit_transfer_cases not_le split: if_splits)
    then have "unat (bal st b + n) = unat (bal st b) + unat n" by (simp add: unat_word_ariths)
    with False Inr i n sub show ?thesis by (auto simp: st')
  qed
qed

definition one_funded :: State where
  "one_funded = State_apply State_default (SetBalance (addr_of 1) (Balance 10))"

lemma one_funded_invar: "State_invar one_funded"
  by (simp add: one_funded_def)

theorem submit_exact_witness:
  "let st' = snd (Bridge_submit one_funded (Transfer (addr_of 1) (addr_of 2) 4)) in
   unat (bal st' (addr_of 1)) + unat (4 :: u128) = unat (bal one_funded (addr_of 1)) \<and>
   unat (bal st' (addr_of 2)) = unat (bal one_funded (addr_of 2)) + unat (4 :: u128)"
proof -
  have ok: "fst (Bridge_submit one_funded (Transfer (addr_of 1) (addr_of 2) 4)) = Inr ()" by code_simp
  from submit_exact [OF prod.collapse [symmetric], of one_funded "Transfer (addr_of 1) (addr_of 2) 4"]
  show ?thesis by (simp add: ok Let_def)
qed

text \<open>
  Every entry point accounts for the total: a submitted intent and an internal transfer keep the
  sum of all balances, a credit adds exactly its amount to it, a debit subtracts exactly its amount,
  and a rejected call leaves the state as it was.
\<close>

theorem bridge_supply:
  assumes "State_invar st"
  shows "State_supply (snd (Bridge_submit st i)) = State_supply st \<and>
     State_supply (snd (Bridge_transfer_internal st a b n)) = State_supply st \<and>
     State_supply (snd (Bridge_credit st a n)) =
       State_supply st + (if fst (Bridge_credit st a n) = Inr () then unat n else 0) \<and>
     State_supply (snd (Bridge_debit st a n)) + (if fst (Bridge_debit st a n) = Inr () then unat n else 0) =
       State_supply st"
proof (intro conjI)
  show "State_supply (snd (Bridge_submit st i)) = State_supply st" using assms by (rule submit_supply)
  show "State_supply (snd (Bridge_transfer_internal st a b n)) = State_supply st"
    using sl.move_supply [OF assms, of a b n]
    by (auto simp: Bridge_transfer_internal_def Let_def checked_add_def not_less)
  show "State_supply (snd (Bridge_credit st a n)) =
       State_supply st + (if fst (Bridge_credit st a n) = Inr () then unat n else 0)"
    using supply_set_balance [OF assms, of a "Balance (bal st a + n)"]
    by (auto simp: Bridge_credit_def checked_add_def unat_word_ariths)
  show "State_supply (snd (Bridge_debit st a n)) + (if fst (Bridge_debit st a n) = Inr () then unat n else 0) =
       State_supply st"
    using supply_set_balance [OF assms, of a "Balance (bal st a - n)"]
    by (auto simp: Bridge_debit_def Let_def not_less unat_sub word_le_nat_alt)
qed

theorem bridge_supply_witness:
  "State_supply (snd (Bridge_credit one_funded (addr_of 2) 5)) = State_supply one_funded + unat (5 :: u128) \<and>
   State_supply (snd (Bridge_submit one_funded (Transfer (addr_of 1) (addr_of 2) 5))) = State_supply one_funded"
proof -
  have ok: "fst (Bridge_credit one_funded (addr_of 2) 5) = Inr ()" by code_simp
  show ?thesis
    using bridge_supply [OF one_funded_invar, of "Transfer (addr_of 1) (addr_of 2) 5" "addr_of 2" "addr_of 1" 5] ok
    by simp
qed

text \<open>
  \<open>transfer_internal\<close> and \<open>submit\<close> agree between distinct addresses: the same verdict and the same
  balances, for every amount including zero.
\<close>

theorem transfer_internal_agrees:
  assumes "a \<noteq> b"
  shows "fst (Bridge_transfer_internal st a b n) = fst (Bridge_submit st (Transfer a b n)) \<and>
         bal (snd (Bridge_transfer_internal st a b n)) = bal (snd (Bridge_submit st (Transfer a b n)))"
proof (cases "n = 0")
  case True
  have "unat (bal st b) < 2 ^ 128" using unsigned_less [of "bal st b", where ?'a = nat] by simp
  with True assms show ?thesis
    by (auto simp: Bridge_transfer_internal_def submit_transfer_cases fun_eq_iff)
next
  case False
  with assms show ?thesis
    by (auto simp: Bridge_transfer_internal_def submit_transfer_cases Let_def checked_add_def)
qed

theorem transfer_internal_agrees_witness:
  "fst (Bridge_transfer_internal one_funded (addr_of 1) (addr_of 2) 11) =
     fst (Bridge_submit one_funded (Transfer (addr_of 1) (addr_of 2) 11)) \<and>
   bal (snd (Bridge_transfer_internal one_funded (addr_of 1) (addr_of 2) 11)) =
     bal (snd (Bridge_submit one_funded (Transfer (addr_of 1) (addr_of 2) 11)))"
  by (rule transfer_internal_agrees) simp

section \<open>The two VMs\<close>

definition reason_evm :: "EvmError + unit \<Rightarrow> RejectReason option" where
  "reason_evm r = (case r of Inl (Revert e) \<Rightarrow> Some e | Inr _ \<Rightarrow> None)"

definition reason_move :: "MoveError + unit \<Rightarrow> RejectReason option" where
  "reason_move r = (case r of Inl (MoveAbort e) \<Rightarrow> Some e | Inr _ \<Rightarrow> None)"

text \<open>
  The two VMs are one ledger: an EVM and a Move transaction with the same canonical transfer fail
  for the same reason or succeed together, leave the same state, and afterwards the EVM balance and
  the Move coin value of every address are the same number.
\<close>

theorem vm_parity:
  assumes "EvmTx_to_canonical etx = MoveTx_to_canonical mtx"
  shows "snd (MockEvm_execute st etx) = snd (MockMove_execute st mtx) \<and>
         reason_evm (fst (MockEvm_execute st etx)) = reason_move (fst (MockMove_execute st mtx)) \<and>
         EvmBalance_to_u128 (EvmView_balance_of (snd (MockEvm_execute st etx)) a) =
           MoveCoinValue_to_u128 (MoveView_coin_value (snd (MockMove_execute st mtx)) a)"
  using assms
  by (auto simp: MockEvm_execute_def MockMove_execute_def Let_def case_prod_unfold reason_evm_def
      reason_move_def EvmView_balance_of_def MoveView_coin_value_def BalanceSlot_evm_balance_def
      BalanceSlot_move_coin_value_def split: sum.splits)

theorem vm_parity_witness:
  "let etx = \<lparr>etx_from = addr_of 1, etx_to = addr_of 2, etx_value = 4\<rparr>;
       mtx = \<lparr>mtx_signer = addr_of 1, mtx_recipient = addr_of 2, mtx_amount = 4\<rparr>
   in snd (MockEvm_execute one_funded etx) = snd (MockMove_execute one_funded mtx) \<and>
      EvmBalance_to_u128 (EvmView_balance_of (snd (MockEvm_execute one_funded etx)) (addr_of 2)) =
      MoveCoinValue_to_u128 (MoveView_coin_value (snd (MockMove_execute one_funded mtx)) (addr_of 2))"
  using vm_parity [of "\<lparr>etx_from = addr_of 1, etx_to = addr_of 2, etx_value = 4\<rparr>"
      "\<lparr>mtx_signer = addr_of 1, mtx_recipient = addr_of 2, mtx_amount = 4\<rparr>" one_funded "addr_of 2"]
  by (auto simp: Let_def EvmTx_to_canonical_def MoveTx_to_canonical_def)

section \<open>The mempool\<close>

definition drain_outcome :: "RejectReason + unit \<Rightarrow> DrainOutcome" where
  "drain_outcome r = (case r of Inr _ \<Rightarrow> Applied | Inl e \<Rightarrow> DrainRejected e)"

text \<open>
  Draining the mempool terminates with an empty queue and submits the queued intents in the order
  they were enqueued, a rejection not stopping the ones behind it: outcomes and state are those of
  submitting the queue one by one.
\<close>

theorem mempool_drains_in_order:
  "Mempool_drain_all m st =
     (map drain_outcome (fst (submit_all st (queue m))), m\<lparr>queue := []\<rparr>, snd (submit_all st (queue m)))"
proof (induction m st rule: Mempool_drain_all.induct)
  case (1 m st)
  show ?case
  proof (cases "queue m")
    case Nil
    then show ?thesis by (subst Mempool_drain_all.simps) (simp add: Mempool_drain_one_def)
  next
    case (Cons i rest)
    obtain r st1 where sub: "Bridge_submit st i = (r, st1)" by (cases "Bridge_submit st i")
    have one: "Mempool_drain_one m st = (Some (drain_outcome r), m\<lparr>queue := rest\<rparr>, st1)"
      by (simp add: Mempool_drain_one_def Cons sub drain_outcome_def)
    from "1.IH" [OF one [symmetric] refl refl] show ?thesis
      by (subst Mempool_drain_all.simps) (simp add: one Cons sub Let_def case_prod_unfold)
  qed
qed

section \<open>The bytes column\<close>

text \<open>
  The bytes column is a store of its own: after \<open>write_bytes\<close> the blob reads back, an empty blob
  clears the entry, every other address keeps its blob, and no balance changes.
\<close>

theorem write_bytes_round_trip:
  "Bridge_bytes_of (Bridge_write_bytes st a bs) b =
     (if b = a then if bs = [] then None else Some bs else Bridge_bytes_of st b) \<and>
   Bridge_balance_of (Bridge_write_bytes st a bs) b = Bridge_balance_of st b"
proof -
  have "bal (State_apply st (SetBytes a bs)) b = bal st b" by simp
  then have "State_balance_of (State_apply st (SetBytes a bs)) b = State_balance_of st b"
    by (metis Balance.expand)
  then show ?thesis
    by (simp add: Bridge_bytes_of_def Bridge_write_bytes_def Bridge_balance_of_def)
qed

end
