(* ===== verification/State_Tree.thy ===== *)
theory State_Tree
  imports Store Move_VM
begin

text \<open>
  The state-tree commitment of \<open>suwappudb-state/src/tree\<close> under the default (BLAKE3) scheme: the
  256-ary trie over address bytes (\<open>types.rs\<close>), the node commitments (\<open>commit.rs\<close>) and
  build/lookup/root/proof/verify (\<open>ops.rs\<close>). The \<open>blake3\<close> crate is the parameter \<open>H\<close>, a function from
  the hashed bytes to the digest. The recursion on \<open>depth\<close> into the fixed address array is recursion
  on the remaining address bytes.
\<close>

section \<open>Nodes and commitments\<close>

datatype Commitment = Commitment (com_bytes: bytes)

datatype Node =
    Empty
  | Leaf BalanceSlot
  | Internal "(u8 \<times> Node) list"

definition TAG_EMPTY :: bytes where
  "TAG_EMPTY = ascii ''SUWAPPUDB-TREE/EMPTY''"

definition TAG_LEAF :: bytes where
  "TAG_LEAF = ascii ''SUWAPPUDB-TREE/LEAF_''"

definition TAG_INTERNAL :: bytes where
  "TAG_INTERNAL = ascii ''SUWAPPUDB-TREE/INT__''"

definition EMPTY_COMMITMENT :: Commitment where
  "EMPTY_COMMITMENT = Commitment (replicate 32 0)"

definition empty_commitment :: "(bytes \<Rightarrow> bytes) \<Rightarrow> Commitment" where
  "empty_commitment H = Commitment (H TAG_EMPTY)"

text \<open>What is fed to the hasher for an internal node: one chunk per child, in key order.\<close>

definition internal_preimage :: "(u8 \<times> Commitment) list \<Rightarrow> bytes" where
  "internal_preimage cs = TAG_INTERNAL @ concat (map (\<lambda>(b, c). b # com_bytes c) cs)"

definition leaf_preimage :: "BalanceSlot \<Rightarrow> bytes" where
  "leaf_preimage s = TAG_LEAF @ to_be_bytes (canonical s)"

lemma child_size [termination_simp]:
  "e \<in> set cs \<Longrightarrow> size (snd e) < Suc (size_list (size_prod (\<lambda>_. 0) size) cs)"
  by (rule le_imp_less_Suc, erule size_list_estimation') (cases e, simp)

fun commit_node :: "(bytes \<Rightarrow> bytes) \<Rightarrow> Node \<Rightarrow> Commitment" where
  "commit_node H Empty = empty_commitment H"
| "commit_node H (Leaf slot) = Commitment (H (leaf_preimage slot))"
| "commit_node H (Internal children) =
     Commitment (H (internal_preimage (map (\<lambda>e. (fst e, commit_node H (snd e))) children)))"

section \<open>The trie\<close>

definition children_of_node :: "Node \<Rightarrow> (u8 \<times> Node) list" where
  "children_of_node node = (case node of Internal cs \<Rightarrow> cs | _ \<Rightarrow> [])"

fun update_path :: "Node \<Rightarrow> bytes \<Rightarrow> BalanceSlot \<Rightarrow> Node" where
  "update_path node [] slot = Leaf slot"
| "update_path node (b # bs) slot =
     (let children = children_of_node node;
          entry = (case map_get children b of Some c \<Rightarrow> c | None \<Rightarrow> Empty)
      in Internal (bt_insert b (update_path entry bs slot) children))"

fun get_path :: "Node \<Rightarrow> bytes \<Rightarrow> BalanceSlot option" where
  "get_path node [] = (case node of Leaf slot \<Rightarrow> Some slot | _ \<Rightarrow> None)"
| "get_path node (b # bs) =
     (case node of
        Internal cs \<Rightarrow> (case map_get cs b of Some c \<Rightarrow> get_path c bs | None \<Rightarrow> None)
      | _ \<Rightarrow> None)"

record ProofStep =
  step_byte :: u8
  step_siblings :: "(u8, Commitment) btree_map"

record Proof =
  path :: "ProofStep list"
  proof_slot :: "BalanceSlot option"

fun collect_proof :: "(bytes \<Rightarrow> bytes) \<Rightarrow> Node \<Rightarrow> bytes \<Rightarrow> ProofStep list \<times> BalanceSlot option" where
  "collect_proof H node [] = ([], case node of Leaf slot \<Rightarrow> Some slot | _ \<Rightarrow> None)"
| "collect_proof H node (b # bs) =
     (case node of
        Internal cs \<Rightarrow>
          let siblings = map (\<lambda>e. (fst e, commit_node H (snd e))) (filter (\<lambda>e. fst e \<noteq> b) cs);
              here = \<lparr>step_byte = b, step_siblings = siblings\<rparr>
          in (case map_get cs b of
                Some c \<Rightarrow> (let (rest, slot) = collect_proof H c bs in (here # rest, slot))
              | None \<Rightarrow> ([here], None))
      | _ \<Rightarrow> ([], None))"

record StateTree =
  root_node :: Node

definition StateTree_new :: StateTree where
  "StateTree_new = \<lparr>root_node = Empty\<rparr>"

definition StateTree_update :: "StateTree \<Rightarrow> Address \<Rightarrow> BalanceSlot \<Rightarrow> StateTree" where
  "StateTree_update t addr slot = t\<lparr>root_node := update_path (root_node t) (addr_bytes addr) slot\<rparr>"

definition StateTree_get :: "StateTree \<Rightarrow> Address \<Rightarrow> BalanceSlot option" where
  "StateTree_get t addr = get_path (root_node t) (addr_bytes addr)"

definition StateTree_from_entries :: "(Address \<times> BalanceSlot) list \<Rightarrow> StateTree" where
  "StateTree_from_entries es = fold (\<lambda>(addr, slot) t. StateTree_update t addr slot) es StateTree_new"

definition StateTree_from_state :: "State \<Rightarrow> StateTree" where
  "StateTree_from_state st = StateTree_from_entries (State_entries st)"

definition StateTree_root :: "(bytes \<Rightarrow> bytes) \<Rightarrow> StateTree \<Rightarrow> Commitment" where
  "StateTree_root H t = commit_node H (root_node t)"

definition StateTree_proof :: "(bytes \<Rightarrow> bytes) \<Rightarrow> StateTree \<Rightarrow> Address \<Rightarrow> Proof" where
  "StateTree_proof H t addr =
     (let (p, slot) = collect_proof H (root_node t) (addr_bytes addr)
      in \<lparr>path = p, proof_slot = slot\<rparr>)"

text \<open>One round of the bottom-up loop, and the loop over the reversed path.\<close>

definition combine_step :: "(bytes \<Rightarrow> bytes) \<Rightarrow> ProofStep \<Rightarrow> Commitment option \<Rightarrow> Commitment option" where
  "combine_step H step current =
     (let combined = (case current of
                        Some c \<Rightarrow> bt_insert (step_byte step) c (step_siblings step)
                      | None \<Rightarrow> step_siblings step)
      in Some (Commitment (H (internal_preimage combined))))"

definition StateTree_verify ::
  "(bytes \<Rightarrow> bytes) \<Rightarrow> Commitment \<Rightarrow> Address \<Rightarrow> BalanceSlot option \<Rightarrow> Proof \<Rightarrow> bool" where
  "StateTree_verify H root addr slot_opt prf =
     (if proof_slot prf \<noteq> slot_opt then False
      else if length (path prf) > length (addr_bytes addr) then False
      else if \<not> (\<forall>i < length (path prf). step_byte (path prf ! i) = addr_bytes addr ! i) then False
      else if proof_slot prf \<noteq> None \<and> length (path prf) \<noteq> length (addr_bytes addr) then False
      else if path prf = [] then proof_slot prf = None \<and> root = empty_commitment H
      else foldr (combine_step H) (path prf) (map_option (\<lambda>s. commit_node H (Leaf s)) (proof_slot prf))
             = Some root)"

section \<open>Lookup after update\<close>

lemma get_path_Empty [simp]: "get_path Empty bs = None"
  by (cases bs) auto

lemma get_path_Cons:
  "get_path node (b # bs) =
     (case map_get (children_of_node node) b of Some c \<Rightarrow> get_path c bs | None \<Rightarrow> None)"
  by (auto simp: children_of_node_def split: Node.splits)

declare get_path.simps(2) [simp del]

lemma children_of_Internal [simp]: "children_of_node (Internal cs) = cs"
  by (simp add: children_of_node_def)

lemma get_path_update:
  "length bs = length cs \<Longrightarrow>
   get_path (update_path node bs slot) cs = (if cs = bs then Some slot else get_path node cs)"
proof (induction bs arbitrary: node cs)
  case Nil
  then show ?case by simp
next
  case (Cons b bs)
  then obtain c cs' where cs: "cs = c # cs'" "length bs = length cs'" by (cases cs) auto
  show ?case
  proof (cases "c = b")
    case True
    then show ?thesis
      using Cons.IH [OF cs(2)] cs by (simp add: get_path_Cons Let_def split: option.splits)
  next
    case False
    then show ?thesis
      using cs by (simp add: get_path_Cons Let_def)
  qed
qed

text \<open>
  The shape every built trie has: at \<open>d\<close> bytes above the leaves, internal nodes with at least one
  child, children sorted, and leaves exactly at depth zero.
\<close>

fun wf_node :: "nat \<Rightarrow> Node \<Rightarrow> bool" where
  "wf_node 0 n = (case n of Leaf _ \<Rightarrow> True | _ \<Rightarrow> False)"
| "wf_node (Suc d) n =
     (case n of Internal cs \<Rightarrow> cs \<noteq> [] \<and> bt_invar cs \<and> (\<forall>e \<in> set cs. wf_node d (snd e)) | _ \<Rightarrow> False)"

definition wf_tree :: "nat \<Rightarrow> Node \<Rightarrow> bool" where
  "wf_tree d n \<longleftrightarrow> n = Empty \<or> wf_node d n"

lemma set_bt_insert_subset: "set (bt_insert k v m) \<subseteq> insert (k, v) (set m)"
  by (induction k v m rule: bt_insert.induct) auto

lemma bt_insert_not_Nil [simp]: "bt_insert k v m \<noteq> []"
  by (induction k v m rule: bt_insert.induct) auto

lemma wf_children:
  assumes "wf_tree (Suc d) n"
  shows "bt_invar (children_of_node n)" "e \<in> set (children_of_node n) \<Longrightarrow> wf_node d (snd e)"
  using assms by (auto simp: wf_tree_def children_of_node_def split: Node.splits)

lemma wf_update: "wf_tree (length bs) n \<Longrightarrow> wf_node (length bs) (update_path n bs slot)"
proof (induction bs arbitrary: n)
  case Nil
  then show ?case by simp
next
  case (Cons b bs)
  let ?cs = "children_of_node n"
  let ?entry = "case map_get ?cs b of Some c \<Rightarrow> c | None \<Rightarrow> Empty"
  have wf: "wf_tree (Suc (length bs)) n" using Cons.prems by simp
  have "wf_tree (length bs) ?entry"
    using wf_children(2) [OF wf]
    by (auto simp: wf_tree_def map_get_def split: option.splits dest!: map_of_SomeD)
  then have new: "wf_node (length bs) (update_path ?entry bs slot)" by (rule Cons.IH)
  have "\<forall>e \<in> set (bt_insert b (update_path ?entry bs slot) ?cs). wf_node (length bs) (snd e)"
    using set_bt_insert_subset [of b "update_path ?entry bs slot" ?cs] wf_children(2) [OF wf] new by auto
  then show ?case
    using wf_children(1) [OF wf] by (simp add: Let_def)
qed

lemma wf_node_inhabited: "wf_node d n \<Longrightarrow> \<exists>bs. length bs = d \<and> get_path n bs \<noteq> None"
proof (induction d arbitrary: n)
  case 0
  then show ?case by (auto split: Node.splits)
next
  case (Suc d)
  then obtain e es where n: "n = Internal (e # es)" and e: "wf_node d (snd e)"
    by (auto split: Node.splits simp: neq_Nil_conv)
  from Suc.IH [OF e] obtain bs where "length bs = d" "get_path (snd e) bs \<noteq> None" by blast
  then have "length (fst e # bs) = Suc d" "get_path n (fst e # bs) \<noteq> None"
    by (simp_all add: n get_path_Cons map_get_def)
  then show ?case by blast
qed

lemma child_wf: "wf_node (Suc d) (Internal cs) \<Longrightarrow> map_get cs b = Some c \<Longrightarrow> wf_node d c"
  by (auto simp: map_get_def dest!: map_of_SomeD)

lemma child_present:
  assumes "wf_node (Suc d) (Internal cs)" "map_get cs b = Some c"
    and "\<And>bs. length bs = d \<Longrightarrow> get_path (Internal cs) (b # bs) = get_path (Internal cs') (b # bs)"
  shows "\<exists>c'. map_get cs' b = Some c'"
proof -
  from wf_node_inhabited [OF child_wf [OF assms(1,2)]] obtain bs
    where "length bs = d" "get_path c bs \<noteq> None" by blast
  with assms(2) assms(3) [of bs] show ?thesis by (auto simp: get_path_Cons split: option.splits)
qed

text \<open>Canonicity: a well-formed trie is determined by its lookups.\<close>

lemma wf_node_canonical:
  assumes "wf_node d n" "wf_node d m" "\<And>bs. length bs = d \<Longrightarrow> get_path n bs = get_path m bs"
  shows "n = m"
  using assms
proof (induction d arbitrary: n m)
  case 0
  from "0.prems"(3) [of "[]"] "0.prems"(1,2) show ?case by (auto split: Node.splits)
next
  case (Suc d)
  then obtain cs cs' where n: "n = Internal cs" and m: "m = Internal cs'"
    by (auto split: Node.splits)
  have look: "get_path (Internal cs) (b # bs) = get_path (Internal cs') (b # bs)" if "length bs = d" for b bs
    using Suc.prems(3) [of "b # bs"] n m that by simp
  have "map_get cs b = map_get cs' b" for b
  proof (cases "map_get cs b")
    case None
    then show ?thesis
      using child_present [of d cs' b _ cs] Suc.prems(2) m look [symmetric]
      by (cases "map_get cs' b") auto
  next
    case (Some c)
    with child_present [of d cs b c cs'] Suc.prems(1) n look
    obtain c' where c': "map_get cs' b = Some c'" by auto
    have "c = c'"
    proof (rule Suc.IH)
      show "wf_node d c" "wf_node d c'" using Suc.prems(1,2) n m Some c' child_wf by blast+
      show "get_path c bs = get_path c' bs" if "length bs = d" for bs
        using look [OF that, of b] Some c' by (simp add: get_path_Cons)
    qed
    with Some c' show ?thesis by simp
  qed
  then have "map_get cs = map_get cs'" by blast
  with Suc.prems n m show ?case by (auto intro: bt_map_eqI)
qed

lemma wf_tree_canonical:
  assumes "wf_tree d n" "wf_tree d m" "\<And>bs. length bs = d \<Longrightarrow> get_path n bs = get_path m bs"
  shows "n = m"
proof -
  have inhabited: False if "wf_node d k" "\<And>bs. length bs = d \<Longrightarrow> get_path k bs = None" for k
    using wf_node_inhabited [OF that(1)] that(2) by fastforce
  show ?thesis
  proof (cases "n = Empty")
    case True
    then show ?thesis using inhabited [of m] assms by (auto simp: wf_tree_def)
  next
    case False
    then have n: "wf_node d n" using assms(1) by (simp add: wf_tree_def)
    then have "m \<noteq> Empty" using inhabited [of n] assms(3) by auto
    then have "wf_node d m" using assms(2) by (simp add: wf_tree_def)
    with n show ?thesis using assms(3) by (rule wf_node_canonical)
  qed
qed

section \<open>Trees built from entries\<close>

lemma tree_get_update:
  "wf_addr a \<Longrightarrow> wf_addr b \<Longrightarrow>
   StateTree_get (StateTree_update t a s) b = (if b = a then Some s else StateTree_get t b)"
  by (cases a; cases b) (auto simp: StateTree_get_def StateTree_update_def wf_addr_def get_path_update)

definition wf_state_tree :: "StateTree \<Rightarrow> bool" where
  "wf_state_tree t \<longleftrightarrow> wf_tree 20 (root_node t)"

lemma wf_tree_update: "wf_addr a \<Longrightarrow> wf_state_tree t \<Longrightarrow> wf_state_tree (StateTree_update t a s)"
  using wf_update [of "addr_bytes a" "root_node t" s]
  by (simp add: wf_state_tree_def StateTree_update_def wf_addr_def wf_tree_def)

lemma from_entries_fold:
  assumes "\<forall>e \<in> set es. wf_addr (fst e)" "wf_state_tree t"
  shows "wf_state_tree (fold (\<lambda>(a, s) t. StateTree_update t a s) es t) \<and>
    (wf_addr b \<longrightarrow> StateTree_get (fold (\<lambda>(a, s) t. StateTree_update t a s) es t) b =
       (case map_of (rev es) b of Some s \<Rightarrow> Some s | None \<Rightarrow> StateTree_get t b))"
  using assms
proof (induction es arbitrary: t)
  case Nil
  then show ?case by simp
next
  case (Cons e es)
  obtain a s where e: "e = (a, s)" by (cases e)
  with Cons.prems have "wf_addr a" "wf_state_tree (StateTree_update t a s)"
    by (simp_all add: wf_tree_update)
  with Cons.IH [of "StateTree_update t a s"] Cons.prems(1) e show ?case
    by (auto simp: tree_get_update map_add_def split: option.splits)
qed

lemma wf_from_entries: "\<forall>e \<in> set es. wf_addr (fst e) \<Longrightarrow> wf_state_tree (StateTree_from_entries es)"
  using from_entries_fold [of es StateTree_new]
  by (simp add: StateTree_from_entries_def wf_state_tree_def wf_tree_def StateTree_new_def)

lemma get_from_entries:
  "\<forall>e \<in> set es. wf_addr (fst e) \<Longrightarrow> wf_addr b \<Longrightarrow>
   StateTree_get (StateTree_from_entries es) b = map_of (rev es) b"
  using from_entries_fold [of es StateTree_new b]
  by (simp add: StateTree_from_entries_def wf_state_tree_def wf_tree_def StateTree_new_def
      StateTree_get_def split: option.splits)

lemma state_tree_eqI:
  assumes "wf_state_tree t" "wf_state_tree u"
    "\<And>a. wf_addr a \<Longrightarrow> StateTree_get t a = StateTree_get u a"
  shows "t = u"
proof -
  have "root_node t = root_node u"
  proof (rule wf_tree_canonical)
    show "wf_tree 20 (root_node t)" "wf_tree 20 (root_node u)"
      using assms by (simp_all add: wf_state_tree_def)
    show "get_path (root_node t) bs = get_path (root_node u) bs" if "length bs = 20" for bs
      using assms(3) [of "Address bs"] that by (simp add: wf_addr_def StateTree_get_def)
  qed
  then show ?thesis by simp
qed

lemma map_of_rev_distinct: "distinct (map fst es) \<Longrightarrow> map_of (rev es) = map_of es"
  by (rule map_of_inject_set [THEN iffD2]) (simp_all add: rev_map [symmetric])

text \<open>The tree of a state depends on the set of its entries only, not on the iteration order.\<close>

lemma from_state_cong:
  assumes "State_invar st" "State_invar st'" "set (State_entries st) = set (State_entries st')"
    and "\<forall>e \<in> set (State_entries st). wf_addr (fst e)"
  shows "StateTree_from_state st = StateTree_from_state st'"
proof (rule state_tree_eqI)
  have dist: "distinct (map fst (State_entries s))" if "State_invar s" for s
    using that ims.entries_distinct by (simp add: State_invar_def State_entries_def)
  show "StateTree_get (StateTree_from_state st) a = StateTree_get (StateTree_from_state st') a"
    if "wf_addr a" for a
    using assms(3,4) that map_of_inject_set [OF dist [OF assms(1)] dist [OF assms(2)]]
    by (simp add: StateTree_from_state_def get_from_entries map_of_rev_distinct dist assms(1,2))
qed (use assms(3,4) in \<open>simp_all add: StateTree_from_state_def wf_from_entries\<close>)

section \<open>Completeness of proofs\<close>

lemma map_get_map: "map_get (map (\<lambda>e. (fst e, f (snd e))) m) k = map_option f (map_get m k)"
  by (induction m) (auto simp: map_get_def)

text \<open>Putting the proven child back among its siblings gives the node's children again.\<close>

lemma bt_insert_remove:
  assumes "bt_invar m" "map_get m k = Some v"
  shows "bt_insert k v (filter (\<lambda>e. fst e \<noteq> k) m) = m"
proof (rule bt_map_eqI)
  have "filter (\<lambda>e. fst e \<noteq> k) m = map_remove k m" by (simp add: map_remove_def)
  then show "bt_invar (bt_insert k v (filter (\<lambda>e. fst e \<noteq> k) m))"
    and "map_get (bt_insert k v (filter (\<lambda>e. fst e \<noteq> k) m)) = map_get m"
    using assms by (auto simp: fun_eq_iff)
qed (rule assms(1))

lemma map_bt_insert:
  "bt_insert k (f v) (map (\<lambda>e. (fst e, f (snd e))) m) = map (\<lambda>e. (fst e, f (snd e))) (bt_insert k v m)"
  by (induction m) auto

definition reconstruct :: "(bytes \<Rightarrow> bytes) \<Rightarrow> ProofStep list \<Rightarrow> BalanceSlot option \<Rightarrow> Commitment option" where
  "reconstruct H ss slot = foldr (combine_step H) ss (map_option (\<lambda>s. commit_node H (Leaf s)) slot)"

lemma reconstruct_Cons: "reconstruct H (s # ss) slot = combine_step H s (reconstruct H ss slot)"
  by (simp add: reconstruct_def)

lemma collect_proof_props:
  assumes "wf_node (length bs) n" "collect_proof H n bs = (ss, slot)"
  shows "slot = get_path n bs \<and> map step_byte ss = take (length ss) bs \<and> length ss \<le> length bs \<and>
         (slot \<noteq> None \<longrightarrow> length ss = length bs) \<and> (bs \<noteq> [] \<longrightarrow> ss \<noteq> []) \<and>
         reconstruct H ss slot = Some (commit_node H n)"
  using assms
proof (induction bs arbitrary: n ss slot)
  case Nil
  then show ?case by (auto simp: reconstruct_def split: Node.splits)
next
  case (Cons b bs)
  then obtain cs where n: "n = Internal cs" and inv: "bt_invar cs" by (auto split: Node.splits)
  show ?case
  proof (cases "map_get cs b")
    case None
    then have "filter (\<lambda>e. fst e \<noteq> b) cs = cs"
      by (auto simp: map_get_def map_of_eq_None_iff filter_id_conv)
    with None Cons.prems(2) n show ?thesis
      by (auto simp: get_path_Cons reconstruct_def combine_step_def Let_def)
  next
    case (Some c)
    have c: "wf_node (length bs) c" using Cons.prems(1) Some n child_wf [of "length bs" cs b c] by simp
    obtain rest s where rec: "collect_proof H c bs = (rest, s)" by (cases "collect_proof H c bs")
    from Cons.prems(2) n Some rec have slot: "slot = s" and ss: "ss = \<lparr>step_byte = b,
      step_siblings = map (\<lambda>e. (fst e, commit_node H (snd e))) (filter (\<lambda>e. fst e \<noteq> b) cs)\<rparr> # rest"
      by (auto simp: Let_def)
    from Cons.IH [OF c rec] have IH: "s = get_path c bs" "map step_byte rest = take (length rest) bs"
      "length rest \<le> length bs" "s \<noteq> None \<longrightarrow> length rest = length bs"
      "reconstruct H rest s = Some (commit_node H c)" by blast+
    from IH(5) have "reconstruct H ss slot = Some (commit_node H n)"
      unfolding ss slot reconstruct_Cons n
      by (simp add: combine_step_def map_bt_insert bt_insert_remove [OF inv Some])
    with IH(1-4) show ?thesis by (simp add: ss slot n get_path_Cons Some)
  qed
qed

text \<open>The generated proof verifies against the tree's own root, inclusion and absence alike.\<close>

lemma verify_own_proof:
  assumes "wf_state_tree t" "wf_addr a"
  shows "StateTree_verify H (StateTree_root H t) a (StateTree_get t a) (StateTree_proof H t a)"
proof (cases "root_node t = Empty")
  case True
  with assms(2) show ?thesis
    by (cases "addr_bytes a") (auto simp: StateTree_verify_def StateTree_root_def StateTree_get_def
        StateTree_proof_def wf_addr_def)
next
  case False
  let ?bs = "addr_bytes a"
  obtain ss slot where col: "collect_proof H (root_node t) ?bs = (ss, slot)"
    by (cases "collect_proof H (root_node t) ?bs")
  from False assms have "wf_node (length ?bs) (root_node t)"
    by (auto simp: wf_state_tree_def wf_tree_def wf_addr_def)
  note props = collect_proof_props [OF this col]
  have bytes: "step_byte (ss ! i) = ?bs ! i" if "i < length ss" for i
    using props that nth_map [OF that, of step_byte] by simp
  have "?bs \<noteq> []" using assms(2) by (auto simp: wf_addr_def)
  with props bytes col show ?thesis
    by (auto simp: StateTree_verify_def StateTree_proof_def StateTree_get_def StateTree_root_def
        reconstruct_def)
qed

section \<open>Binding and soundness\<close>

text \<open>
  What the development relies on of the digest: 32-byte outputs (\<open>digest32\<close>), and no collision among
  the inputs actually hashed, which are computed here: those of a tree and those of a verification.
\<close>

definition digest32 :: "(bytes \<Rightarrow> bytes) \<Rightarrow> bool" where
  "digest32 H \<longleftrightarrow> (\<forall>x. length (H x) = 32)"

fun node_preimage :: "(bytes \<Rightarrow> bytes) \<Rightarrow> Node \<Rightarrow> bytes" where
  "node_preimage H Empty = TAG_EMPTY"
| "node_preimage H (Leaf s) = leaf_preimage s"
| "node_preimage H (Internal cs) = internal_preimage (map (\<lambda>e. (fst e, commit_node H (snd e))) cs)"

fun node_preimages :: "(bytes \<Rightarrow> bytes) \<Rightarrow> Node \<Rightarrow> bytes list" where
  "node_preimages H Empty = [TAG_EMPTY]"
| "node_preimages H (Leaf s) = [leaf_preimage s]"
| "node_preimages H (Internal cs) =
     node_preimage H (Internal cs) # concat (map (\<lambda>e. node_preimages H (snd e)) cs)"

definition step_preimage :: "(bytes \<Rightarrow> bytes) \<Rightarrow> ProofStep \<Rightarrow> Commitment option \<Rightarrow> bytes" where
  "step_preimage H s current =
     internal_preimage (case current of Some c \<Rightarrow> bt_insert (step_byte s) c (step_siblings s)
                        | None \<Rightarrow> step_siblings s)"

fun verify_preimages :: "(bytes \<Rightarrow> bytes) \<Rightarrow> ProofStep list \<Rightarrow> BalanceSlot option \<Rightarrow> bytes list" where
  "verify_preimages H [] slot = (case slot of Some s \<Rightarrow> [leaf_preimage s] | None \<Rightarrow> [])"
| "verify_preimages H (s # ss) slot = step_preimage H s (reconstruct H ss slot) # verify_preimages H ss slot"

lemma commit_preimage: "commit_node H n = Commitment (H (node_preimage H n))"
  by (cases n) (simp_all add: empty_commitment_def)

lemma node_preimage_mem: "node_preimage H n \<in> set (node_preimages H n)"
  by (cases n) simp_all

lemma child_preimages: "e \<in> set cs \<Longrightarrow> set (node_preimages H (snd e)) \<subseteq> set (node_preimages H (Internal cs))"
  by auto

lemma combine_preimage: "combine_step H s c = Some (Commitment (H (step_preimage H s c)))"
  by (simp add: combine_step_def step_preimage_def Let_def split: option.splits)

lemma tag_lengths [simp]: "length TAG_EMPTY = 20" "length TAG_LEAF = 20" "length TAG_INTERNAL = 20"
  by (simp_all add: TAG_EMPTY_def TAG_LEAF_def TAG_INTERNAL_def ascii_def)

lemma tags_distinct:
  "TAG_EMPTY \<noteq> TAG_LEAF" "TAG_EMPTY \<noteq> TAG_INTERNAL" "TAG_LEAF \<noteq> TAG_INTERNAL"
  by (simp_all add: TAG_EMPTY_def TAG_LEAF_def TAG_INTERNAL_def ascii_def)

text \<open>Domain separation: the three input shapes never coincide, and each determines its content.\<close>

lemma preimage_shapes:
  "leaf_preimage s \<noteq> internal_preimage cs" "TAG_EMPTY \<noteq> internal_preimage cs" "TAG_EMPTY \<noteq> leaf_preimage s"
proof -
  have tag: "take 20 (leaf_preimage s) = TAG_LEAF" "take 20 (internal_preimage cs) = TAG_INTERNAL"
    "take 20 TAG_EMPTY = TAG_EMPTY"
    by (simp_all add: leaf_preimage_def internal_preimage_def)
  show "leaf_preimage s \<noteq> internal_preimage cs" "TAG_EMPTY \<noteq> internal_preimage cs"
    "TAG_EMPTY \<noteq> leaf_preimage s"
    using tag tags_distinct by metis+
qed

lemma leaf_preimage_inj: "leaf_preimage s = leaf_preimage t \<longleftrightarrow> canonical s = canonical t"
  by (simp add: leaf_preimage_def to_be_bytes_inj)

lemma chunks_inj:
  assumes "\<forall>e \<in> set cs. length (com_bytes (snd e)) = 32" "\<forall>e \<in> set ds. length (com_bytes (snd e)) = 32"
    and "concat (map (\<lambda>(b, c). b # com_bytes c) cs) = concat (map (\<lambda>(b, c). b # com_bytes c) ds)"
  shows "cs = ds"
  using assms
proof (induction cs arbitrary: ds)
  case Nil
  then show ?case by (cases ds) auto
next
  case (Cons e cs)
  then obtain f fs where ds: "ds = f # fs" by (cases ds) (auto split: prod.splits)
  obtain b c b' c' where ef: "e = (b, c)" "f = (b', c')" by (cases e; cases f)
  with Cons.prems ds have "b = b'" "com_bytes c = com_bytes c'"
    "concat (map (\<lambda>(b, c). b # com_bytes c) cs) = concat (map (\<lambda>(b, c). b # com_bytes c) fs)"
    by auto
  with Cons ds ef show ?case by (auto intro: Commitment.expand)
qed

definition wf_siblings :: "(u8 \<times> Commitment) list \<Rightarrow> bool" where
  "wf_siblings cs \<longleftrightarrow> bt_invar cs \<and> (\<forall>e \<in> set cs. length (com_bytes (snd e)) = 32)"

lemma internal_preimage_inj:
  "\<forall>e \<in> set cs. length (com_bytes (snd e)) = 32 \<Longrightarrow> \<forall>e \<in> set ds. length (com_bytes (snd e)) = 32 \<Longrightarrow>
   internal_preimage cs = internal_preimage ds \<Longrightarrow> cs = ds"
  using chunks_inj by (simp add: internal_preimage_def)

lemma commit_length: "digest32 H \<Longrightarrow> length (com_bytes (commit_node H n)) = 32"
  by (simp add: commit_preimage digest32_def)

lemma committed_children_length:
  "digest32 H \<Longrightarrow> \<forall>e \<in> set (map (\<lambda>e. (fst e, commit_node H (snd e))) cs). length (com_bytes (snd e)) = 32"
  by (auto simp: commit_length)

lemma reconstruct_length:
  "digest32 H \<Longrightarrow> reconstruct H ss slot = Some c \<Longrightarrow> length (com_bytes c) = 32"
  by (cases ss) (auto simp: reconstruct_Cons combine_preimage digest32_def reconstruct_def)

lemma step_siblings_length:
  assumes "digest32 H" "wf_siblings (step_siblings s)"
  shows "\<forall>e \<in> set (case reconstruct H ss slot of Some c \<Rightarrow> bt_insert (step_byte s) c (step_siblings s)
                  | None \<Rightarrow> step_siblings s). length (com_bytes (snd e)) = 32"
proof (cases "reconstruct H ss slot")
  case None
  with assms show ?thesis by (auto simp: wf_siblings_def)
next
  case (Some c)
  with assms show ?thesis
    using set_bt_insert_subset [of "step_byte s" c "step_siblings s"] reconstruct_length [OF assms(1) Some]
    by (auto simp: wf_siblings_def)
qed

text \<open>One level: a step whose digest is a node's commitment describes exactly that node's children.\<close>

lemma step_matches_node:
  assumes "digest32 H" "wf_siblings (step_siblings s)"
    and "inj_on H (set (node_preimages H n) \<union> set (verify_preimages H (s # ss) slot))"
    and "reconstruct H (s # ss) slot = Some (commit_node H n)"
  shows "\<exists>cs. n = Internal cs \<and> map (\<lambda>e. (fst e, commit_node H (snd e))) cs =
    (case reconstruct H ss slot of Some c \<Rightarrow> bt_insert (step_byte s) c (step_siblings s)
     | None \<Rightarrow> step_siblings s)"
proof -
  from assms(4) have "H (step_preimage H s (reconstruct H ss slot)) = H (node_preimage H n)"
    by (simp add: reconstruct_Cons combine_preimage commit_preimage)
  with assms(3) have eq: "step_preimage H s (reconstruct H ss slot) = node_preimage H n"
    by (auto dest: inj_onD simp: node_preimage_mem)
  then obtain cs where n: "n = Internal cs"
    by (cases n) (auto simp: step_preimage_def preimage_shapes preimage_shapes [symmetric])
  from eq show ?thesis
    unfolding n step_preimage_def node_preimage.simps
    by (intro exI [of _ cs] conjI refl internal_preimage_inj
        committed_children_length step_siblings_length [OF assms(1,2)] assms(1)) simp
qed

lemma map_get_children:
  "map (\<lambda>e. (fst e, commit_node H (snd e))) cs = ds \<Longrightarrow>
   map_get ds b = map_option (commit_node H) (map_get cs b)"
  using map_get_map [of "commit_node H" cs b] by simp

lemma inclusion_path:
  assumes "digest32 H" "\<forall>s \<in> set ss. wf_siblings (step_siblings s)"
    and "inj_on H (set (node_preimages H n) \<union> set (verify_preimages H ss (Some slot)))"
    and "reconstruct H ss (Some slot) = Some (commit_node H n)"
  shows "\<exists>s'. get_path n (map step_byte ss) = Some s' \<and> canonical s' = canonical slot"
  using assms(2-4)
proof (induction ss arbitrary: n)
  case Nil
  then have "H (leaf_preimage slot) = H (node_preimage H n)"
    by (simp add: reconstruct_def commit_preimage)
  with Nil.prems(2) have "leaf_preimage slot = node_preimage H n"
    by (auto dest: inj_onD simp: node_preimage_mem)
  then show ?case
    by (cases n) (auto simp: leaf_preimage_inj preimage_shapes preimage_shapes [symmetric])
next
  case (Cons s ss)
  obtain c where c: "reconstruct H ss (Some slot) = Some c"
    by (cases ss) (auto simp: reconstruct_Cons combine_preimage reconstruct_def)
  from step_matches_node [OF assms(1) _ Cons.prems(2,3)] Cons.prems(1) obtain cs where
    n: "n = Internal cs" and
    eq: "map (\<lambda>e. (fst e, commit_node H (snd e))) cs = bt_insert (step_byte s) c (step_siblings s)"
    by (auto simp: c)
  from map_get_children [OF eq, of "step_byte s"] obtain ch where
    ch: "map_get cs (step_byte s) = Some ch" "c = commit_node H ch"
    by (cases "map_get cs (step_byte s)") auto
  then have "(step_byte s, ch) \<in> set cs" by (auto simp: map_get_def dest: map_of_SomeD)
  from child_preimages [OF this, of H] have
    "set (node_preimages H ch) \<union> set (verify_preimages H ss (Some slot)) \<subseteq>
     set (node_preimages H n) \<union> set (verify_preimages H (s # ss) (Some slot))"
    unfolding n by auto
  then have "inj_on H (set (node_preimages H ch) \<union> set (verify_preimages H ss (Some slot)))"
    using Cons.prems(2) by (rule inj_on_subset [rotated])
  from Cons.IH [OF _ this] Cons.prems(1) c ch(2)
  obtain s' where "get_path ch (map step_byte ss) = Some s'" "canonical s' = canonical slot" by auto
  then show ?case by (auto simp: n get_path_Cons ch(1))
qed

lemma absence_path:
  assumes "digest32 H" "\<forall>s \<in> set ss. wf_siblings (step_siblings s)" "ss \<noteq> []"
    and "step_byte (last ss) \<notin> fst ` set (step_siblings (last ss))"
    and "inj_on H (set (node_preimages H n) \<union> set (verify_preimages H ss None))"
    and "reconstruct H ss None = Some (commit_node H n)"
  shows "get_path n (map step_byte ss @ rest) = None"
  using assms(2-6)
proof (induction ss arbitrary: n)
  case Nil
  then show ?case by simp
next
  case (Cons s ss)
  from step_matches_node [OF assms(1) _ Cons.prems(4,5)] Cons.prems(1) obtain cs where
    n: "n = Internal cs" and
    eq: "map (\<lambda>e. (fst e, commit_node H (snd e))) cs =
      (case reconstruct H ss None of Some c \<Rightarrow> bt_insert (step_byte s) c (step_siblings s)
       | None \<Rightarrow> step_siblings s)" by auto
  show ?case
  proof (cases "ss = []")
    case True
    with eq have "map (\<lambda>e. (fst e, commit_node H (snd e))) cs = step_siblings s"
      by (simp add: reconstruct_def)
    from map_get_children [OF this, of "step_byte s"] Cons.prems(3) True
    have "map_get cs (step_byte s) = None"
      by (auto simp: map_get_def map_of_eq_None_iff [THEN iffD2])
    then show ?thesis by (simp add: n get_path_Cons)
  next
    case False
    then obtain c where c: "reconstruct H ss None = Some c"
      by (cases ss) (auto simp: reconstruct_Cons combine_preimage)
    from map_get_children [OF eq, of "step_byte s"] c obtain ch where
      ch: "map_get cs (step_byte s) = Some ch" "c = commit_node H ch"
      by (cases "map_get cs (step_byte s)") auto
    then have "(step_byte s, ch) \<in> set cs" by (auto simp: map_get_def dest: map_of_SomeD)
    from child_preimages [OF this, of H] have
      "set (node_preimages H ch) \<union> set (verify_preimages H ss None) \<subseteq>
       set (node_preimages H n) \<union> set (verify_preimages H (s # ss) None)"
      unfolding n by auto
    then have "inj_on H (set (node_preimages H ch) \<union> set (verify_preimages H ss None))"
      using Cons.prems(4) by (rule inj_on_subset [rotated])
    from Cons.IH [OF _ False _ this] Cons.prems(1,3) False c ch(2)
    have "get_path ch (map step_byte ss @ rest) = None" by auto
    then show ?thesis by (simp add: n get_path_Cons ch(1))
  qed
qed

end
