(* ===== verification/Tree_Security.thy ===== *)
theory Tree_Security
  imports State_Tree
begin

text \<open>
  What the state-tree commitment of \<open>suwappudb-state/src/tree\<close> guarantees and what it does not: roots
  that depend on the contents only, roots that bind the balances, sound inclusion proofs, the exact
  condition under which absence proofs are sound, and two weaknesses of the verifier. The hypotheses
  on the digest \<open>H\<close> are \<open>digest32\<close> and injectivity on the finitely many inputs that are hashed.
\<close>

section \<open>Verification as reconstruction\<close>

lemma verify_reconstruct:
  assumes "StateTree_verify H root a slot prf"
  shows "proof_slot prf = slot"
    and "map step_byte (path prf) @ drop (length (path prf)) (addr_bytes a) = addr_bytes a"
    and "slot \<noteq> None \<Longrightarrow> length (path prf) = length (addr_bytes a)"
    and "path prf = [] \<Longrightarrow> slot = None \<and> root = empty_commitment H"
    and "path prf \<noteq> [] \<Longrightarrow> reconstruct H (path prf) slot = Some root"
proof -
  from assms have len: "length (path prf) \<le> length (addr_bytes a)"
    and bytes: "\<forall>i < length (path prf). step_byte (path prf ! i) = addr_bytes a ! i"
    by (auto simp: StateTree_verify_def split: if_splits)
  then have "map step_byte (path prf) = take (length (path prf)) (addr_bytes a)"
    by (intro nth_equalityI) auto
  then show "map step_byte (path prf) @ drop (length (path prf)) (addr_bytes a) = addr_bytes a" by simp
qed (use assms in \<open>auto simp: StateTree_verify_def reconstruct_def split: if_splits\<close>)

definition wf_proof :: "Proof \<Rightarrow> bool" where
  "wf_proof prf \<longleftrightarrow> (\<forall>s \<in> set (path prf). wf_siblings (step_siblings s))"

text \<open>All inputs hashed when a tree is committed and when a proof is checked.\<close>

definition tree_inputs :: "(bytes \<Rightarrow> bytes) \<Rightarrow> StateTree \<Rightarrow> bytes list" where
  "tree_inputs H t = node_preimages H (root_node t)"

definition proof_inputs :: "(bytes \<Rightarrow> bytes) \<Rightarrow> Proof \<Rightarrow> bytes list" where
  "proof_inputs H prf = TAG_EMPTY # verify_preimages H (path prf) (proof_slot prf)"

text \<open>
  A digest for the concrete inputs below: it counts the levels above the leaf, which separates the
  inputs hashed along a single path.
\<close>

definition level_digest :: "bytes \<Rightarrow> bytes" where
  "level_digest bs = (if 21 < length bs then bs ! 21 + 1 else 0) # replicate 31 0"

lemma digest32_level: "digest32 level_digest"
  by (simp add: digest32_def level_digest_def)

definition one_account_tree :: StateTree where
  "one_account_tree = StateTree_from_entries [(addr_of 1, BalanceSlot_new 5)]"

lemma wf_one_account_tree: "wf_state_tree one_account_tree"
  by (simp add: one_account_tree_def wf_from_entries)

lemma collect_proof_inputs:
  assumes "wf_node (length bs) n" "collect_proof H n bs = (ss, slot)"
  shows "set (verify_preimages H ss slot) \<subseteq> set (node_preimages H n)"
  using assms
proof (induction bs arbitrary: n ss slot)
  case Nil
  then show ?case by (auto split: Node.splits)
next
  case (Cons b bs)
  then obtain cs where n: "n = Internal cs" and inv: "bt_invar cs" by (auto split: Node.splits)
  show ?case
  proof (cases "map_get cs b")
    case None
    then have "filter (\<lambda>e. fst e \<noteq> b) cs = cs"
      by (auto simp: map_get_def map_of_eq_None_iff filter_id_conv)
    with None Cons.prems(2) n show ?thesis
      by (auto simp: step_preimage_def reconstruct_def Let_def)
  next
    case (Some c)
    have c: "wf_node (length bs) c" using Cons.prems(1) Some n child_wf [of "length bs" cs b c] by simp
    obtain rest s where rec: "collect_proof H c bs = (rest, s)" by (cases "collect_proof H c bs")
    from Cons.prems(2) n Some rec have slot: "slot = s" and ss: "ss = \<lparr>step_byte = b,
      step_siblings = map (\<lambda>e. (fst e, commit_node H (snd e))) (filter (\<lambda>e. fst e \<noteq> b) cs)\<rparr> # rest"
      by (auto simp: Let_def)
    have "reconstruct H rest s = Some (commit_node H c)" using collect_proof_props [OF c rec] by blast
    then have head: "step_preimage H (hd ss) (reconstruct H rest slot) = node_preimage H n"
      by (simp add: ss slot n step_preimage_def map_bt_insert bt_insert_remove [OF inv Some])
    have "(b, c) \<in> set cs" using Some by (auto simp: map_get_def dest: map_of_SomeD)
    with Cons.IH [OF c rec] have "set (verify_preimages H rest slot) \<subseteq> set (node_preimages H n)"
      unfolding n slot using child_preimages [of "(b, c)" cs H] by auto
    with head show ?thesis by (simp add: ss node_preimage_mem)
  qed
qed

text \<open>An honest proof hashes nothing that the tree does not hash, besides the empty-tree tag.\<close>

lemma honest_proof_inputs:
  assumes "wf_state_tree t" "wf_addr a"
  shows "set (proof_inputs H (StateTree_proof H t a)) \<subseteq> insert TAG_EMPTY (set (tree_inputs H t))"
proof (cases "root_node t = Empty")
  case True
  with assms(2) show ?thesis
    by (cases "addr_bytes a") (auto simp: proof_inputs_def StateTree_proof_def wf_addr_def)
next
  case False
  obtain ss slot where col: "collect_proof H (root_node t) (addr_bytes a) = (ss, slot)"
    by (cases "collect_proof H (root_node t) (addr_bytes a)")
  from False assms have "wf_node (length (addr_bytes a)) (root_node t)"
    by (auto simp: wf_state_tree_def wf_tree_def wf_addr_def)
  from collect_proof_inputs [OF this col] col show ?thesis
    by (auto simp: proof_inputs_def StateTree_proof_def tree_inputs_def)
qed

definition outside_siblings :: "ProofStep \<Rightarrow> bool" where
  "outside_siblings s \<longleftrightarrow> step_byte s \<notin> fst ` set (step_siblings s)"

lemma collect_proof_siblings:
  assumes "digest32 H" "wf_tree (length bs) n" "collect_proof H n bs = (ss, slot)"
  shows "\<forall>s \<in> set ss. wf_siblings (step_siblings s) \<and> outside_siblings s"
  using assms(2,3)
proof (induction bs arbitrary: n ss slot)
  case Nil
  then show ?case by simp
next
  case (Cons b bs)
  show ?case
  proof (cases n)
    case (Internal cs)
    with Cons.prems(1) have inv: "bt_invar cs" and ch: "e \<in> set cs \<Longrightarrow> wf_tree (length bs) (snd e)" for e
      by (auto simp: wf_tree_def)
    have "bt_invar (map (\<lambda>e. (fst e, commit_node H (snd e))) (map_remove b cs))"
      using bt_invar_remove [OF inv, of b] by (simp add: bt_invar_def comp_def)
    then have sib: "wf_siblings (map (\<lambda>e. (fst e, commit_node H (snd e))) (filter (\<lambda>e. fst e \<noteq> b) cs))"
      by (auto simp: wf_siblings_def map_remove_def commit_length [OF assms(1)])
    show ?thesis
    proof (cases "map_get cs b")
      case None
      with Cons.prems(2) Internal sib show ?thesis by (auto simp: Let_def outside_siblings_def)
    next
      case (Some c)
      then have "wf_tree (length bs) c" using ch [of "(b, c)"] by (auto simp: map_get_def dest: map_of_SomeD)
      with Cons.IH [of c] Cons.prems(2) Internal sib Some show ?thesis
        by (auto simp: Let_def outside_siblings_def split: prod.splits)
    qed
  qed (use Cons.prems in auto)
qed

lemma honest_proof_wf:
  assumes "digest32 H" "wf_state_tree t" "wf_addr a"
  shows "wf_proof (StateTree_proof H t a)" "\<forall>s \<in> set (path (StateTree_proof H t a)). outside_siblings s"
  using collect_proof_siblings [OF assms(1), of "addr_bytes a" "root_node t"] assms(2,3)
  by (cases "collect_proof H (root_node t) (addr_bytes a)";
      auto simp: wf_proof_def StateTree_proof_def wf_addr_def wf_state_tree_def)+

lemma inj_on_list: "distinct (map f (remdups xs)) \<Longrightarrow> inj_on f (set xs)"
  by (simp add: distinct_map)

section \<open>Roots\<close>

text \<open>
  The tree of a state holds at every address exactly the slot the state has an entry for, and
  nothing where it has none.
\<close>

theorem tree_of_state:
  assumes "State_invar st" "\<forall>e \<in> set (State_entries st). wf_addr (fst e)" "wf_addr a"
  shows "StateTree_get (StateTree_from_state st) a =
    (if a \<in> fst ` set (State_entries st) then Some (State_slot_of st a) else None)"
proof -
  let ?es = "State_entries st"
  have dist: "distinct (map fst ?es)"
    using assms(1) ims.entries_distinct by (simp add: State_invar_def State_entries_def)
  have get: "StateTree_get (StateTree_from_state st) a = map_of ?es a"
    using assms(2,3) get_from_entries [of ?es a] dist
    by (simp add: StateTree_from_state_def map_of_rev_distinct)
  show ?thesis
  proof (cases "a \<in> fst ` set ?es")
    case True
    then obtain v where v: "(a, v) \<in> set ?es" by auto
    with assms(1) have "State_slot_of st a = v"
      by (auto simp: State_slot_of_def State_entries_def State_invar_def intro: ims.entries_get)
    with v dist True show ?thesis by (simp add: get map_of_is_SomeI)
  next
    case False
    then show ?thesis by (simp add: get map_of_eq_None_iff)
  qed
qed

theorem tree_of_state_witness:
  "let st = State_apply State_default (SetBalance (addr_of 1) (Balance 5)) in
   StateTree_get (StateTree_from_state st) (addr_of 1) = Some (BalanceSlot_new 5) \<and>
   StateTree_get (StateTree_from_state st) (addr_of 2) = None"
proof -
  let ?st = "State_apply State_default (SetBalance (addr_of 1) (Balance 5))"
  have es: "State_entries ?st = [(addr_of 1, BalanceSlot_new 5)]"
    by (simp add: State_apply.simps State_default_def State_entries_def InMemory_defs)
  have wf: "\<forall>e \<in> set (State_entries ?st). wf_addr (fst e)" by (simp add: es)
  show ?thesis
    using tree_of_state [OF _ wf wf_addr_of, of 1] tree_of_state [OF _ wf wf_addr_of, of 2]
    by (simp add: Let_def es slot_apply)
qed

text \<open>
  The root depends on the contents only: two states with the same entries, in whatever order
  their hash maps iterate them, have the same state root.
\<close>

theorem root_order_independent:
  assumes "State_invar st" "State_invar st'" "set (State_entries st) = set (State_entries st')"
    and "\<forall>e \<in> set (State_entries st). wf_addr (fst e)"
  shows "StateTree_root H (StateTree_from_state st) = StateTree_root H (StateTree_from_state st')"
  using from_state_cong [OF assms] by simp

theorem root_order_independent_witness:
  "let ca = SetBalance (addr_of 1) (Balance 5); cb = SetBalance (addr_of 2) (Balance 7);
       st = State_apply (State_apply State_default ca) cb;
       st' = State_apply (State_apply State_default cb) ca
   in State_entries st \<noteq> State_entries st' \<and>
      StateTree_root level_digest (StateTree_from_state st) =
      StateTree_root level_digest (StateTree_from_state st')"
proof -
  let ?ca = "SetBalance (addr_of 1) (Balance 5)" and ?cb = "SetBalance (addr_of 2) (Balance 7)"
  let ?st = "State_apply (State_apply State_default ?ca) ?cb"
  let ?st' = "State_apply (State_apply State_default ?cb) ?ca"
  have es: "State_entries ?st = [(addr_of 1, BalanceSlot_new 5), (addr_of 2, BalanceSlot_new 7)]"
    "State_entries ?st' = [(addr_of 2, BalanceSlot_new 7), (addr_of 1, BalanceSlot_new 5)]"
    by (simp_all add: State_apply.simps State_default_def State_entries_def InMemory_defs)
  have "set (State_entries ?st) = set (State_entries ?st')" "\<forall>e \<in> set (State_entries ?st). wf_addr (fst e)"
    unfolding es by auto
  from root_order_independent [OF _ _ this, of level_digest] show ?thesis
    by (simp add: Let_def es)
qed

text \<open>Equal commitments have equal inputs, hence equal subtries up to nonces.\<close>

lemma commit_binding:
  assumes "digest32 H" "inj_on H (set (node_preimages H n) \<union> set (node_preimages H m))"
    and "commit_node H n = commit_node H m"
  shows "map_option canonical (get_path n bs) = map_option canonical (get_path m bs)"
  using assms(2,3)
proof (induction bs arbitrary: n m)
  case Nil
  then have "node_preimage H n = node_preimage H m"
    by (auto simp: commit_preimage node_preimage_mem dest: inj_onD)
  then show ?case
    by (cases n; cases m) (auto simp: leaf_preimage_inj preimage_shapes preimage_shapes [symmetric])
next
  case (Cons b bs)
  then have eq: "node_preimage H n = node_preimage H m"
    by (auto simp: commit_preimage node_preimage_mem dest: inj_onD)
  show ?case
  proof (cases "\<exists>cs ds. n = Internal cs \<and> m = Internal ds")
    case True
    then obtain cs ds where nm: "n = Internal cs" "m = Internal ds" by blast
    with eq have ch: "map (\<lambda>e. (fst e, commit_node H (snd e))) cs = map (\<lambda>e. (fst e, commit_node H (snd e))) ds"
      using internal_preimage_inj [OF committed_children_length committed_children_length] assms(1) by simp
    have look: "map_option (commit_node H) (map_get cs b) = map_option (commit_node H) (map_get ds b)"
      using map_get_children [OF ch, of b] map_get_children [OF refl, of H ds b] by simp
    show ?thesis
    proof (cases "map_get cs b")
      case None
      with look show ?thesis by (simp add: nm get_path_Cons)
    next
      case (Some c)
      with look obtain d where d: "map_get ds b = Some d" "commit_node H c = commit_node H d"
        by (cases "map_get ds b") auto
      have "(b, c) \<in> set cs" "(b, d) \<in> set ds" using Some d by (auto simp: map_get_def dest: map_of_SomeD)
      then have "inj_on H (set (node_preimages H c) \<union> set (node_preimages H d))"
        using child_preimages [of "(b, c)" cs H] child_preimages [of "(b, d)" ds H] Cons.prems(1)
        unfolding nm by (auto elim!: inj_on_subset)
      from Cons.IH [OF this d(2)] Some d show ?thesis by (simp add: nm get_path_Cons)
    qed
  next
    case False
    then show ?thesis
      using eq by (cases n; cases m)
        (auto simp: get_path_Cons children_of_node_def leaf_preimage_inj preimage_shapes preimage_shapes [symmetric])
  qed
qed

text \<open>
  C6: the root binds the balances: two trees with the same root hold the same balance at every
  address, as long as the digest has no collision among the inputs of the two trees. (The nonces of
  the slots are not part of the leaf input, so they are not bound.)
\<close>

theorem root_binding:
  assumes "digest32 H" "inj_on H (set (tree_inputs H t) \<union> set (tree_inputs H u))"
    and "StateTree_root H t = StateTree_root H u"
  shows "map_option canonical (StateTree_get t a) = map_option canonical (StateTree_get u a)"
  using commit_binding [OF assms(1)] assms(2,3)
  by (simp add: tree_inputs_def StateTree_root_def StateTree_get_def)


definition nonce_tree :: StateTree where
  "nonce_tree = StateTree_from_entries [(addr_of 1, BalanceSlot_with_nonce 5 (AccountNonce_new 9))]"

lemma one_account_distinct:
  "distinct (map level_digest (remdups (TAG_EMPTY # tree_inputs level_digest one_account_tree)))"
  by code_simp

lemma one_account_inj: "inj_on level_digest (insert TAG_EMPTY (set (tree_inputs level_digest one_account_tree)))"
  using inj_on_list [OF one_account_distinct] by (simp only: list.set)

text \<open>The hashed inputs of a single-account tree do not depend on the nonce.\<close>

lemma path_inputs_cong:
  assumes "canonical s = canonical s'"
  shows "commit_node H (update_path Empty bs s) = commit_node H (update_path Empty bs s') \<and>
         node_preimages H (update_path Empty bs s) = node_preimages H (update_path Empty bs s')"
  using assms by (induction bs) (auto simp: leaf_preimage_def children_of_node_def)

lemma nonce_tree_inputs:
  "tree_inputs H nonce_tree = tree_inputs H one_account_tree"
  "StateTree_root H nonce_tree = StateTree_root H one_account_tree"
  using path_inputs_cong [of "BalanceSlot_with_nonce 5 (AccountNonce_new 9)" "BalanceSlot_new 5" H "addr_bytes (addr_of 1)"]
  by (simp_all add: tree_inputs_def StateTree_root_def nonce_tree_def one_account_tree_def
      StateTree_from_entries_def StateTree_update_def StateTree_new_def BalanceSlot_with_nonce_def BalanceSlot_new_def)

theorem root_binding_witness:
  "StateTree_root level_digest nonce_tree = StateTree_root level_digest one_account_tree \<and>
   map_option canonical (StateTree_get nonce_tree (addr_of 1)) =
   map_option canonical (StateTree_get one_account_tree (addr_of 1))"
proof -
  have root: "StateTree_root level_digest nonce_tree = StateTree_root level_digest one_account_tree"
    by (rule nonce_tree_inputs)
  have "inj_on level_digest (set (tree_inputs level_digest nonce_tree) \<union>
      set (tree_inputs level_digest one_account_tree))"
    using one_account_inj by (simp add: nonce_tree_inputs(1))
  from root_binding [OF digest32_level this root] root show ?thesis by blast
qed

section \<open>Soundness of proofs\<close>

text \<open>
  C5: inclusion proofs are sound: a proof accepted for an address and a slot against the root of a
  tree shows that the tree holds a slot with that balance at that address, whoever made the proof.
\<close>

theorem inclusion_sound:
  assumes "digest32 H" "wf_proof prf"
    and "inj_on H (set (tree_inputs H t) \<union> set (proof_inputs H prf))"
    and "StateTree_verify H (StateTree_root H t) a (Some slot) prf"
  shows "\<exists>s. StateTree_get t a = Some s \<and> canonical s = canonical slot"
proof -
  note ver = verify_reconstruct [OF assms(4)]
  from ver(3) ver(2) have path: "map step_byte (path prf) = addr_bytes a" by simp
  from ver(4) have "path prf \<noteq> []" by blast
  then have rec: "reconstruct H (path prf) (Some slot) = Some (commit_node H (root_node t))"
    using ver(5) by (simp add: StateTree_root_def)
  have "inj_on H (set (node_preimages H (root_node t)) \<union> set (verify_preimages H (path prf) (Some slot)))"
    using assms(3) ver(1) by (auto simp: tree_inputs_def proof_inputs_def elim!: inj_on_subset)
  from inclusion_path [OF assms(1) _ this rec] assms(2) path show ?thesis
    by (simp add: wf_proof_def StateTree_get_def)
qed

text \<open>
  C20: absence proofs are sound when the last step of the proof does not list its own byte among the
  siblings: then an accepted absence shows that the tree has no slot at the address. The verifier
  does not check that side condition.
\<close>

theorem absence_sound:
  assumes "digest32 H" "wf_proof prf"
    and "inj_on H (set (tree_inputs H t) \<union> set (proof_inputs H prf))"
    and "StateTree_verify H (StateTree_root H t) a None prf"
    and "path prf \<noteq> [] \<Longrightarrow> outside_siblings (last (path prf))"
  shows "StateTree_get t a = None"
proof (cases "path prf = []")
  case True
  with verify_reconstruct(4) [OF assms(4)] have "commit_node H (root_node t) = empty_commitment H"
    by (simp add: StateTree_root_def)
  then have "H (node_preimage H (root_node t)) = H TAG_EMPTY"
    by (simp add: commit_preimage empty_commitment_def)
  moreover have "node_preimage H (root_node t) \<in> set (tree_inputs H t)"
    by (simp add: tree_inputs_def node_preimage_mem)
  ultimately have "node_preimage H (root_node t) = TAG_EMPTY"
    using inj_onD [OF assms(3)] by (simp add: proof_inputs_def)
  then have "root_node t = Empty"
    by (cases "root_node t") (auto simp: preimage_shapes preimage_shapes [symmetric])
  then show ?thesis by (simp add: StateTree_get_def)
next
  case False
  note ver = verify_reconstruct [OF assms(4)]
  from False ver(5) have rec: "reconstruct H (path prf) None = Some (commit_node H (root_node t))"
    by (simp add: StateTree_root_def)
  have "inj_on H (set (node_preimages H (root_node t)) \<union> set (verify_preimages H (path prf) None))"
    using assms(3) ver(1) by (auto simp: tree_inputs_def proof_inputs_def elim!: inj_on_subset)
  from absence_path [OF assms(1) _ False _ this rec] assms(2) assms(5) [OF False] ver(2) show ?thesis
    by (metis wf_proof_def outside_siblings_def StateTree_get_def)
qed

lemma honest_proof_inj:
  "wf_addr a \<Longrightarrow> inj_on level_digest (set (tree_inputs level_digest one_account_tree) \<union>
     set (proof_inputs level_digest (StateTree_proof level_digest one_account_tree a)))"
  using honest_proof_inputs [OF wf_one_account_tree, of a level_digest]
  by (auto intro: inj_on_subset [OF one_account_inj])

lemma one_account_get:
  "StateTree_get one_account_tree (addr_of 1) = Some (BalanceSlot_new 5)"
  "StateTree_get one_account_tree (addr_of 2) = None"
  by (simp_all add: one_account_tree_def get_from_entries)

lemma one_account_honest:
  "StateTree_verify level_digest (StateTree_root level_digest one_account_tree) (addr_of 1)
     (Some (BalanceSlot_new 5)) (StateTree_proof level_digest one_account_tree (addr_of 1))"
  "StateTree_verify level_digest (StateTree_root level_digest one_account_tree) (addr_of 2)
     None (StateTree_proof level_digest one_account_tree (addr_of 2))"
  using verify_own_proof [OF wf_one_account_tree wf_addr_of, of level_digest] one_account_get by metis+

theorem inclusion_sound_witness:
  "StateTree_verify level_digest (StateTree_root level_digest one_account_tree) (addr_of 1)
     (Some (BalanceSlot_new 5)) (StateTree_proof level_digest one_account_tree (addr_of 1)) \<and>
   (\<exists>s. StateTree_get one_account_tree (addr_of 1) = Some s \<and> canonical s = canonical (BalanceSlot_new 5))"
  using inclusion_sound [OF digest32_level honest_proof_wf(1) [OF digest32_level wf_one_account_tree wf_addr_of]
      honest_proof_inj [OF wf_addr_of] one_account_honest(1)] one_account_honest(1) by blast

theorem absence_sound_witness:
  "StateTree_verify level_digest (StateTree_root level_digest one_account_tree) (addr_of 2)
     None (StateTree_proof level_digest one_account_tree (addr_of 2)) \<and>
   StateTree_get one_account_tree (addr_of 2) = None"
proof -
  have "outside_siblings (last (path (StateTree_proof level_digest one_account_tree (addr_of 2))))"
    if "path (StateTree_proof level_digest one_account_tree (addr_of 2)) \<noteq> []"
    using honest_proof_wf(2) [OF digest32_level wf_one_account_tree wf_addr_of] last_in_set [OF that] by blast
  from absence_sound [OF digest32_level honest_proof_wf(1) [OF digest32_level wf_one_account_tree wf_addr_of]
      honest_proof_inj [OF wf_addr_of] one_account_honest(2) this] one_account_honest(2)
  show ?thesis by blast
qed

section \<open>Weaknesses of the verifier\<close>

text \<open>
  C21: without that side condition absence proofs are worthless: against the root of any non-empty
  tree, for any address at all, there is a proof of absence that the verifier accepts, also when the
  address holds a balance. It names the root's children, the address's own branch included, as
  siblings of a one-step path.
\<close>

theorem absence_forgeable:
  assumes "wf_state_tree t" "root_node t \<noteq> Empty" "wf_addr a"
  shows "\<exists>prf. StateTree_verify H (StateTree_root H t) a None prf"
proof -
  from assms(1,2) obtain cs where cs: "root_node t = Internal cs"
    by (auto simp: wf_state_tree_def wf_tree_def numeral_eq_Suc split: Node.splits)
  obtain b bs where b: "addr_bytes a = b # bs" using assms(3) by (cases "addr_bytes a") (auto simp: wf_addr_def)
  let ?sib = "map (\<lambda>e. (fst e, commit_node H (snd e))) cs"
  have "StateTree_verify H (StateTree_root H t) a None
      \<lparr>path = [\<lparr>step_byte = b, step_siblings = ?sib\<rparr>], proof_slot = None\<rparr>"
    by (simp add: StateTree_verify_def b combine_step_def StateTree_root_def cs)
  then show ?thesis by blast
qed

theorem absence_forgeable_witness:
  "StateTree_get one_account_tree (addr_of 1) = Some (BalanceSlot_new 5) \<and>
   (\<exists>prf. StateTree_verify level_digest (StateTree_root level_digest one_account_tree) (addr_of 1) None prf)"
proof -
  have "root_node one_account_tree \<noteq> Empty"
    using one_account_get(1) by (auto simp: StateTree_get_def)
  from absence_forgeable [OF wf_one_account_tree this wf_addr_of] one_account_get(1) show ?thesis by blast
qed

text \<open>
  The nonce of a slot is not committed: a proof accepted for a slot is accepted, with the slot
  replaced in it, for every slot of the same balance and any nonce.
\<close>

theorem nonce_not_committed:
  assumes "StateTree_verify H root a (Some slot) prf"
  shows "StateTree_verify H root a (Some (slot\<lparr>nonce := n\<rparr>)) (prf\<lparr>proof_slot := Some (slot\<lparr>nonce := n\<rparr>)\<rparr>)"
proof -
  have "leaf_preimage (slot\<lparr>nonce := n\<rparr>) = leaf_preimage slot" by (simp add: leaf_preimage_def)
  with assms show ?thesis by (auto simp: StateTree_verify_def split: if_splits)
qed

theorem nonce_not_committed_witness:
  "let prf = StateTree_proof level_digest one_account_tree (addr_of 1);
       forged = (BalanceSlot_new 5)\<lparr>nonce := AccountNonce_new 9\<rparr>
   in forged \<noteq> BalanceSlot_new 5 \<and>
      StateTree_verify level_digest (StateTree_root level_digest one_account_tree) (addr_of 1)
        (Some forged) (prf\<lparr>proof_slot := Some forged\<rparr>)"
  using nonce_not_committed [OF one_account_honest(1), of "AccountNonce_new 9"]
  by (simp add: Let_def BalanceSlot_new_def AccountNonce_new_def AccountNonce_default_def)

text \<open>
  C25: the prover is complete: for a tree built from entries and any address, the generated proof
  verifies against the tree's own root, for inclusion and for absence alike.
\<close>

theorem proof_complete:
  assumes "wf_state_tree t" "wf_addr a"
  shows "StateTree_verify H (StateTree_root H t) a (StateTree_get t a) (StateTree_proof H t a)"
  using assms by (rule verify_own_proof)

theorem proof_complete_witness:
  "StateTree_verify level_digest (StateTree_root level_digest one_account_tree) (addr_of 2)
     (StateTree_get one_account_tree (addr_of 2)) (StateTree_proof level_digest one_account_tree (addr_of 2))"
  by (rule proof_complete [OF wf_one_account_tree wf_addr_of])


end
