(* ===== verification/Codec.thy ===== *)
theory Codec
  imports Prelude "HOL-Library.Monad_Syntax"
begin

text \<open>
  Length-checked decoding shared by the snapshot and block formats. A decoder takes the bytes not yet
  read and returns the decoded value with the rest; the position of a Rust cursor into its buffer is
  the length of what has been dropped. The locale \<open>codec\<close> states that an encoder and a decoder are
  inverse on a set of well-formed values and carries the lemmas on repeated fields.
\<close>

section \<open>Decoders\<close>

type_synonym 'a decoder = "bytes \<Rightarrow> ('a \<times> bytes) option"

definition take_bytes :: "nat \<Rightarrow> bytes decoder" where
  "take_bytes n bs = (if length bs < n then None else Some (take n bs, drop n bs))"

fun repeat_opt :: "nat \<Rightarrow> 'a decoder \<Rightarrow> 'a list decoder" where
  "repeat_opt 0 d bs = Some ([], bs)"
| "repeat_opt (Suc n) d bs =
     do { (x, rest) \<leftarrow> d bs; (xs, rest') \<leftarrow> repeat_opt n d rest; Some (x # xs, rest') }"

text \<open>The successful part of a result.\<close>

definition ok_of :: "'e + 'a \<Rightarrow> 'a option" where
  "ok_of r = (case r of Inl _ \<Rightarrow> None | Inr x \<Rightarrow> Some x)"

definition bind_res :: "'e + 'a \<Rightarrow> ('a \<Rightarrow> 'e + 'b) \<Rightarrow> 'e + 'b" where
  "bind_res r f = (case r of Inl e \<Rightarrow> Inl e | Inr x \<Rightarrow> f x)"

lemma bind_res_simps [simp]: "bind_res (Inl e) f = Inl e" "bind_res (Inr x) f = f x"
  by (simp_all add: bind_res_def)

lemma ok_of_simps [simp]: "ok_of (Inl e) = None" "ok_of (Inr x) = Some x"
  by (simp_all add: ok_of_def)

lemma ok_of_Some [simp]: "ok_of r = Some x \<longleftrightarrow> r = Inr x"
  by (cases r) auto

lemma ok_of_bind: "ok_of (bind_res r f) = Option.bind (ok_of r) (\<lambda>x. ok_of (f x))"
  by (cases r) auto

text \<open>\<open>for _ in 0..n\<close> with the first error returned.\<close>

fun repeat_res :: "nat \<Rightarrow> (bytes \<Rightarrow> 'e + ('a \<times> bytes)) \<Rightarrow> bytes \<Rightarrow> 'e + ('a list \<times> bytes)" where
  "repeat_res 0 d bs = Inr ([], bs)"
| "repeat_res (Suc n) d bs =
     bind_res (d bs) (\<lambda>(x, rest). bind_res (repeat_res n d rest) (\<lambda>(xs, rest'). Inr (x # xs, rest')))"

lemma ok_repeat_res: "ok_of (repeat_res n d bs) = repeat_opt n (\<lambda>bs. ok_of (d bs)) bs"
  by (induction n d bs rule: repeat_res.induct) (auto simp: ok_of_bind case_prod_unfold)

lemma take_bytes_append [simp]: "length xs = n \<Longrightarrow> take_bytes n (xs @ rest) = Some (xs, rest)"
  by (simp add: take_bytes_def)

lemma take_bytes_Some: "take_bytes n bs = Some (xs, rest) \<longleftrightarrow> bs = xs @ rest \<and> length xs = n"
  by (auto simp: take_bytes_def split: if_splits)

section \<open>The codec interface\<close>

locale codec =
  fixes wf :: "'a \<Rightarrow> bool" and enc :: "'a \<Rightarrow> bytes" and dec :: "'a decoder"
  assumes enc_dec: "wf x \<Longrightarrow> dec (enc x @ rest) = Some (x, rest)"
    and dec_enc: "dec bs = Some (x, rest) \<Longrightarrow> bs = enc x @ rest \<and> wf x"
begin

text \<open>No two values share an encoding, even with data behind them.\<close>

lemma enc_prefix_free: "wf x \<Longrightarrow> wf y \<Longrightarrow> enc x @ r = enc y @ r' \<Longrightarrow> x = y \<and> r = r'"
  by (metis enc_dec option.inject prod.inject)

lemma repeat_enc_dec:
  "list_all wf xs \<Longrightarrow> repeat_opt (length xs) dec (concat (map enc xs) @ rest) = Some (xs, rest)"
  by (induction xs) (simp_all add: enc_dec)

lemma repeat_dec_enc:
  "repeat_opt n dec bs = Some (xs, rest) \<Longrightarrow> bs = concat (map enc xs) @ rest \<and> length xs = n \<and> list_all wf xs"
proof (induction n arbitrary: bs xs)
  case (Suc n)
  from Suc.prems obtain x mid ys where
    "dec bs = Some (x, mid)" "repeat_opt n dec mid = Some (ys, rest)" "xs = x # ys"
    by (auto simp: bind_eq_Some_conv)
  with Suc.IH dec_enc show ?case by fastforce
qed simp

end

section \<open>Fixed-width fields\<close>

definition le_word :: "'a::len word decoder" where
  "le_word bs = do { (xs, rest) \<leftarrow> take_bytes (LENGTH('a) div 8) bs; Some (from_le_bytes xs, rest) }"

definition be_word :: "'a::len word decoder" where
  "be_word bs = do { (xs, rest) \<leftarrow> take_bytes (LENGTH('a) div 8) bs; Some (from_be_bytes xs, rest) }"

lemma le_word_codec: "byte_width TYPE('a::len) \<Longrightarrow> codec (\<lambda>_. True) to_le_bytes (le_word :: 'a word decoder)"
  by unfold_locales (auto simp: le_word_def from_to_le_bytes bind_eq_Some_conv take_bytes_Some to_from_le_bytes)

lemma be_word_codec: "byte_width TYPE('a::len) \<Longrightarrow> codec (\<lambda>_. True) to_be_bytes (be_word :: 'a word decoder)"
  by unfold_locales (auto simp: be_word_def from_to_be_bytes bind_eq_Some_conv take_bytes_Some to_from_be_bytes)

interpretation le32: codec "\<lambda>_. True" to_le_bytes "le_word :: u32 decoder"
  by (rule le_word_codec) simp

interpretation le128: codec "\<lambda>_. True" to_le_bytes "le_word :: u128 decoder"
  by (rule le_word_codec) simp

interpretation be32: codec "\<lambda>_. True" to_be_bytes "be_word :: u32 decoder"
  by (rule be_word_codec) simp

interpretation be64: codec "\<lambda>_. True" to_be_bytes "be_word :: u64 decoder"
  by (rule be_word_codec) simp

interpretation be128: codec "\<lambda>_. True" to_be_bytes "be_word :: u128 decoder"
  by (rule be_word_codec) simp

text \<open>\<open>u32::try_from(len).unwrap_or(u32::MAX)\<close>.\<close>

definition len32 :: "nat \<Rightarrow> u32" where
  "len32 n = (if n < 2 ^ 32 then word_of_nat n else - 1)"

lemma unat_len32: "n < 2 ^ 32 \<Longrightarrow> unat (len32 n) = n"
  by (simp add: len32_def unat_of_nat)

text \<open>A length-prefixed blob.\<close>

definition be_blob :: "bytes decoder" where
  "be_blob bs = do { (n, rest) \<leftarrow> (be_word :: u32 decoder) bs; take_bytes (unat n) rest }"

definition enc_be_blob :: "bytes \<Rightarrow> bytes" where
  "enc_be_blob xs = to_be_bytes (len32 (length xs)) @ xs"

interpretation blob: codec "\<lambda>xs. length xs < 2 ^ 32" enc_be_blob be_blob
proof unfold_locales
  fix xs rest :: bytes
  assume "length xs < 2 ^ 32"
  then show "be_blob (enc_be_blob xs @ rest) = Some (xs, rest)"
    by (simp add: be_blob_def enc_be_blob_def be32.enc_dec unat_len32)
next
  fix bs xs rest :: bytes
  assume "be_blob bs = Some (xs, rest)"
  then obtain n mid where n: "(be_word :: u32 decoder) bs = Some (n, mid)" "take_bytes (unat n) mid = Some (xs, rest)"
    by (auto simp: be_blob_def bind_eq_Some_conv)
  have "unat n < 2 ^ 32" using unsigned_less [of n, where ?'a = nat] by simp
  with n be32.dec_enc [OF n(1)] show "bs = enc_be_blob xs @ rest \<and> length xs < 2 ^ 32"
    by (auto simp: take_bytes_Some enc_be_blob_def len32_def)
qed

end
