(* ===== verification/Snapshot.thy ===== *)
theory Snapshot
  imports Codec State_Tree
begin

text \<open>
  State snapshots of \<open>suwappudb-state/src/snapshot.rs\<close>: the V1 (balances) and V2 (balances and blobs)
  binary formats, capture and restore, and the snapshot manager. \<open>SystemTime::now\<close> is the argument
  \<open>now\<close>. Error messages are the constructors of \<open>SnapshotError\<close>; the \<open>expect\<close>s of \<open>from_state\<close> are the
  result \<open>None\<close>. The JSON file, the metadata and the file name are in theory \<open>Snapshot_Files\<close>.
\<close>

section \<open>Format\<close>

definition SNAPSHOT_ENTRY_BYTES :: usize where
  "SNAPSHOT_ENTRY_BYTES = 36"

definition SNAPSHOT_MAGIC_V1 :: bytes where
  "SNAPSHOT_MAGIC_V1 = ascii ''SUWAPPU'' @ [1]"

definition SNAPSHOT_MAGIC_V2 :: bytes where
  "SNAPSHOT_MAGIC_V2 = ascii ''SUWAPPU'' @ [2]"

datatype SnapshotError =
    TooShort
  | BadV1Length nat
  | TruncatedPrefix
  | TruncatedBalance
  | TruncatedHeader
  | TruncatedPayload
  | TrailingBytes nat
  | MagicMismatch
  | InvalidSnapshot
  | AnchorMismatch

record DecodedBody =
  dec_balances :: "(Address \<times> u128) list"
  dec_bytes :: "(Address \<times> bytes) list"

definition take_u32 :: "bytes \<Rightarrow> SnapshotError + (u32 \<times> bytes)" where
  "take_u32 bs = (if length bs < 4 then Inl TruncatedPrefix else Inr (from_le_bytes (take 4 bs), drop 4 bs))"

definition take_balance :: "bytes \<Rightarrow> SnapshotError + ((Address \<times> u128) \<times> bytes)" where
  "take_balance bs =
     (if length bs < SNAPSHOT_ENTRY_BYTES then Inl TruncatedBalance
      else Inr ((Address (take 20 bs), from_le_bytes (take 16 (drop 20 bs))), drop SNAPSHOT_ENTRY_BYTES bs))"

definition take_blob :: "bytes \<Rightarrow> SnapshotError + ((Address \<times> bytes) \<times> bytes)" where
  "take_blob bs =
     (if length bs < 24 then Inl TruncatedHeader
      else let len = unat (from_le_bytes (take 4 (drop 20 bs)) :: u32); rest = drop 24 bs
           in if length rest < len then Inl TruncatedPayload
              else Inr ((Address (take 20 bs), take len rest), drop len rest))"

definition parse_v2_body :: "bytes \<Rightarrow> SnapshotError + DecodedBody" where
  "parse_v2_body enc =
     (let body = drop (length SNAPSHOT_MAGIC_V2) enc in
      bind_res (take_u32 body) (\<lambda>(bal_count, r1).
      bind_res (repeat_res (unat bal_count) take_balance r1) (\<lambda>(balances, r2).
      bind_res (take_u32 r2) (\<lambda>(byt_count, r3).
      bind_res (repeat_res (unat byt_count) take_blob r3) (\<lambda>(blobs, r4).
        if r4 \<noteq> [] then Inl (TrailingBytes (length r4))
        else Inr \<lparr>dec_balances = balances, dec_bytes = blobs\<rparr>)))))"

section \<open>Snapshots\<close>

record StateSnapshot =
  sn_height :: u64
  sn_state_root :: Commitment
  encoded_state :: bytes
  timestamp :: u64
  anchor_hash :: "bytes option"

definition StateSnapshot_new ::
  "u64 \<Rightarrow> u64 \<Rightarrow> Commitment \<Rightarrow> bytes \<Rightarrow> bytes option \<Rightarrow> StateSnapshot" where
  "StateSnapshot_new now height root enc anchor =
     \<lparr>sn_height = height, sn_state_root = root, encoded_state = enc, timestamp = now, anchor_hash = anchor\<rparr>"

definition StateSnapshot_size_bytes :: "StateSnapshot \<Rightarrow> usize" where
  "StateSnapshot_size_bytes sn =
     8 + 32 + 8 + (case anchor_hash sn of None \<Rightarrow> 0 | Some _ \<Rightarrow> 32) + length (encoded_state sn)"

definition StateSnapshot_is_valid :: "u64 \<Rightarrow> StateSnapshot \<Rightarrow> u64 \<Rightarrow> bool" where
  "StateSnapshot_is_valid now sn max_age_secs =
     (if sn_height sn = 0 then False
      else if timestamp sn > now then False
      else if now - timestamp sn > max_age_secs then False
      else encoded_state sn \<noteq> [])"

definition StateSnapshot_verify_anchor :: "StateSnapshot \<Rightarrow> bytes \<Rightarrow> bool" where
  "StateSnapshot_verify_anchor sn a \<longleftrightarrow> anchor_hash sn = Some a"

definition enc_balance :: "Address \<times> u128 \<Rightarrow> bytes" where
  "enc_balance e = addr_bytes (fst e) @ to_le_bytes (snd e)"

definition enc_blob :: "Address \<times> bytes \<Rightarrow> bytes" where
  "enc_blob e = addr_bytes (fst e) @ to_le_bytes (word_of_nat (length (snd e)) :: u32) @ snd e"

definition fits_u32 :: "nat \<Rightarrow> bool" where
  "fits_u32 n \<longleftrightarrow> n < 2 ^ 32"

definition StateSnapshot_from_state ::
  "u64 \<Rightarrow> State \<Rightarrow> u64 \<Rightarrow> bytes option \<Rightarrow> StateSnapshot option" where
  "StateSnapshot_from_state now st height anchor =
     (let balances = sort_key (\<lambda>e. addr_bytes (fst e)) (State_entries st);
          blobs = sort_key (\<lambda>e. addr_bytes (fst e)) (State_bytes_entries st)
      in if \<not> fits_u32 (length balances) \<or> \<not> fits_u32 (length blobs) \<or>
            \<not> list_all (\<lambda>e. fits_u32 (length (snd e))) blobs
         then None
         else Some (StateSnapshot_new now height (Commitment (replicate 32 0))
           (SNAPSHOT_MAGIC_V2 @
            to_le_bytes (word_of_nat (length balances) :: u32) @
            concat (map (\<lambda>(addr, slot). addr_bytes addr @ to_le_bytes (canonical slot)) balances) @
            to_le_bytes (word_of_nat (length blobs) :: u32) @
            concat (map enc_blob blobs))
           anchor))"

definition StateSnapshot_with_state_root :: "StateSnapshot \<Rightarrow> Commitment \<Rightarrow> StateSnapshot" where
  "StateSnapshot_with_state_root sn root = sn\<lparr>sn_state_root := root\<rparr>"

definition StateSnapshot_validate_encoding :: "StateSnapshot \<Rightarrow> SnapshotError + unit" where
  "StateSnapshot_validate_encoding sn =
     (let enc = encoded_state sn in
      if length enc < 8 then Inl TooShort
      else if take 8 enc = SNAPSHOT_MAGIC_V1 then
        let body_len = length enc - length SNAPSHOT_MAGIC_V1 in
        if body_len mod SNAPSHOT_ENTRY_BYTES \<noteq> 0 then Inl (BadV1Length body_len) else Inr ()
      else if take 8 enc = SNAPSHOT_MAGIC_V2 then bind_res (parse_v2_body enc) (\<lambda>_. Inr ())
      else Inl MagicMismatch)"

text \<open>\<open>chunks_exact(36)\<close>, and the balance entry of one chunk.\<close>

definition chunks_exact :: "nat \<Rightarrow> bytes \<Rightarrow> bytes list" where
  "chunks_exact k bs = map (\<lambda>i. take k (drop (k * i) bs)) [0..<length bs div k]"

definition chunk_balance :: "bytes \<Rightarrow> Address \<times> u128" where
  "chunk_balance chunk = (Address (take 20 chunk), from_le_bytes (drop 20 chunk))"

definition apply_balances :: "(Address \<times> u128) list \<Rightarrow> State \<Rightarrow> State" where
  "apply_balances es st = fold (\<lambda>(addr, v) s. State_apply s (SetBalance addr (Balance v))) es st"

definition apply_blobs :: "(Address \<times> bytes) list \<Rightarrow> State \<Rightarrow> State" where
  "apply_blobs es st = fold (\<lambda>(addr, data) s. State_apply s (SetBytes addr data)) es st"

definition StateSnapshot_restore_into_state :: "StateSnapshot \<Rightarrow> State \<Rightarrow> (SnapshotError + usize) \<times> State" where
  "StateSnapshot_restore_into_state sn st =
     (let enc = encoded_state sn in
      if length enc < 8 then (Inl TooShort, st)
      else if take 8 enc = SNAPSHOT_MAGIC_V1 then
        let body = drop (length SNAPSHOT_MAGIC_V1) enc in
        if length body mod SNAPSHOT_ENTRY_BYTES \<noteq> 0 then (Inl (BadV1Length (length body)), st)
        else let chunks = chunks_exact SNAPSHOT_ENTRY_BYTES body
             in (Inr (length chunks), apply_balances (map chunk_balance chunks) st)
      else if take 8 enc = SNAPSHOT_MAGIC_V2 then
        (case parse_v2_body enc of
           Inl e \<Rightarrow> (Inl e, st)
         | Inr d \<Rightarrow> (Inr (length (dec_balances d) + length (dec_bytes d)),
                     apply_blobs (dec_bytes d) (apply_balances (dec_balances d) st)))
      else (Inl MagicMismatch, st))"

definition StateSnapshot_entry_count :: "StateSnapshot \<Rightarrow> usize option" where
  "StateSnapshot_entry_count sn =
     (let enc = encoded_state sn in
      if length enc < 8 then None
      else if take 8 enc = SNAPSHOT_MAGIC_V1 then
        let body_len = length enc - length SNAPSHOT_MAGIC_V1 in
        if body_len mod SNAPSHOT_ENTRY_BYTES \<noteq> 0 then None else Some (body_len div SNAPSHOT_ENTRY_BYTES)
      else if take 8 enc = SNAPSHOT_MAGIC_V2 then
        map_option (\<lambda>d. length (dec_balances d)) (ok_of (parse_v2_body enc))
      else None)"

definition StateSnapshot_bytes_entry_count :: "StateSnapshot \<Rightarrow> usize option" where
  "StateSnapshot_bytes_entry_count sn =
     (let enc = encoded_state sn in
      if length enc < 8 then None
      else if take 8 enc = SNAPSHOT_MAGIC_V1 then Some 0
      else if take 8 enc = SNAPSHOT_MAGIC_V2 then
        map_option (\<lambda>d. length (dec_bytes d)) (ok_of (parse_v2_body enc))
      else None)"

section \<open>Manager\<close>

record SnapshotManager =
  snapshot_dir :: string
  snapshot_interval :: u64
  max_age_secs :: u64
  max_snapshots :: usize

definition SnapshotManager_new :: "string \<Rightarrow> u64 \<Rightarrow> SnapshotManager" where
  "SnapshotManager_new dir interval =
     \<lparr>snapshot_dir = dir, snapshot_interval = interval, max_age_secs = 7 * 24 * 60 * 60, max_snapshots = 3\<rparr>"

text \<open>The remainder by a zero interval panics: \<open>None\<close>.\<close>

definition SnapshotManager_should_snapshot :: "SnapshotManager \<Rightarrow> u64 \<Rightarrow> bool option" where
  "SnapshotManager_should_snapshot m height =
     (if \<not> height > 0 then Some False
      else if snapshot_interval m = 0 then None
      else Some (height mod snapshot_interval m = 0))"

definition SnapshotManager_validate_snapshot ::
  "u64 \<Rightarrow> SnapshotManager \<Rightarrow> StateSnapshot \<Rightarrow> bytes option \<Rightarrow> SnapshotError + unit" where
  "SnapshotManager_validate_snapshot now m sn expected =
     (if \<not> StateSnapshot_is_valid now sn (max_age_secs m) then Inl InvalidSnapshot
      else case expected of
        None \<Rightarrow> Inr ()
      | Some a \<Rightarrow> if \<not> StateSnapshot_verify_anchor sn a then Inl AnchorMismatch else Inr ())"

section \<open>Decoding inverts encoding\<close>

lemma magic_lengths [simp]: "length SNAPSHOT_MAGIC_V1 = 8" "length SNAPSHOT_MAGIC_V2 = 8"
  by (simp_all add: SNAPSHOT_MAGIC_V1_def SNAPSHOT_MAGIC_V2_def ascii_def)

lemma magics_distinct [simp]: "SNAPSHOT_MAGIC_V2 \<noteq> SNAPSHOT_MAGIC_V1"
  by (simp add: SNAPSHOT_MAGIC_V1_def SNAPSHOT_MAGIC_V2_def)

lemma take_u32_word: "ok_of (take_u32 bs) = (le_word :: u32 decoder) bs"
  by (simp add: take_u32_def le_word_def take_bytes_def)

lemma take_drop_split: "m + n \<le> length bs \<Longrightarrow> bs = take m bs @ take n (drop m bs) @ drop (m + n) bs"
  by (metis append_take_drop_id drop_drop add.commute)

interpretation bal_codec: codec "\<lambda>e. wf_addr (fst e)" enc_balance "\<lambda>bs. ok_of (take_balance bs)"
proof unfold_locales
  fix e :: "Address \<times> u128" and rest
  assume "wf_addr (fst e)"
  then show "ok_of (take_balance (enc_balance e @ rest)) = Some (e, rest)"
    by (cases e, cases "fst e") (auto simp: take_balance_def enc_balance_def wf_addr_def
        SNAPSHOT_ENTRY_BYTES_def from_to_le_bytes)
next
  fix bs rest :: bytes and e :: "Address \<times> u128"
  assume "ok_of (take_balance bs) = Some (e, rest)"
  then have len: "36 \<le> length bs" and e: "e = (Address (take 20 bs), from_le_bytes (take 16 (drop 20 bs)))"
    and rest: "rest = drop 36 bs"
    by (auto simp: take_balance_def SNAPSHOT_ENTRY_BYTES_def split: if_splits)
  from len take_drop_split [of 20 16 bs] show "bs = enc_balance e @ rest \<and> wf_addr (fst e)"
    by (simp add: e rest enc_balance_def wf_addr_def to_from_le_bytes)
qed

interpretation blob_codec: codec "\<lambda>e. wf_addr (fst e) \<and> length (snd e) < 2 ^ 32" enc_blob "\<lambda>bs. ok_of (take_blob bs)"
proof unfold_locales
  fix e :: "Address \<times> bytes" and rest
  assume wf: "wf_addr (fst e) \<and> length (snd e) < 2 ^ 32"
  obtain a d where e: "e = (Address a, d)" by (cases e, cases "fst e") auto
  from wf have "unat (word_of_nat (length d) :: u32) = length d" by (simp add: e unat_of_nat)
  with wf show "ok_of (take_blob (enc_blob e @ rest)) = Some (e, rest)"
    by (simp add: e take_blob_def enc_blob_def wf_addr_def from_to_le_bytes Let_def)
next
  fix bs rest :: bytes and e :: "Address \<times> bytes"
  assume "ok_of (take_blob bs) = Some (e, rest)"
  moreover define n where "n = (from_le_bytes (take 4 (drop 20 bs)) :: u32)"
  ultimately have len: "24 \<le> length bs" "unat n \<le> length (drop 24 bs)"
    and e: "e = (Address (take 20 bs), take (unat n) (drop 24 bs))" and rest: "rest = drop (unat n) (drop 24 bs)"
    by (auto simp: take_blob_def Let_def split: if_splits)
  have "unat n < 2 ^ 32" using unsigned_less [of n, where ?'a = nat] by simp
  moreover have "to_le_bytes n = take 4 (drop 20 bs)"
    unfolding n_def using len(1) by (intro to_from_le_bytes) simp_all
  moreover have "drop 24 bs = take (unat n) (drop 24 bs) @ drop (unat n + 24) bs"
    by (metis append_take_drop_id drop_drop)
  ultimately show "bs = enc_blob e @ rest \<and> wf_addr (fst e) \<and> length (snd e) < 2 ^ 32"
    using len take_drop_split [of 20 4 bs]
    by (simp add: e rest enc_blob_def wf_addr_def min_def)
qed

text \<open>The body of a V2 snapshot as an encoding of its two columns.\<close>

definition encode_body :: "DecodedBody \<Rightarrow> bytes" where
  "encode_body d =
     to_le_bytes (word_of_nat (length (dec_balances d)) :: u32) @ concat (map enc_balance (dec_balances d)) @
     to_le_bytes (word_of_nat (length (dec_bytes d)) :: u32) @ concat (map enc_blob (dec_bytes d))"

definition wf_body :: "DecodedBody \<Rightarrow> bool" where
  "wf_body d \<longleftrightarrow> length (dec_balances d) < 2 ^ 32 \<and> length (dec_bytes d) < 2 ^ 32 \<and>
     list_all (\<lambda>e. wf_addr (fst e)) (dec_balances d) \<and>
     list_all (\<lambda>e. wf_addr (fst e) \<and> length (snd e) < 2 ^ 32) (dec_bytes d)"

lemma parse_ok:
  "ok_of (parse_v2_body enc) = Some d \<longleftrightarrow>
   (\<exists>n m r1 r2 r3. (le_word :: u32 decoder) (drop 8 enc) = Some (n, r1) \<and>
      repeat_opt (unat n) (\<lambda>bs. ok_of (take_balance bs)) r1 = Some (dec_balances d, r2) \<and>
      (le_word :: u32 decoder) r2 = Some (m, r3) \<and>
      repeat_opt (unat m) (\<lambda>bs. ok_of (take_blob bs)) r3 = Some (dec_bytes d, []))"
  unfolding parse_v2_body_def Let_def ok_of_bind take_u32_word ok_repeat_res case_prod_unfold
  by (auto simp: bind_eq_Some_conv ok_of_bind take_u32_word ok_repeat_res split: if_splits simp del: ok_of_Some)

lemma parse_encode_body:
  assumes "wf_body d" "length magic = 8"
  shows "parse_v2_body (magic @ encode_body d) = Inr d"
proof -
  let ?n = "word_of_nat (length (dec_balances d)) :: u32" and ?m = "word_of_nat (length (dec_bytes d)) :: u32"
  have n: "unat ?n = length (dec_balances d)" "unat ?m = length (dec_bytes d)"
    using assms(1) by (simp_all add: wf_body_def unat_of_nat)
  have "ok_of (parse_v2_body (magic @ encode_body d)) = Some d"
    unfolding parse_ok
    using assms n bal_codec.repeat_enc_dec [of "dec_balances d"] blob_codec.repeat_enc_dec [of "dec_bytes d" "[]"]
    by (auto simp: encode_body_def wf_body_def le32.enc_dec)
  then show ?thesis by simp
qed

lemma parse_body_canonical:
  assumes "parse_v2_body enc = Inr d"
  shows "drop 8 enc = encode_body d \<and> wf_body d"
proof -
  from assms have "ok_of (parse_v2_body enc) = Some d" by simp
  then obtain n m r1 r2 r3 where p: "(le_word :: u32 decoder) (drop 8 enc) = Some (n, r1)"
    "repeat_opt (unat n) (\<lambda>bs. ok_of (take_balance bs)) r1 = Some (dec_balances d, r2)"
    "(le_word :: u32 decoder) r2 = Some (m, r3)"
    "repeat_opt (unat m) (\<lambda>bs. ok_of (take_blob bs)) r3 = Some (dec_bytes d, [])"
    unfolding parse_ok by blast
  have "unat n < 2 ^ 32" "unat m < 2 ^ 32"
    using unsigned_less [of n, where ?'a = nat] unsigned_less [of m, where ?'a = nat] by simp_all
  with le32.dec_enc [OF p(1)] bal_codec.repeat_dec_enc [OF p(2)] le32.dec_enc [OF p(3)]
    blob_codec.repeat_dec_enc [OF p(4)]
  show ?thesis by (auto simp: encode_body_def wf_body_def)
qed

section \<open>Capture and restore\<close>

definition snap_balances :: "State \<Rightarrow> (Address \<times> u128) list" where
  "snap_balances st = map (\<lambda>(a, s). (a, canonical s)) (sort_key (\<lambda>e. addr_bytes (fst e)) (State_entries st))"

definition snap_blobs :: "State \<Rightarrow> (Address \<times> bytes) list" where
  "snap_blobs st = sort_key (\<lambda>e. addr_bytes (fst e)) (State_bytes_entries st)"

definition snap_body :: "State \<Rightarrow> DecodedBody" where
  "snap_body st = \<lparr>dec_balances = snap_balances st, dec_bytes = snap_blobs st\<rparr>"

text \<open>What the Rust types and the \<open>expect\<close>s bound: 20-byte addresses, fewer than \<open>2^32\<close> entries.\<close>

definition snapshotable :: "State \<Rightarrow> bool" where
  "snapshotable st \<longleftrightarrow> State_invar st \<and> length (State_entries st) < 2 ^ 32 \<and>
     length (State_bytes_entries st) < 2 ^ 32 \<and> list_all (\<lambda>e. wf_addr (fst e)) (State_entries st) \<and>
     list_all (\<lambda>e. wf_addr (fst e) \<and> length (snd e) < 2 ^ 32) (State_bytes_entries st)"

lemma from_state_encodes:
  assumes "snapshotable st"
  shows "StateSnapshot_from_state now st h anchor =
    Some (StateSnapshot_new now h (Commitment (replicate 32 0)) (SNAPSHOT_MAGIC_V2 @ encode_body (snap_body st)) anchor)"
proof -
  have "map (\<lambda>(addr, slot). addr_bytes addr @ to_le_bytes (canonical slot)) es =
    map enc_balance (map (\<lambda>(a, s). (a, canonical s)) es)" for es :: "(Address \<times> BalanceSlot) list"
    by (auto simp: enc_balance_def)
  with assms show ?thesis
    by (simp add: StateSnapshot_from_state_def snapshotable_def encode_body_def snap_body_def snap_balances_def
        snap_blobs_def fits_u32_def list_all_iff del: map_map)
qed

lemma snap_body_wf: "snapshotable st \<Longrightarrow> wf_body (snap_body st)"
  by (auto simp: snapshotable_def wf_body_def snap_body_def snap_balances_def snap_blobs_def list_all_iff)

lemma bal_apply_balances:
  "distinct (map fst es) \<Longrightarrow> bal (apply_balances es st) a = (case map_of es a of Some v \<Rightarrow> v | None \<Rightarrow> bal st a)"
proof (induction es arbitrary: st)
  case (Cons e es)
  obtain b v where e: "e = (b, v)" by (cases e)
  with Cons.prems have "map_of es b = None" by (simp add: map_of_eq_None_iff)
  with Cons e show ?case by (auto simp: apply_balances_def split: option.splits)
qed (simp add: apply_balances_def)

lemma apply_balances_bytes: "State_bytes_of (apply_balances es st) a = State_bytes_of st a"
  by (induction es arbitrary: st) (auto simp: apply_balances_def)

lemma apply_blobs_bal: "bal (apply_blobs es st) a = bal st a"
  by (induction es arbitrary: st) (auto simp: apply_blobs_def)

lemma apply_blobs_bytes:
  "distinct (map fst es) \<Longrightarrow> \<forall>e \<in> set es. snd e \<noteq> [] \<Longrightarrow>
   State_bytes_of (apply_blobs es st) a = (case map_of es a of Some d \<Rightarrow> Some d | None \<Rightarrow> State_bytes_of st a)"
proof (induction es arbitrary: st)
  case (Cons e es)
  obtain b d where e: "e = (b, d)" by (cases e)
  with Cons.prems have "map_of es b = None" by (simp add: map_of_eq_None_iff)
  with Cons e show ?case by (auto simp: apply_blobs_def split: option.splits)
qed (simp add: apply_blobs_def)

lemma snap_lookup:
  assumes "State_invar st"
  shows "distinct (map fst (snap_balances st))" "distinct (map fst (snap_blobs st))"
    "map_of (snap_balances st) a = map_option canonical (map_of (State_entries st) a)"
    "map_of (snap_blobs st) a = State_bytes_of st a" "\<forall>e \<in> set (snap_blobs st). snd e \<noteq> []"
proof -
  let ?k = "\<lambda>e :: Address \<times> BalanceSlot. addr_bytes (fst e)"
  let ?kb = "\<lambda>e :: Address \<times> bytes. addr_bytes (fst e)"
  have inv: "hm_invar (slots (store st))" "bt_invar (bytes_col (store st))" "\<And>a. map_get (bytes_col (store st)) a \<noteq> Some []"
    using assms by (auto simp: State_invar_def InMemory_invar_def)
  have de: "distinct (map fst (State_entries st))" "distinct (map fst (State_bytes_entries st))"
    using inv by (simp_all add: State_entries_def InMemory_entries_def State_bytes_entries_def
        InMemory_bytes_entries_def hm_invar_distinct bt_invar_distinct)
  have ds: "distinct (map fst (sort_key ?k (State_entries st)))" "distinct (map fst (sort_key ?kb (State_bytes_entries st)))"
    using de by (simp_all add: distinct_map)
  have fst: "map fst (map (\<lambda>(a, s). (a, canonical s)) es) = map fst es" for es :: "(Address \<times> BalanceSlot) list"
    by auto
  show "distinct (map fst (snap_balances st))" unfolding snap_balances_def fst by (rule ds)
  show db: "distinct (map fst (snap_blobs st))" unfolding snap_blobs_def by (rule ds)
  have "map_of (sort_key ?k (State_entries st)) = map_of (State_entries st)"
    by (rule map_of_inject_set [THEN iffD2, OF ds(1) de(1)]) simp
  then show "map_of (snap_balances st) a = map_option canonical (map_of (State_entries st) a)"
    unfolding snap_balances_def by (simp add: map_of_map)
  have "map_of (snap_blobs st) = map_of (State_bytes_entries st)"
    by (rule map_of_inject_set [THEN iffD2, OF db de(2)]) (simp add: snap_blobs_def)
  then show "map_of (snap_blobs st) a = State_bytes_of st a"
    by (simp add: State_bytes_entries_def InMemory_bytes_entries_def State_bytes_of_def InMemory_get_bytes_def map_get_def)
  show "\<forall>e \<in> set (snap_blobs st). snd e \<noteq> []"
    using inv(2,3) by (auto simp: snap_blobs_def State_bytes_entries_def InMemory_bytes_entries_def bt.iter_iff_get)
qed

section \<open>Properties\<close>

lemma restore_v2:
  assumes "encoded_state sn = SNAPSHOT_MAGIC_V2 @ encode_body d" "wf_body d"
  shows "StateSnapshot_restore_into_state sn st =
    (Inr (length (dec_balances d) + length (dec_bytes d)), apply_blobs (dec_bytes d) (apply_balances (dec_balances d) st))"
  using parse_encode_body [OF assms(2), of SNAPSHOT_MAGIC_V2]
  by (simp add: StateSnapshot_restore_into_state_def Let_def assms(1))

lemma capture_restores:
  assumes "snapshotable st"
  shows "\<exists>sn st'. StateSnapshot_from_state now st h anchor = Some sn \<and>
    StateSnapshot_restore_into_state sn st0 =
      (Inr (length (State_entries st) + length (State_bytes_entries st)), st') \<and>
    (\<forall>a. bal st' a = (if a \<in> fst ` set (State_entries st) then bal st a else bal st0 a)) \<and>
    (\<forall>a. State_bytes_of st' a = (case State_bytes_of st a of Some d \<Rightarrow> Some d | None \<Rightarrow> State_bytes_of st0 a))"
proof -
  let ?sn = "StateSnapshot_new now h (Commitment (replicate 32 0)) (SNAPSHOT_MAGIC_V2 @ encode_body (snap_body st)) anchor"
  let ?st' = "apply_blobs (snap_blobs st) (apply_balances (snap_balances st) st0)"
  have inv: "State_invar st" using assms by (simp add: snapshotable_def)
  have "StateSnapshot_restore_into_state ?sn st0 = (Inr (length (snap_balances st) + length (snap_blobs st)), ?st')"
    using restore_v2 [OF _ snap_body_wf [OF assms], of ?sn st0] by (simp add: StateSnapshot_new_def snap_body_def)
  moreover have "length (snap_balances st) = length (State_entries st)" "length (snap_blobs st) = length (State_bytes_entries st)"
    by (simp_all add: snap_balances_def snap_blobs_def)
  moreover have "bal ?st' a = (if a \<in> fst ` set (State_entries st) then bal st a else bal st0 a)" for a
  proof (cases "map_of (State_entries st) a")
    case None
    then have "a \<notin> fst ` set (State_entries st)" by (simp add: map_of_eq_None_iff)
    with None show ?thesis
      using snap_lookup(1,3) [OF inv] by (simp add: apply_blobs_bal bal_apply_balances)
  next
    case (Some s)
    then have mem: "(a, s) \<in> set (State_entries st)" by (rule map_of_SomeD)
    then have "State_slot_of st a = s"
      using inv by (auto simp: State_slot_of_def State_entries_def State_invar_def intro: ims.entries_get)
    with Some mem show ?thesis
      using snap_lookup(1,3) [OF inv] by (force simp: apply_blobs_bal bal_apply_balances bal_slot [of st])
  qed
  moreover have "State_bytes_of ?st' a = (case State_bytes_of st a of Some d \<Rightarrow> Some d | None \<Rightarrow> State_bytes_of st0 a)" for a
    using snap_lookup [OF inv] by (simp add: apply_blobs_bytes apply_balances_bytes split: option.split)
  ultimately show ?thesis using from_state_encodes [OF assms, of now h anchor] by auto
qed

text \<open>
  A snapshot restores what it captured: capturing a state and restoring the snapshot into any
  other state succeeds, counts every entry, and afterwards every address the captured state has an
  entry or a blob for has its balance and its blob; every other address keeps what it had.
\<close>

theorem snapshot_round_trip:
  assumes "snapshotable st"
  shows "\<exists>sn st'. StateSnapshot_from_state now st h anchor = Some sn \<and>
    StateSnapshot_restore_into_state sn st0 =
      (Inr (length (State_entries st) + length (State_bytes_entries st)), st') \<and>
    (\<forall>a. bal st' a = (if a \<in> fst ` set (State_entries st) then bal st a else bal st0 a)) \<and>
    (\<forall>a. State_bytes_of st' a = (case State_bytes_of st a of Some d \<Rightarrow> Some d | None \<Rightarrow> State_bytes_of st0 a))"
  by (rule capture_restores [OF assms])

definition snap_example :: State where
  "snap_example = State_apply (State_apply State_default (SetBalance (addr_of 1) (Balance 10)))
     (SetBytes (addr_of 2) [7, 8])"

lemma snap_example_ok: "snapshotable snap_example"
proof -
  have "State_entries snap_example = [(addr_of 1, BalanceSlot_new 10)]"
    "State_bytes_entries snap_example = [(addr_of 2, [7, 8])]"
    by (simp_all add: snap_example_def State_apply.simps State_default_def State_entries_def
        State_bytes_entries_def InMemory_defs)
  moreover have "State_invar snap_example" by (simp add: snap_example_def)
  ultimately show ?thesis by (simp add: snapshotable_def)
qed

theorem snapshot_round_trip_witness:
  "\<exists>sn st'. StateSnapshot_from_state 5 snap_example 3 None = Some sn \<and>
    fst (StateSnapshot_restore_into_state sn State_default) = Inr 2 \<and>
    snd (StateSnapshot_restore_into_state sn State_default) = st' \<and>
    bal st' (addr_of 1) = 10 \<and> State_bytes_of st' (addr_of 2) = Some [7, 8]"
proof -
  have es: "State_entries snap_example = [(addr_of 1, BalanceSlot_new 10)]"
    "State_bytes_entries snap_example = [(addr_of 2, [7, 8])]"
    by (simp_all add: snap_example_def State_apply.simps State_default_def State_entries_def
        State_bytes_entries_def InMemory_defs)
  have "bal snap_example (addr_of 1) = 10" "State_bytes_of snap_example (addr_of 2) = Some [7, 8]"
    by (simp_all add: snap_example_def)
  with snapshot_round_trip [OF snap_example_ok, of 5 3 None State_default] es show ?thesis
    by (auto simp: numeral_eq_Suc)
qed

text \<open>
  The V2 format is canonical: the parser accepts a body only if it is the encoding of what it
  returns, so it rejects every truncation, every trailing byte and every wrong count, and no two
  bodies decode to the same contents.
\<close>

theorem snapshot_format_canonical:
  assumes "parse_v2_body enc = Inr d"
  shows "drop 8 enc = encode_body d \<and> parse_v2_body (take 8 enc @ encode_body d) = Inr d"
  using parse_body_canonical [OF assms] assms by (metis append_take_drop_id)

theorem snapshot_format_canonical_witness:
  "let enc = SNAPSHOT_MAGIC_V2 @ encode_body (snap_body snap_example) in
   drop 8 enc = encode_body (snap_body snap_example) \<and>
   parse_v2_body (take 8 enc @ encode_body (snap_body snap_example)) = Inr (snap_body snap_example)"
proof -
  have "parse_v2_body (SNAPSHOT_MAGIC_V2 @ encode_body (snap_body snap_example)) = Inr (snap_body snap_example)"
    by (rule parse_encode_body [OF snap_body_wf [OF snap_example_ok]]) simp
  from snapshot_format_canonical [OF this] show ?thesis by (simp add: Let_def)
qed

text \<open>
  The structural check done when a snapshot file is read is exact: it succeeds if and only if
  restoring the snapshot succeeds, into any state, and a failing restore leaves the state alone. The
  counters agree with it: the entry count is there exactly for snapshots that restore.
\<close>

lemma validate_restores:
  "(StateSnapshot_validate_encoding sn = Inr () \<longleftrightarrow> (\<exists>n. fst (StateSnapshot_restore_into_state sn st) = Inr n)) \<and>
   (\<exists>n. fst (StateSnapshot_restore_into_state sn st) = Inr n) = (StateSnapshot_entry_count sn \<noteq> None) \<and>
   (case StateSnapshot_restore_into_state sn st of (Inl e, st') \<Rightarrow> st' = st | (Inr n, st') \<Rightarrow> True)"
proof -
  have "take 8 (encoded_state sn) = SNAPSHOT_MAGIC_V2 \<Longrightarrow> take 8 (encoded_state sn) \<noteq> SNAPSHOT_MAGIC_V1" by simp
  then show ?thesis
    by (cases "parse_v2_body (encoded_state sn)")
      (auto simp: StateSnapshot_validate_encoding_def StateSnapshot_restore_into_state_def
        StateSnapshot_entry_count_def Let_def)
qed

text \<open>The sorted columns of observably equal states are equal.\<close>

lemma sorted_entries_unique:
  assumes "distinct (map fst es)" "distinct (map fst es')" "set es = set es'"
  shows "sort_key (\<lambda>e. addr_bytes (fst e)) es = sort_key (\<lambda>e. addr_bytes (fst e)) es'"
proof (rule map_sorted_distinct_set_unique)
  have inj: "inj_on (\<lambda>e. addr_bytes (fst e)) (set xs)" if "distinct (map fst xs)" for xs :: "(Address \<times> 'a) list"
    using that by (auto simp: distinct_map inj_on_def intro: Address.expand)
  show "inj_on (\<lambda>e. addr_bytes (fst e)) (set (sort_key (\<lambda>e. addr_bytes (fst e)) es) \<union> set (sort_key (\<lambda>e. addr_bytes (fst e)) es'))"
    using inj [OF assms(1)] assms(3) by simp
  show "distinct (map (\<lambda>e. addr_bytes (fst e)) (sort_key (\<lambda>e. addr_bytes (fst e)) es))"
    using inj [OF assms(1)] assms(1) by (simp add: distinct_map)
  show "distinct (map (\<lambda>e. addr_bytes (fst e)) (sort_key (\<lambda>e. addr_bytes (fst e)) es'))"
    using inj [OF assms(2)] assms(2) by (simp add: distinct_map)
qed (simp_all add: assms(3))

text \<open>
  A snapshot is independent of iteration order: two states with the same entries and blobs, in
  whatever order their stores iterate them, encode to the same bytes.
\<close>

theorem snapshot_order_independent:
  assumes "snapshotable st" "snapshotable st'"
    and "set (State_entries st) = set (State_entries st')" "set (State_bytes_entries st) = set (State_bytes_entries st')"
  shows "StateSnapshot_from_state now st h anchor = StateSnapshot_from_state now st' h anchor"
proof -
  have dist: "distinct (map fst (State_entries s))" "distinct (map fst (State_bytes_entries s))" if "snapshotable s" for s
    using that by (simp_all add: snapshotable_def State_invar_def InMemory_invar_def State_entries_def InMemory_entries_def
        State_bytes_entries_def InMemory_bytes_entries_def hm_invar_distinct bt_invar_distinct)
  have "snap_body st = snap_body st'"
    using sorted_entries_unique [OF dist(1) [OF assms(1)] dist(1) [OF assms(2)] assms(3)]
      sorted_entries_unique [OF dist(2) [OF assms(1)] dist(2) [OF assms(2)] assms(4)]
    by (simp add: snap_body_def snap_balances_def snap_blobs_def)
  with assms(1,2) show ?thesis by (simp add: from_state_encodes)
qed

theorem snapshot_order_independent_witness:
  "let ca = SetBalance (addr_of 1) (Balance 5); cb = SetBalance (addr_of 2) (Balance 7);
       st = State_apply (State_apply State_default ca) cb;
       st' = State_apply (State_apply State_default cb) ca
   in State_entries st \<noteq> State_entries st' \<and>
      StateSnapshot_from_state 5 st 3 None = StateSnapshot_from_state 5 st' 3 None"
proof -
  let ?ca = "SetBalance (addr_of 1) (Balance 5)" and ?cb = "SetBalance (addr_of 2) (Balance 7)"
  let ?st = "State_apply (State_apply State_default ?ca) ?cb"
  let ?st' = "State_apply (State_apply State_default ?cb) ?ca"
  have es: "State_entries ?st = [(addr_of 1, BalanceSlot_new 5), (addr_of 2, BalanceSlot_new 7)]"
    "State_entries ?st' = [(addr_of 2, BalanceSlot_new 7), (addr_of 1, BalanceSlot_new 5)]"
    "State_bytes_entries ?st = []" "State_bytes_entries ?st' = []"
    by (simp_all add: State_apply.simps State_default_def State_entries_def State_bytes_entries_def InMemory_defs)
  have "snapshotable ?st" "snapshotable ?st'" by (simp_all add: snapshotable_def es)
  from snapshot_order_independent [OF this, of 5 3 None] show ?thesis
    by (simp add: Let_def es insert_commute)
qed

text \<open>
  Nonces do not survive: whatever nonce an account of the captured state has, it is zero in a
  restored state.
\<close>

theorem snapshot_drops_nonces:
  assumes "snapshotable st" "a \<in> fst ` set (State_entries st)"
    and "StateSnapshot_from_state now st h anchor = Some sn"
  shows "nonce (State_slot_of (snd (StateSnapshot_restore_into_state sn st0)) a) = AccountNonce_default"
proof -
  have slot: "State_slot_of (apply_blobs es s) b = State_slot_of s b" for es s b
    by (induction es arbitrary: s)
      (auto simp: apply_blobs_def State_apply.simps State_slot_of_def InMemory_get_def InMemory_set_bytes_def)
  have reset: "b \<in> fst ` set es \<or> nonce (State_slot_of s b) = AccountNonce_default \<Longrightarrow>
    nonce (State_slot_of (apply_balances es s) b) = AccountNonce_default" for es s b
    by (induction es arbitrary: s) (auto simp: apply_balances_def slot_apply)
  from assms(1,3) have "encoded_state sn = SNAPSHOT_MAGIC_V2 @ encode_body (snap_body st)"
    by (auto simp: from_state_encodes StateSnapshot_new_def)
  from restore_v2 [OF this snap_body_wf [OF assms(1)], of st0] show ?thesis
    using assms(2) by (force simp: slot snap_body_def snap_balances_def intro!: reset)
qed

theorem snapshot_drops_nonces_witness:
  "let st = \<lparr>store = \<lparr>slots = [(addr_of 1, BalanceSlot_with_nonce 10 (AccountNonce_new 4))], bytes_col = []\<rparr>\<rparr>
   in nonce (State_slot_of st (addr_of 1)) \<noteq> AccountNonce_default \<and>
      (\<exists>sn. StateSnapshot_from_state 5 st 3 None = Some sn \<and>
         nonce (State_slot_of (snd (StateSnapshot_restore_into_state sn State_default)) (addr_of 1)) = AccountNonce_default)"
proof -
  let ?st = "\<lparr>store = \<lparr>slots = [(addr_of 1, BalanceSlot_with_nonce 10 (AccountNonce_new 4))], bytes_col = []\<rparr>\<rparr>"
  have es: "State_entries ?st = [(addr_of 1, BalanceSlot_with_nonce 10 (AccountNonce_new 4))]" "State_bytes_entries ?st = []"
    by (simp_all add: State_entries_def State_bytes_entries_def InMemory_defs)
  have ok: "snapshotable ?st"
    by (simp add: snapshotable_def es State_invar_def InMemory_invar_def hm_invar_def)
  obtain sn where sn: "StateSnapshot_from_state 5 ?st 3 None = Some sn" using from_state_encodes [OF ok] by blast
  have "nonce (State_slot_of ?st (addr_of 1)) \<noteq> AccountNonce_default"
    by (simp add: State_slot_of_def InMemory_get_def map_get_Cons BalanceSlot_with_nonce_def AccountNonce_new_def AccountNonce_default_def)
  with snapshot_drops_nonces [OF ok _ sn, of "addr_of 1" State_default] sn show ?thesis by (simp add: es Let_def)
qed

end
