(* ===== verification/Json_Rpc.thy ===== *)
theory Json_Rpc
  imports Accounts
begin

text \<open>
  What the components that speak JSON-RPC share: the HTTP client and the \<open>serde_json\<close> and \<open>hex\<close> crates as
  parameters, with their documented behaviour as predicates and a concrete instance of each, and the string operations of
  the standard library they use. A string is the list of its UTF-8 bytes.
\<close>

section \<open>Strings\<close>

text \<open>\<open>&s[n..]\<close>: a panic when the index is past the end or inside a character.\<close>

definition continuation_byte :: "char \<Rightarrow> bool" where
  "continuation_byte c \<longleftrightarrow> (128::nat) \<le> of_char c \<and> of_char c < (192::nat)"

definition slice_from :: "nat \<Rightarrow> string \<Rightarrow> string option" where
  "slice_from n s =
     (if length s < n then None
      else if n < length s \<and> continuation_byte (s ! n) then None
      else Some (drop n s))"

text \<open>No byte of the string is inside a multi-byte character.\<close>

definition hex_ascii :: "string \<Rightarrow> bool" where
  "hex_ascii s \<longleftrightarrow> (\<forall>c \<in> set s. \<not> continuation_byte c)"

lemma slice_hex: "hex_ascii s \<Longrightarrow> slice_from 2 (''0x'' @ s) = Some s"
  by (cases s) (auto simp: slice_from_def hex_ascii_def)

section \<open>Crates\<close>

record 'v json =
  j_str :: "string \<Rightarrow> 'v"
  j_int :: "int \<Rightarrow> 'v"
  j_arr :: "'v list \<Rightarrow> 'v"
  j_obj :: "(string \<times> 'v) list \<Rightarrow> 'v"
  j_as_str :: "'v \<Rightarrow> string option"
  j_as_u64 :: "'v \<Rightarrow> u64 option"
  j_as_array :: "'v \<Rightarrow> 'v list option"
  j_get :: "'v \<Rightarrow> string \<Rightarrow> 'v option"
  j_show :: "'v \<Rightarrow> string"

record hex_crate =
  hex_encode :: "bytes \<Rightarrow> string"
  hex_decode :: "string \<Rightarrow> string + bytes"

text \<open>
  The HTTP client posts a payload to a URL in a network state: an error of the request, an error of the
  body, or the parsed value.
\<close>

datatype http_error = SendFailed string | BodyInvalid string

type_synonym ('n, 'v) http_post = "'n \<Rightarrow> string \<Rightarrow> 'v \<Rightarrow> (http_error + 'v) \<times> 'n"

text \<open>Values read back as what they were built from; a field of an object is found by its name.\<close>

definition json_ok :: "'v json \<Rightarrow> bool" where
  "json_ok J \<longleftrightarrow>
     (\<forall>s. j_as_str J (j_str J s) = Some s) \<and>
     (\<forall>n. j_as_str J (j_int J n) = None) \<and>
     (\<forall>w. j_as_u64 J (j_int J (uint w)) = Some w) \<and>
     (\<forall>s. j_as_u64 J (j_str J s) = None) \<and>
     (\<forall>vs. j_as_array J (j_arr J vs) = Some vs) \<and>
     (\<forall>fs k. distinct (map fst fs) \<longrightarrow> j_get J (j_obj J fs) k = map_of fs k)"

text \<open>Two ASCII digits per byte, decoding inverts encoding, and a string of odd length is an error.\<close>

definition hex_ok :: "hex_crate \<Rightarrow> bool" where
  "hex_ok X \<longleftrightarrow>
     (\<forall>bs. hex_decode X (hex_encode X bs) = Inr bs) \<and>
     (\<forall>bs. length (hex_encode X bs) = 2 * length bs) \<and>
     (\<forall>bs. hex_ascii (hex_encode X bs)) \<and>
     (\<forall>s bs. hex_decode X s = Inr bs \<longrightarrow> length s = 2 * length bs)"

lemma hex_okD:
  assumes "hex_ok X"
  shows "hex_decode X (hex_encode X bs) = Inr bs" "length (hex_encode X bs) = 2 * length bs"
    and "hex_decode X s = Inr bs \<Longrightarrow> length s = 2 * length bs" "hex_ascii (hex_encode X bs)"
  using assms by (auto simp: hex_ok_def)

lemma json_okD:
  assumes "json_ok J"
  shows "j_as_str J (j_str J s) = Some s" "j_as_str J (j_int J n) = None" "j_as_u64 J (j_int J (uint w)) = Some w"
    and "j_as_u64 J (j_str J s) = None" "j_as_array J (j_arr J vs) = Some vs"
    and "distinct (map fst fs) \<Longrightarrow> j_get J (j_obj J fs) k = map_of fs k"
  using assms by (auto simp: json_ok_def)

lemma hex_odd_rejected:
  assumes "hex_ok X" "odd (length s)"
  obtains e where "hex_decode X s = Inl e"
  using assms hex_okD(3) [OF assms(1), of s] by (cases "hex_decode X s") auto

section \<open>Formatting\<close>

text \<open>The hexadecimal formats \<open>{:02x}\<close> and \<open>{:064x}\<close>.\<close>

definition hex_padded :: "nat \<Rightarrow> nat \<Rightarrow> string" where
  "hex_padded width n = (let ds = digits 16 n in replicate (width - length ds) (CHR ''0'') @ ds)"

definition hex_lower :: "bytes \<Rightarrow> string" where
  "hex_lower bs = concat (map (\<lambda>b. hex_padded 2 (unat b)) bs)"

section \<open>Concrete instances\<close>

datatype toy_value = TStr string | TInt int | TArr "toy_value list" | TObj "(string \<times> toy_value) list"

definition toy_json :: "toy_value json" where
  "toy_json =
     \<lparr>j_str = TStr, j_int = TInt, j_arr = TArr, j_obj = TObj,
      j_as_str = \<lambda>v. case v of TStr s \<Rightarrow> Some s | _ \<Rightarrow> None,
      j_as_u64 = \<lambda>v. case v of TInt n \<Rightarrow> if 0 \<le> n \<and> n < 2 ^ 64 then Some (word_of_int n) else None | _ \<Rightarrow> None,
      j_as_array = \<lambda>v. case v of TArr vs \<Rightarrow> Some vs | _ \<Rightarrow> None,
      j_get = \<lambda>v k. case v of TObj fs \<Rightarrow> map_of fs k | _ \<Rightarrow> None,
      j_show = \<lambda>_. []\<rparr>"

lemma toy_json_ok: "json_ok toy_json"
proof -
  have "uint w < 2 ^ 64" for w :: u64 using uint_bounded [of w] by simp
  then show ?thesis by (auto simp: json_ok_def toy_json_def)
qed

definition nibble :: "char \<Rightarrow> nat option" where
  "nibble c =
     (let n = of_char c in
      if 48 \<le> n \<and> n < 58 then Some (n - 48)
      else if 97 \<le> n \<and> n < 103 then Some (n - 87)
      else if 65 \<le> n \<and> n < 71 then Some (n - 55) else None)"

fun toy_hex_decode :: "string \<Rightarrow> string + bytes" where
  "toy_hex_decode [] = Inr []"
| "toy_hex_decode [c] = Inl ''Odd number of digits''"
| "toy_hex_decode (c # d # s) =
     (case (nibble c, nibble d, toy_hex_decode s) of
        (Some x, Some y, Inr bs) \<Rightarrow> Inr (word_of_nat (16 * x + y) # bs)
      | (_, _, Inl e) \<Rightarrow> Inl e
      | _ \<Rightarrow> Inl ''Invalid character'')"

definition toy_hex :: hex_crate where
  "toy_hex =
     \<lparr>hex_encode = \<lambda>bs. concat (map (\<lambda>b. [digit_char (unat b div 16), digit_char (unat b mod 16)]) bs),
      hex_decode = toy_hex_decode\<rparr>"

lemma digit_char_code:
  assumes "d < 16"
  shows "of_char (digit_char d) = (if d < 10 then 48 + d else 87 + d)"
  using assms by (simp add: digit_char_def of_char_of)

lemma digit_char_ascii: "d < 16 \<Longrightarrow> \<not> continuation_byte (digit_char d)"
  by (simp add: continuation_byte_def digit_char_code)

lemma nibble_digit:
  assumes "d < 16"
  shows "nibble (digit_char d) = Some d"
  using assms by (auto simp: nibble_def digit_char_code Let_def)

lemma toy_decode_length: "toy_hex_decode s = Inr bs \<Longrightarrow> length s = 2 * length bs"
  by (induction s arbitrary: bs rule: toy_hex_decode.induct) (auto split: option.splits sum.splits)

lemma toy_hex_ok: "hex_ok toy_hex"
proof -
  have high: "unat (b :: u8) div 16 < 16" for b
    using unsigned_less [of b, where 'a = nat] by (simp add: less_mult_imp_div_less)
  then have "hex_decode toy_hex (hex_encode toy_hex bs) = Inr bs" for bs
    by (induction bs) (simp_all add: toy_hex_def nibble_digit)
  moreover have "length (hex_encode toy_hex bs) = 2 * length bs" for bs
    by (induction bs) (simp_all add: toy_hex_def)
  moreover have "hex_ascii (hex_encode toy_hex bs)" for bs
    using high digit_char_ascii by (auto simp: toy_hex_def hex_ascii_def)
  moreover have "hex_decode toy_hex s = Inr bs \<Longrightarrow> length s = 2 * length bs" for s bs
    by (simp add: toy_hex_def toy_decode_length)
  ultimately show ?thesis by (simp add: hex_ok_def)
qed

end
