(* ===== verification/Snapshot_Files.thy ===== *)
theory Snapshot_Files
  imports Snapshot Json_Rpc
begin

text \<open>
  Snapshots on disk (\<open>state/src/snapshot.rs\<close>): writing and reading the JSON envelope, the metadata document and the
  file names of the manager. The file system and the derived JSON form of a snapshot are parameters; what is used
  of them is that a file reads as it was written and that a document reads as the snapshot it was made from.
\<close>

section \<open>Files\<close>

record 'fs files =
  fs_write :: "'fs \<Rightarrow> string \<Rightarrow> bytes \<Rightarrow> (string + unit) \<times> 'fs"
  fs_read :: "'fs \<Rightarrow> string \<Rightarrow> string + bytes"

record snapshot_serde =
  to_vec_pretty :: "StateSnapshot \<Rightarrow> string + bytes"
  from_slice :: "bytes \<Rightarrow> string + StateSnapshot"

definition files_ok :: "'fs files \<Rightarrow> bool" where
  "files_ok F \<longleftrightarrow> (\<forall>fs p bs fs'. fs_write F fs p bs = (Inr (), fs') \<longrightarrow> fs_read F fs' p = Inr bs)"

definition serde_ok :: "snapshot_serde \<Rightarrow> bool" where
  "serde_ok S \<longleftrightarrow> (\<forall>sn bs. to_vec_pretty S sn = Inr bs \<longrightarrow> from_slice S bs = Inr sn)"

datatype SnapshotFileError =
    SerializeError string | WriteError string | ReadError string | DeserializeError string | EncodingError SnapshotError

definition StateSnapshot_write_to_file ::
  "'fs files \<Rightarrow> snapshot_serde \<Rightarrow> 'fs \<Rightarrow> StateSnapshot \<Rightarrow> string \<Rightarrow> (SnapshotFileError + unit) \<times> 'fs" where
  "StateSnapshot_write_to_file F S fs sn file =
     (case to_vec_pretty S sn of
        Inl e \<Rightarrow> (Inl (SerializeError e), fs)
      | Inr bs \<Rightarrow> (case fs_write F fs file bs of
          (Inl e, fs') \<Rightarrow> (Inl (WriteError e), fs')
        | (Inr _, fs') \<Rightarrow> (Inr (), fs')))"

definition StateSnapshot_read_from_file ::
  "'fs files \<Rightarrow> snapshot_serde \<Rightarrow> 'fs \<Rightarrow> string \<Rightarrow> SnapshotFileError + StateSnapshot" where
  "StateSnapshot_read_from_file F S fs file =
     (case fs_read F fs file of
        Inl e \<Rightarrow> Inl (ReadError e)
      | Inr bs \<Rightarrow> (case from_slice S bs of
          Inl e \<Rightarrow> Inl (DeserializeError e)
        | Inr sn \<Rightarrow> (case StateSnapshot_validate_encoding sn of
            Inl e \<Rightarrow> Inl (EncodingError e)
          | Inr _ \<Rightarrow> Inr sn)))"

section \<open>Metadata and names\<close>

text \<open>The optional field is null when it is absent; \<open>j_null\<close> is the null value of the JSON crate.\<close>

definition StateSnapshot_to_metadata_json :: "'v json \<Rightarrow> 'v \<Rightarrow> hex_crate \<Rightarrow> StateSnapshot \<Rightarrow> 'v" where
  "StateSnapshot_to_metadata_json J j_null X sn =
     j_obj J [(''height'', j_int J (uint (sn_height sn))),
              (''state_root'', j_str J (''0x'' @ hex_encode X (com_bytes (sn_state_root sn)))),
              (''timestamp'', j_int J (uint (timestamp sn))),
              (''size_bytes'', j_int J (int (StateSnapshot_size_bytes sn))),
              (''anchor_hash'', case anchor_hash sn of None \<Rightarrow> j_null | Some h \<Rightarrow> j_str J (''0x'' @ hex_encode X h))]"

definition SnapshotManager_snapshot_filename :: "hex_crate \<Rightarrow> u64 \<Rightarrow> Commitment \<Rightarrow> string" where
  "SnapshotManager_snapshot_filename X height root =
     (let root_hex = hex_encode X (take 8 (com_bytes root)); ds = to_decimal (unat height)
      in ''snapshot-'' @ replicate (6 - length ds) (CHR ''0'') @ ds @ ''-'' @ root_hex @ ''.json'')"

definition SnapshotManager_default :: SnapshotManager where
  "SnapshotManager_default = SnapshotManager_new ''/tmp/suwappudb-snapshots'' 1000"

text \<open>The derived fields are read back from the metadata document.\<close>

lemma metadata_fields:
  assumes "json_ok J"
  shows "j_get J (StateSnapshot_to_metadata_json J j_null X sn) ''height'' = Some (j_int J (uint (sn_height sn)))"
    "j_get J (StateSnapshot_to_metadata_json J j_null X sn) ''size_bytes'' = Some (j_int J (int (StateSnapshot_size_bytes sn)))"
  by (simp_all add: StateSnapshot_to_metadata_json_def json_okD(6) [OF assms])

section \<open>The whole way\<close>

text \<open>
  C27: a state survives on disk. If a captured snapshot, with any root stamped on it, is written
  without error, reading the file gives that snapshot, and restoring it into any state succeeds,
  counts every entry, and gives every captured address its balance and blob while every other
  address keeps what it had. Whatever file is read without error can be restored.
\<close>

theorem snapshot_file_round_trip:
  assumes "files_ok F" "serde_ok S" "snapshotable st" "StateSnapshot_from_state now st h anchor = Some sn"
    and "StateSnapshot_write_to_file F S fs (StateSnapshot_with_state_root sn root) file = (Inr (), fs')"
  shows "(\<exists>st'. StateSnapshot_read_from_file F S fs' file = Inr (StateSnapshot_with_state_root sn root) \<and>
      StateSnapshot_restore_into_state (StateSnapshot_with_state_root sn root) st0 =
        (Inr (length (State_entries st) + length (State_bytes_entries st)), st') \<and>
      (\<forall>a. bal st' a = (if a \<in> fst ` set (State_entries st) then bal st a else bal st0 a)) \<and>
      (\<forall>a. State_bytes_of st' a = (case State_bytes_of st a of Some d \<Rightarrow> Some d | None \<Rightarrow> State_bytes_of st0 a))) \<and>
    (\<forall>p sn2. StateSnapshot_read_from_file F S fs' p = Inr sn2 \<longrightarrow> (\<exists>n. fst (StateSnapshot_restore_into_state sn2 st0) = Inr n))"
proof -
  let ?sn = "StateSnapshot_with_state_root sn root"
  from assms(5) obtain bs where bs: "to_vec_pretty S ?sn = Inr bs" "fs_write F fs file bs = (Inr (), fs')"
    by (auto simp: StateSnapshot_write_to_file_def split: sum.splits prod.splits)
  have stored: "fs_read F fs' file = Inr bs" "from_slice S bs = Inr ?sn"
    using assms(1,2) bs by (auto simp: files_ok_def serde_ok_def)
  obtain st' where st': "StateSnapshot_restore_into_state ?sn st0 = (Inr (length (State_entries st) + length (State_bytes_entries st)), st')"
    "\<forall>a. bal st' a = (if a \<in> fst ` set (State_entries st) then bal st a else bal st0 a)"
    "\<forall>a. State_bytes_of st' a = (case State_bytes_of st a of Some d \<Rightarrow> Some d | None \<Rightarrow> State_bytes_of st0 a)"
    using capture_restores [OF assms(3), of now h anchor st0] assms(4)
    by (auto simp: StateSnapshot_restore_into_state_def StateSnapshot_with_state_root_def)
  then have "StateSnapshot_validate_encoding ?sn = Inr ()" using validate_restores [of ?sn st0] by simp
  then have "StateSnapshot_read_from_file F S fs' file = Inr ?sn" by (simp add: StateSnapshot_read_from_file_def stored)
  moreover have "\<exists>n. fst (StateSnapshot_restore_into_state sn2 st0) = Inr n" if "StateSnapshot_read_from_file F S fs' p = Inr sn2" for p sn2
    using that validate_restores [of sn2 st0] by (auto simp: StateSnapshot_read_from_file_def split: sum.splits)
  ultimately show ?thesis using st' by blast
qed

text \<open>Files as a map, and one byte string per snapshot.\<close>

definition map_files :: "(string \<Rightarrow> bytes option) files" where
  "map_files = \<lparr>fs_write = (\<lambda>fs p bs. (Inr (), fs(p \<mapsto> bs))),
                fs_read = (\<lambda>fs p. case fs p of None \<Rightarrow> Inl ''not found'' | Some bs \<Rightarrow> Inr bs)\<rparr>"

lemma map_files_ok: "files_ok map_files"
  by (auto simp: files_ok_def map_files_def)

definition plain_serde :: snapshot_serde where
  "plain_serde =
     \<lparr>to_vec_pretty = (\<lambda>sn. if length (com_bytes (sn_state_root sn)) = 32 \<and> anchor_hash sn = None
        then Inr (to_le_bytes (sn_height sn) @ to_le_bytes (timestamp sn) @ com_bytes (sn_state_root sn) @ encoded_state sn)
        else Inl ''unsupported''),
      from_slice = (\<lambda>bs. Inr \<lparr>sn_height = from_le_bytes (take 8 bs), sn_state_root = Commitment (take 32 (drop 16 bs)),
         encoded_state = drop 48 bs, timestamp = from_le_bytes (take 8 (drop 8 bs)), anchor_hash = None\<rparr>)\<rparr>"

lemma plain_serde_ok: "serde_ok plain_serde"
  by (auto simp: serde_ok_def plain_serde_def from_to_le_bytes split: if_splits)

theorem snapshot_file_round_trip_witness:
  "\<exists>sn fs' st'. StateSnapshot_from_state 5 snap_example 3 None = Some sn \<and>
     StateSnapshot_write_to_file map_files plain_serde Map.empty (StateSnapshot_with_state_root sn (Commitment (replicate 32 9))) ''s''
       = (Inr (), fs') \<and>
     StateSnapshot_read_from_file map_files plain_serde fs' ''s'' = Inr (StateSnapshot_with_state_root sn (Commitment (replicate 32 9))) \<and>
     snd (StateSnapshot_restore_into_state (StateSnapshot_with_state_root sn (Commitment (replicate 32 9))) State_default) = st' \<and>
     bal st' (addr_of 1) = 10"
proof -
  obtain sn where sn: "StateSnapshot_from_state 5 snap_example 3 None = Some sn" "anchor_hash sn = None"
    using from_state_encodes [OF snap_example_ok, of 5 3 None] by (simp add: StateSnapshot_new_def)
  then obtain fs' where wr: "StateSnapshot_write_to_file map_files plain_serde Map.empty
      (StateSnapshot_with_state_root sn (Commitment (replicate 32 9))) ''s'' = (Inr (), fs')"
    by (simp add: StateSnapshot_write_to_file_def plain_serde_def map_files_def StateSnapshot_with_state_root_def)
  have "addr_of 1 \<in> fst ` set (State_entries snap_example)"
    by (simp add: snap_example_def State_apply.simps State_default_def State_entries_def InMemory_defs)
  moreover have "bal snap_example (addr_of 1) = 10" by (simp add: snap_example_def)
  moreover note snapshot_file_round_trip [OF map_files_ok plain_serde_ok snap_example_ok sn(1) wr, of State_default]
  ultimately show ?thesis using sn(1) wr by force
qed

end
