(* ===== verification/Dag.thy ===== *)
theory Dag
  imports Prelude "HOL-Library.While_Combinator"
begin

text \<open>
  The DAG store of \<open>suwappudb-state/src/dag.rs\<close>: blocks that name any earlier blocks as parents, a
  children index kept beside them, breadth-first searches along both, and the structural check with
  its depth-first cycle detection. The searches are loops over a queue (\<open>while_option\<close>); that they
  return is proved in theory \<open>Dag_Search\<close>. The depth-first search threads the visited set and the
  recursion stack through its recursive calls and comes with its termination proof. Error messages
  are constructors of \<open>DagError\<close>.
\<close>

section \<open>Blocks and the store\<close>

type_synonym DagHash = bytes

record DagBlock =
  dag_height :: u64
  dag_state_root :: bytes
  parent_hashes :: "DagHash list"
  dag_timestamp :: u64

definition DagBlock_new :: "u64 \<Rightarrow> bytes \<Rightarrow> DagHash \<Rightarrow> u64 \<Rightarrow> DagBlock" where
  "DagBlock_new height root par timestamp =
     \<lparr>dag_height = height, dag_state_root = root, parent_hashes = [par], dag_timestamp = timestamp\<rparr>"

definition DagBlock_genesis :: "bytes \<Rightarrow> u64 \<Rightarrow> DagBlock" where
  "DagBlock_genesis root timestamp =
     \<lparr>dag_height = 0, dag_state_root = root, parent_hashes = [], dag_timestamp = timestamp\<rparr>"

record DagStore =
  dag_blocks :: "(DagHash, DagBlock) btree_map"
  dag_children :: "(DagHash, DagHash list) btree_map"

definition DagStore_new :: DagStore where
  "DagStore_new = \<lparr>dag_blocks = [], dag_children = []\<rparr>"

definition add_child :: "DagHash \<Rightarrow> DagHash \<Rightarrow> (DagHash, DagHash list) btree_map \<Rightarrow> (DagHash, DagHash list) btree_map" where
  "add_child hash par children =
     (let entry = (case map_get children par of None \<Rightarrow> [] | Some cs \<Rightarrow> cs)
      in bt_insert par (if hash \<in> set entry then entry else entry @ [hash]) children)"

definition DagStore_put :: "DagStore \<Rightarrow> DagHash \<Rightarrow> DagBlock \<Rightarrow> DagStore" where
  "DagStore_put s hash block =
     s\<lparr>dag_children := fold (add_child hash) (parent_hashes block) (dag_children s),
       dag_blocks := bt_insert hash block (dag_blocks s)\<rparr>"

definition DagStore_get :: "DagStore \<Rightarrow> DagHash \<Rightarrow> DagBlock option" where
  "DagStore_get s hash = map_get (dag_blocks s) hash"

definition DagStore_contains :: "DagStore \<Rightarrow> DagHash \<Rightarrow> bool" where
  "DagStore_contains s hash \<longleftrightarrow> map_get (dag_blocks s) hash \<noteq> None"

definition DagStore_len :: "DagStore \<Rightarrow> usize" where
  "DagStore_len s = length (dag_blocks s)"

definition DagStore_is_empty :: "DagStore \<Rightarrow> bool" where
  "DagStore_is_empty s \<longleftrightarrow> dag_blocks s = []"

definition DagStore_blocks_at_height :: "DagStore \<Rightarrow> u64 \<Rightarrow> (DagHash \<times> DagBlock) list" where
  "DagStore_blocks_at_height s height = filter (\<lambda>(_, b). dag_height b = height) (dag_blocks s)"

text \<open>\<open>max_by_key\<close> returns the last of the maximal elements.\<close>

definition max_by_height :: "(DagHash \<times> DagBlock) list \<Rightarrow> (DagHash \<times> DagBlock) option" where
  "max_by_height es =
     fold (\<lambda>e best. case best of None \<Rightarrow> Some e
                    | Some m \<Rightarrow> if dag_height (snd m) \<le> dag_height (snd e) then Some e else Some m) es None"

definition DagStore_max_height_block :: "DagStore \<Rightarrow> (DagHash \<times> DagBlock) option" where
  "DagStore_max_height_block s = max_by_height (dag_blocks s)"

definition DagStore_children_of :: "DagStore \<Rightarrow> DagHash \<Rightarrow> DagHash list" where
  "DagStore_children_of s par = (case map_get (dag_children s) par of None \<Rightarrow> [] | Some cs \<Rightarrow> cs)"

definition DagStore_tips :: "DagStore \<Rightarrow> DagHash list" where
  "DagStore_tips s = filter (\<lambda>h. DagStore_children_of s h = []) (map fst (dag_blocks s))"

text \<open>The parents a search follows: none for a hash that is not stored.\<close>

definition parents_of :: "DagStore \<Rightarrow> DagHash \<Rightarrow> DagHash list" where
  "parents_of s h = (case DagStore_get s h of None \<Rightarrow> [] | Some b \<Rightarrow> parent_hashes b)"

section \<open>Path search\<close>

record PathSearch =
  ps_queue :: "DagHash list"
  ps_visited :: "DagHash set"
  ps_parent_map :: "(DagHash, DagHash) hash_map"
  ps_found :: "DagHash option"

text \<open>
  The loop over the parents of \<open>current\<close>. Finding the target ends both loops: \<open>ps_found\<close> is then the
  block whose parent the target is.
\<close>

fun scan_parents :: "DagHash \<Rightarrow> DagHash \<Rightarrow> DagHash list \<Rightarrow> PathSearch \<Rightarrow> PathSearch" where
  "scan_parents target current [] st = st"
| "scan_parents target current (par # rest) st =
     (if par = target then st\<lparr>ps_found := Some current\<rparr>
      else if par \<notin> ps_visited st then
        scan_parents target current rest
          (st\<lparr>ps_visited := insert par (ps_visited st),
              ps_parent_map := hm_insert par current (ps_parent_map st),
              ps_queue := ps_queue st @ [par]\<rparr>)
      else scan_parents target current rest st)"

definition path_pending :: "PathSearch \<Rightarrow> bool" where
  "path_pending st \<longleftrightarrow> ps_found st = None \<and> ps_queue st \<noteq> []"

definition path_step :: "DagStore \<Rightarrow> DagHash \<Rightarrow> PathSearch \<Rightarrow> PathSearch" where
  "path_step s target st =
     (let current = hd (ps_queue st)
      in scan_parents target current (parents_of s current) (st\<lparr>ps_queue := tl (ps_queue st)\<rparr>))"

definition path_init :: "DagHash \<Rightarrow> PathSearch" where
  "path_init start = \<lparr>ps_queue = [start], ps_visited = {start}, ps_parent_map = [], ps_found = None\<rparr>"

text \<open>\<open>while let Some(&prev) = parent_map.get(&node)\<close>, with \<open>None\<close> for a loop that does not end.\<close>

partial_function (option) backtrack ::
  "(DagHash, DagHash) hash_map \<Rightarrow> DagHash list \<Rightarrow> DagHash \<Rightarrow> DagHash list option" where
  "backtrack parent_map path node =
     (case map_get parent_map node of
        None \<Rightarrow> Some path
      | Some prev \<Rightarrow> backtrack parent_map (path @ [node]) prev)"

declare backtrack.simps [code]

text \<open>The outer \<open>None\<close> stands for a search that does not return.\<close>

definition DagStore_find_path :: "DagStore \<Rightarrow> DagHash \<Rightarrow> DagHash \<Rightarrow> DagHash list option option" where
  "DagStore_find_path s start target =
     (if start = target then Some (Some [start])
      else case while_option path_pending (path_step s target) (path_init start) of
        None \<Rightarrow> None
      | Some st \<Rightarrow>
          (case ps_found st of
             None \<Rightarrow> Some None
           | Some current \<Rightarrow>
               map_option (\<lambda>path. Some (rev (path @ [start]))) (backtrack (ps_parent_map st) [target] current)))"

definition DagStore_is_reachable :: "DagStore \<Rightarrow> DagHash \<Rightarrow> DagHash \<Rightarrow> bool option" where
  "DagStore_is_reachable s start target = map_option (\<lambda>r. r \<noteq> None) (DagStore_find_path s start target)"

section \<open>Closures\<close>

record Closure =
  cl_queue :: "DagHash list"
  cl_visited :: "DagHash set"
  cl_out :: "DagHash list"

text \<open>\<open>if visited.insert(x) { queue.push_back(x) }\<close> for each \<open>x\<close>.\<close>

definition enqueue :: "DagHash list \<Rightarrow> Closure \<Rightarrow> Closure" where
  "enqueue xs c =
     fold (\<lambda>x c. if x \<in> cl_visited c then c
                 else c\<lparr>cl_visited := insert x (cl_visited c), cl_queue := cl_queue c @ [x]\<rparr>) xs c"

definition closure_step :: "(DagHash \<Rightarrow> DagHash list) \<Rightarrow> Closure \<Rightarrow> Closure" where
  "closure_step next c =
     (let current = hd (cl_queue c)
      in enqueue (next current) (c\<lparr>cl_queue := tl (cl_queue c), cl_out := cl_out c @ [current]\<rparr>))"

definition closure :: "(DagHash \<Rightarrow> DagHash list) \<Rightarrow> DagHash \<Rightarrow> DagHash list option" where
  "closure next start =
     map_option cl_out
       (while_option (\<lambda>c. cl_queue c \<noteq> []) (closure_step next)
         (enqueue (next start) \<lparr>cl_queue = [], cl_visited = {}, cl_out = []\<rparr>))"

definition DagStore_ancestors_of :: "DagStore \<Rightarrow> DagHash \<Rightarrow> DagHash list option" where
  "DagStore_ancestors_of s start = closure (parents_of s) start"

definition DagStore_descendants_of :: "DagStore \<Rightarrow> DagHash \<Rightarrow> DagHash list option" where
  "DagStore_descendants_of s start = closure (DagStore_children_of s) start"

section \<open>Cycle detection and validation\<close>

text \<open>
  The body of \<open>dfs_cycle\<close>: the loop over the parents of a node, given the visited set and the recursion
  stack. A parent that was not visited is marked and its own parents are searched.
\<close>

definition all_parents :: "DagStore \<Rightarrow> DagHash set" where
  "all_parents s = (\<Union>e \<in> set (dag_blocks s). set (parent_hashes (snd e)))"

lemma finite_all_parents [simp]: "finite (all_parents s)"
  by (simp add: all_parents_def)

lemma parents_of_subset: "set (parents_of s h) \<subseteq> all_parents s"
proof (cases "DagStore_get s h")
  case (Some b)
  then have "(h, b) \<in> set (dag_blocks s)" by (simp add: DagStore_get_def map_get_def map_of_SomeD)
  with Some show ?thesis by (force simp: parents_of_def all_parents_def)
qed (simp add: parents_of_def)

function dfs_parents :: "DagStore \<Rightarrow> DagHash list \<Rightarrow> DagHash set \<Rightarrow> DagHash set \<Rightarrow> bool \<times> DagHash set \<times> DagHash set" where
  "dfs_parents s [] visited rec_stack = (False, visited, rec_stack)"
| "dfs_parents s (par # rest) visited rec_stack =
     (if par \<notin> visited then
        case dfs_parents s (parents_of s par) (insert par visited) (insert par rec_stack) of
          (found, visited1, rec_stack1) \<Rightarrow>
            if found then (True, visited1, rec_stack1)
            else dfs_parents s rest visited1 (rec_stack1 - {par})
      else if par \<in> rec_stack then (True, visited, rec_stack)
      else dfs_parents s rest visited rec_stack)"
  by pat_completeness auto

text \<open>The visited set only grows, which the termination proof needs for the nested call.\<close>

lemma dfs_parents_grows:
  "dfs_parents_dom (s, ps, visited, rec_stack) \<Longrightarrow> visited \<subseteq> fst (snd (dfs_parents s ps visited rec_stack))"
proof (induction s ps visited rec_stack rule: dfs_parents.pinduct)
  case (1 s visited rec_stack)
  then show ?case by (simp add: dfs_parents.psimps)
next
  case (2 s par rest visited rec_stack)
  show ?case
  proof (cases "par \<notin> visited")
    case True
    obtain f v r where run: "dfs_parents s (parents_of s par) (insert par visited) (insert par rec_stack) = (f, v, r)"
      by (cases "dfs_parents s (parents_of s par) (insert par visited) (insert par rec_stack)")
    from 2(2) [OF True] run have "visited \<subseteq> v" by simp
    with 2(1) 2(3) [OF True run [symmetric] refl] True run show ?thesis
      by (auto simp: dfs_parents.psimps)
  next
    case False
    with 2(1) 2(4) show ?thesis by (auto simp: dfs_parents.psimps)
  qed
qed

definition dfs_universe :: "DagStore \<Rightarrow> DagHash list \<Rightarrow> DagHash set" where
  "dfs_universe s ps = set ps \<union> all_parents s"

termination dfs_parents
proof (relation "measures [\<lambda>(s, ps, visited, rec_stack). card (dfs_universe s ps - visited),
                           \<lambda>(s, ps, visited, rec_stack). length ps]", goal_cases)
  case (2 s par rest visited rec_stack)
  have "dfs_universe s (parents_of s par) - insert par visited \<subset> dfs_universe s (par # rest) - visited"
    using parents_of_subset [of s par] 2 by (auto simp: dfs_universe_def)
  then have "card (dfs_universe s (parents_of s par) - insert par visited) < card (dfs_universe s (par # rest) - visited)"
    by (intro psubset_card_mono) (simp_all add: dfs_universe_def)
  then show ?case by simp
next
  case (3 s par rest visited rec_stack found y v1 r1)
  from dfs_parents_grows [OF 3(5)] 3(2,3) have "visited \<subseteq> v1" by (metis fst_conv insert_subset snd_conv)
  then have "dfs_universe s rest - v1 \<subseteq> dfs_universe s (par # rest) - visited"
    by (auto simp: dfs_universe_def)
  then have "card (dfs_universe s rest - v1) \<le> card (dfs_universe s (par # rest) - visited)"
    by (intro card_mono) (simp_all add: dfs_universe_def)
  then show ?case by auto
next
  case (4 s par rest visited rec_stack)
  have "card (dfs_universe s rest - visited) \<le> card (dfs_universe s (par # rest) - visited)"
    by (intro card_mono) (auto simp: dfs_universe_def)
  then show ?case by auto
qed simp

definition DagStore_dfs_cycle :: "DagStore \<Rightarrow> DagHash \<Rightarrow> DagHash set \<Rightarrow> DagHash set \<Rightarrow> bool \<times> DagHash set \<times> DagHash set" where
  "DagStore_dfs_cycle s node visited rec_stack =
     (case dfs_parents s (parents_of s node) (insert node visited) (insert node rec_stack) of
        (found, visited1, rec_stack1) \<Rightarrow>
          if found then (True, visited1, rec_stack1) else (False, visited1, rec_stack1 - {node}))"

definition DagStore_has_cycle_from :: "DagStore \<Rightarrow> DagHash \<Rightarrow> bool" where
  "DagStore_has_cycle_from s start = fst (DagStore_dfs_cycle s start {} {})"

datatype DagError =
    MissingParent DagHash DagHash
  | HeightNotIncreasing u64 u64
  | CycleFrom DagHash

fun check_parents :: "DagStore \<Rightarrow> DagHash \<Rightarrow> DagBlock \<Rightarrow> DagHash list \<Rightarrow> DagError + unit" where
  "check_parents s hash block [] = Inr ()"
| "check_parents s hash block (par # rest) =
     (case DagStore_get s par of
        None \<Rightarrow> Inl (MissingParent hash par)
      | Some p \<Rightarrow>
          if dag_height p \<ge> dag_height block then Inl (HeightNotIncreasing (dag_height block) (dag_height p))
          else check_parents s hash block rest)"

fun check_blocks :: "DagStore \<Rightarrow> (DagHash \<times> DagBlock) list \<Rightarrow> DagError + unit" where
  "check_blocks s [] = Inr ()"
| "check_blocks s ((hash, block) # rest) =
     (case check_parents s hash block (parent_hashes block) of
        Inl e \<Rightarrow> Inl e
      | Inr _ \<Rightarrow> check_blocks s rest)"

definition DagStore_validate :: "DagStore \<Rightarrow> DagError + unit" where
  "DagStore_validate s =
     (case check_blocks s (dag_blocks s) of
        Inl e \<Rightarrow> Inl e
      | Inr _ \<Rightarrow> (case find (DagStore_has_cycle_from s) (map fst (dag_blocks s)) of
                    Some h \<Rightarrow> Inl (CycleFrom h)
                  | None \<Rightarrow> Inr ()))"

end
