(* ===== verification/Dag_Search.thy ===== *)
theory Dag_Search
  imports Dag
begin

text \<open>
  Correctness of the searches of theory \<open>Dag\<close> against reachability along the parent edges: the path
  search returns a shortest path or none if there is none, the closures are exactly the transitive
  ancestors and descendants, the cycle check is exact, and validation accepts exactly the stores whose
  parents exist at lower heights.
\<close>

section \<open>Edges and distances\<close>

definition parent_edges :: "DagStore \<Rightarrow> (DagHash \<times> DagHash) set" where
  "parent_edges s = {(h, p). p \<in> set (parents_of s h)}"

definition child_edges :: "DagStore \<Rightarrow> (DagHash \<times> DagHash) set" where
  "child_edges s = {(h, c). c \<in> set (DagStore_children_of s h)}"

fun walk :: "DagStore \<Rightarrow> DagHash list \<Rightarrow> bool" where
  "walk s (a # b # rest) \<longleftrightarrow> b \<in> set (parents_of s a) \<and> walk s (b # rest)"
| "walk s _ = True"

definition dist :: "DagStore \<Rightarrow> DagHash \<Rightarrow> DagHash \<Rightarrow> nat" where
  "dist s a b = (LEAST n. (a, b) \<in> parent_edges s ^^ n)"

lemma dist_relpow: "(a, b) \<in> (parent_edges s)\<^sup>* \<Longrightarrow> (a, b) \<in> parent_edges s ^^ dist s a b"
  unfolding dist_def by (rule LeastI_ex) (simp add: rtrancl_power)

lemma dist_le: "(a, b) \<in> parent_edges s ^^ n \<Longrightarrow> dist s a b \<le> n"
  unfolding dist_def by (rule Least_le)

lemma dist_refl [simp]: "dist s a a = 0"
  unfolding dist_def by (rule Least_eq_0) simp

lemma dist_edge:
  assumes "(a, b) \<in> (parent_edges s)\<^sup>*" "c \<in> set (parents_of s b)"
  shows "dist s a c \<le> Suc (dist s a b)"
proof (rule dist_le)
  show "(a, c) \<in> parent_edges s ^^ Suc (dist s a b)"
    using dist_relpow [OF assms(1)] assms(2) by (auto simp: parent_edges_def)
qed

lemma dist_pred:
  assumes "(a, c) \<in> (parent_edges s)\<^sup>*" "dist s a c = Suc n"
  obtains b where "(a, b) \<in> (parent_edges s)\<^sup>*" "dist s a b = n" "c \<in> set (parents_of s b)"
proof -
  from dist_relpow [OF assms(1)] assms(2) obtain b where
    b: "(a, b) \<in> parent_edges s ^^ n" "(b, c) \<in> parent_edges s" by auto
  then have reach: "(a, b) \<in> (parent_edges s)\<^sup>*" by (auto simp: rtrancl_power)
  have c: "c \<in> set (parents_of s b)" using b(2) by (simp add: parent_edges_def)
  from dist_edge [OF reach c] dist_le [OF b(1)] assms(2) have "dist s a b = n" by simp
  with reach c that show thesis by blast
qed

lemma walk_relpow: "walk s (a # xs) \<Longrightarrow> (a, last (a # xs)) \<in> parent_edges s ^^ length xs"
proof (induction xs arbitrary: a)
  case (Cons b xs)
  then have "(b, last (b # xs)) \<in> parent_edges s ^^ length xs" "(a, b) \<in> parent_edges s"
    by (simp_all add: parent_edges_def)
  then have "(a, last (b # xs)) \<in> parent_edges s ^^ Suc (length xs)" by (rule relpow_Suc_I2 [rotated])
  then show ?case by simp
qed simp

lemma walk_append: "walk s xs \<Longrightarrow> xs \<noteq> [] \<Longrightarrow> b \<in> set (parents_of s (last xs)) \<Longrightarrow> walk s (xs @ [b])"
  by (induction s xs rule: walk.induct) auto

section \<open>Path search\<close>

text \<open>What one scan of parents does.\<close>

lemma scan_found:
  "ps_found st = None \<Longrightarrow> target \<in> set ps \<Longrightarrow> ps_found (scan_parents target current ps st) = Some current"
  by (induction ps arbitrary: st) auto

lemma scan_keeps:
  "v \<in> ps_visited st \<Longrightarrow>
   map_get (ps_parent_map (scan_parents target current ps st)) v = map_get (ps_parent_map st) v"
  by (induction ps arbitrary: st) auto

lemma scan_not_found:
  assumes "ps_found st = None" "target \<notin> set ps"
  shows "\<exists>new pm. scan_parents target current ps st =
      \<lparr>ps_queue = ps_queue st @ new, ps_visited = ps_visited st \<union> set ps, ps_parent_map = pm, ps_found = None\<rparr> \<and>
    distinct new \<and> set new = set ps - ps_visited st \<and>
    (\<forall>v. map_get pm v = (if v \<in> set new then Some current else map_get (ps_parent_map st) v))"
  using assms
proof (induction ps arbitrary: st)
  case Nil
  then show ?case by (intro exI [of _ "[]"] exI [of _ "ps_parent_map st"]) simp
next
  case (Cons p ps)
  let ?st = "st\<lparr>ps_visited := insert p (ps_visited st), ps_parent_map := hm_insert p current (ps_parent_map st),
              ps_queue := ps_queue st @ [p]\<rparr>"
  show ?case
  proof (cases "p \<in> ps_visited st")
    case True
    with Cons.prems Cons.IH [of st] show ?thesis by (auto simp: insert_absorb)
  next
    case False
    from Cons.prems Cons.IH [of ?st] obtain new pm where
      r: "scan_parents target current ps ?st =
        \<lparr>ps_queue = ps_queue ?st @ new, ps_visited = ps_visited ?st \<union> set ps, ps_parent_map = pm, ps_found = None\<rparr>"
      and new: "distinct new" "set new = set ps - ps_visited ?st"
      and pm: "\<forall>v. map_get pm v = (if v \<in> set new then Some current else map_get (ps_parent_map ?st) v)"
      by auto
    from False Cons.prems r new pm show ?thesis
      by (intro exI [of _ "p # new"] exI [of _ pm]) auto
  qed
qed

text \<open>
  The invariant of the search while the target was not found: the queue is sorted by distance and
  spans at most two distances, everything visited and not queued has its parents visited, and the
  parent map records for every visited block but the first a block one step closer.
\<close>

definition path_inv :: "DagStore \<Rightarrow> DagHash \<Rightarrow> DagHash \<Rightarrow> PathSearch \<Rightarrow> bool" where
  "path_inv s start target st \<longleftrightarrow>
     ps_found st = None \<and> start \<in> ps_visited st \<and> target \<notin> ps_visited st \<and>
     finite (ps_visited st) \<and> distinct (ps_queue st) \<and> set (ps_queue st) \<subseteq> ps_visited st \<and>
     ps_visited st \<subseteq> {v. (start, v) \<in> (parent_edges s)\<^sup>*} \<and>
     (\<forall>v \<in> ps_visited st - set (ps_queue st). set (parents_of s v) \<subseteq> ps_visited st) \<and>
     sorted (map (dist s start) (ps_queue st)) \<and>
     (\<forall>q \<in> set (ps_queue st). dist s start q \<le> Suc (dist s start (hd (ps_queue st)))) \<and>
     map_get (ps_parent_map st) start = None \<and> dom (map_get (ps_parent_map st)) \<subseteq> ps_visited st \<and>
     (\<forall>v \<in> ps_visited st. v \<noteq> start \<longrightarrow>
        (\<exists>u. map_get (ps_parent_map st) v = Some u \<and> u \<in> ps_visited st \<and> v \<in> set (parents_of s u) \<and>
             dist s start v = Suc (dist s start u)))"

lemma path_inv_init: "start \<noteq> target \<Longrightarrow> path_inv s start target (path_init start)"
  by (simp add: path_inv_def path_init_def)

text \<open>Everything no farther away than the head of the queue is visited.\<close>

lemma near_visited:
  assumes "path_inv s start target st" "ps_queue st = current # rest"
  shows "(start, v) \<in> (parent_edges s)\<^sup>* \<Longrightarrow> dist s start v \<le> dist s start current \<Longrightarrow> v \<in> ps_visited st"
proof (induction "dist s start v" arbitrary: v)
  case 0
  then have "v = start" using dist_relpow by fastforce
  with assms(1) show ?case by (simp add: path_inv_def)
next
  case (Suc n)
  from dist_pred [OF Suc.prems(1) Suc.hyps(2) [symmetric]] obtain u where
    u: "(start, u) \<in> (parent_edges s)\<^sup>*" "dist s start u = n" "v \<in> set (parents_of s u)" by blast
  with Suc have "u \<in> ps_visited st" by simp
  moreover have "u \<notin> set (ps_queue st)"
    using assms u(2) Suc.hyps(2) Suc.prems(2) by (auto simp: path_inv_def)
  ultimately show ?case using assms(1) u(3) unfolding path_inv_def by blast
qed

text \<open>A parent that the head of the queue discovers is exactly one step farther away.\<close>

lemma new_dist:
  assumes "path_inv s start target st" "ps_queue st = current # rest"
    and v: "v \<in> set (parents_of s current)" "v \<notin> ps_visited st"
  shows "dist s start v = Suc (dist s start current)"
proof -
  have cur: "(start, current) \<in> (parent_edges s)\<^sup>*" using assms(1,2) by (auto simp: path_inv_def)
  then have "(start, v) \<in> (parent_edges s)\<^sup>*"
    using v(1) by (auto simp: parent_edges_def intro: rtrancl.rtrancl_into_rtrancl)
  from near_visited [OF assms(1,2) this] v(2) have "\<not> dist s start v \<le> dist s start current" by blast
  with dist_edge [OF cur v(1)] show ?thesis by simp
qed

text \<open>A queue sorted by level that spans two levels stays so when its head is replaced by a tail of the next level.\<close>

lemma two_levels:
  fixes d :: "'a \<Rightarrow> nat"
  assumes "sorted (map d (x # xs))" "\<forall>q \<in> set (x # xs). d q \<le> Suc (d x)" "\<forall>v \<in> set new. d v = Suc (d x)"
  shows "sorted (map d (xs @ new)) \<and> (\<forall>q \<in> set (xs @ new). d q \<le> Suc (d (hd (xs @ new))))"
proof
  have "sorted (map d new)"
    using assms(3) by (auto simp: sorted_map intro: sorted_wrt_mono_rel [OF _ sorted_wrt_true])
  with assms show sorted: "sorted (map d (xs @ new))" by (auto simp: sorted_append)
  have ge: "d x \<le> d q \<and> d q \<le> Suc (d x)" if "q \<in> set (xs @ new)" for q using assms that by auto
  show "\<forall>q \<in> set (xs @ new). d q \<le> Suc (d (hd (xs @ new)))"
  proof
    fix q assume q: "q \<in> set (xs @ new)"
    then have "hd (xs @ new) \<in> set (xs @ new)" by (metis empty_iff empty_set hd_in_set)
    with ge [OF q] ge [of "hd (xs @ new)"] show "d q \<le> Suc (d (hd (xs @ new)))" by simp
  qed
qed

lemma path_step_inv:
  assumes inv: "path_inv s start target st" and q: "ps_queue st = current # rest"
    and out: "target \<notin> set (parents_of s current)"
  shows "path_inv s start target (path_step s target st)"
proof -
  let ?d = "dist s start" and ?seen = "ps_visited st \<union> set (parents_of s current)"
  note I = inv [unfolded path_inv_def q]
  from I have "ps_found (st\<lparr>ps_queue := rest\<rparr>) = None" by simp
  from scan_not_found [OF this out, of current] obtain new pm where
    step: "path_step s target st = \<lparr>ps_queue = rest @ new, ps_visited = ?seen, ps_parent_map = pm, ps_found = None\<rparr>"
    and new: "distinct new" "set new = set (parents_of s current) - ps_visited st"
    and pm: "\<And>v. map_get pm v = (if v \<in> set new then Some current else map_get (ps_parent_map st) v)"
    by (auto simp: path_step_def q Let_def)
  from I have cur: "(start, current) \<in> (parent_edges s)\<^sup>*" "current \<in> ps_visited st" by auto
  then have reach: "?seen \<subseteq> {v. (start, v) \<in> (parent_edges s)\<^sup>*}"
    using I by (auto simp: parent_edges_def intro: rtrancl.rtrancl_into_rtrancl)
  have dnew: "?d v = Suc (?d current)" if "v \<in> set new" for v using that new(2) new_dist [OF inv q] by simp
  then have levels: "sorted (map ?d (rest @ new))" "\<forall>v \<in> set (rest @ new). ?d v \<le> Suc (?d (hd (rest @ new)))"
    using I two_levels [of ?d current rest new] by simp_all
  have closed: "\<forall>v \<in> ?seen - set (rest @ new). set (parents_of s v) \<subseteq> ?seen" using new(2) I by auto
  have parent: "\<exists>u. map_get pm v = Some u \<and> u \<in> ?seen \<and> v \<in> set (parents_of s u) \<and> ?d v = Suc (?d u)"
    if "v \<in> ?seen" "v \<noteq> start" for v
  proof (cases "v \<in> set new")
    case False
    with that new(2) have "v \<in> ps_visited st" by auto
    with I that(2) pm False show ?thesis by fastforce
  qed (use new(2) pm cur(2) dnew in auto)
  have dom: "dom (map_get pm) \<subseteq> ?seen" using I new(2) by (auto simp: pm dom_def split: if_splits)
  have "distinct (rest @ new)" "set (rest @ new) \<subseteq> ?seen" "start \<notin> set new" using new I by auto
  then show ?thesis using levels closed parent reach dom out I unfolding path_inv_def step by (auto simp: pm)
qed

section \<open>The search returns a shortest path\<close>

text \<open>A step that finds the target, from a state that satisfies the invariant.\<close>

definition path_hit :: "DagStore \<Rightarrow> DagHash \<Rightarrow> DagHash \<Rightarrow> PathSearch \<Rightarrow> bool" where
  "path_hit s start target st \<longleftrightarrow>
     (\<exists>st0 current rest. path_inv s start target st0 \<and> ps_queue st0 = current # rest \<and>
        target \<in> set (parents_of s current) \<and> ps_found st = Some current \<and>
        (\<forall>v \<in> ps_visited st0. map_get (ps_parent_map st) v = map_get (ps_parent_map st0) v))"

lemma path_step_cases:
  assumes "path_inv s start target st" "path_pending st"
  shows "path_inv s start target (path_step s target st) \<or> path_hit s start target (path_step s target st)"
proof -
  from assms(2) obtain current rest where q: "ps_queue st = current # rest" by (cases "ps_queue st") (auto simp: path_pending_def)
  show ?thesis
  proof (cases "target \<in> set (parents_of s current)")
    case True
    from assms(1) have "ps_found st = None" by (simp add: path_inv_def)
    then have "path_hit s start target (path_step s target st)"
      unfolding path_hit_def path_step_def Let_def
      using assms(1) q True
      by (intro exI [of _ st] exI [of _ current] exI [of _ rest]) (simp add: scan_found scan_keeps)
    then show ?thesis ..
  qed (use path_step_inv [OF assms(1) q] in blast)
qed

lemma path_result:
  assumes "start \<noteq> target" "while_option path_pending (path_step s target) (path_init start) = Some st"
  shows "path_inv s start target st \<and> ps_queue st = [] \<or> path_hit s start target st"
proof -
  have "path_inv s start target st \<or> path_hit s start target st"
  proof (rule while_option_rule [OF _ assms(2)])
    fix st assume "path_inv s start target st \<or> path_hit s start target st" "path_pending st"
    then show "path_inv s start target (path_step s target st) \<or> path_hit s start target (path_step s target st)"
      using path_step_cases by (auto simp: path_hit_def path_pending_def)
  qed (simp add: path_inv_init assms(1))
  with while_option_stop [OF assms(2)] show ?thesis by (auto simp: path_pending_def path_inv_def)
qed

text \<open>Termination: a step that does not find the target visits a new block or shortens the queue.\<close>

lemma visited_bound:
  "path_inv s start target st \<Longrightarrow> ps_visited st \<subseteq> insert start (all_parents s)"
proof
  fix v assume "path_inv s start target st" "v \<in> ps_visited st"
  then show "v \<in> insert start (all_parents s)" using parents_of_subset unfolding path_inv_def by blast
qed

lemma path_terminates:
  assumes "start \<noteq> target"
  shows "\<exists>st. while_option path_pending (path_step s target) (path_init start) = Some st"
proof -
  let ?U = "insert start (all_parents s)"
  let ?R = "measures [\<lambda>st. if ps_found st = None then 1 else 0, \<lambda>st. card (?U - ps_visited st), \<lambda>st. length (ps_queue st)]"
  let ?P = "\<lambda>st. path_inv s start target st \<or> path_hit s start target st"
  show ?thesis
  proof (rule wf_rel_while_option_Some [of ?R ?P])
    fix st assume st: "?P st \<and> path_pending st"
    then have inv: "path_inv s start target st" by (auto simp: path_hit_def path_pending_def)
    from st obtain current rest where q: "ps_queue st = current # rest"
      by (cases "ps_queue st") (auto simp: path_pending_def)
    show "?P (path_step s target st)" using path_step_cases inv st by blast
    show "(path_step s target st, st) \<in> ?R"
    proof (cases "target \<in> set (parents_of s current)")
      case True
      have "ps_found (st\<lparr>ps_queue := rest\<rparr>) = None" using inv by (simp add: path_inv_def)
      from scan_found [OF this True] inv show ?thesis by (simp add: path_step_def q path_inv_def)
    next
      case False
      have "ps_found (st\<lparr>ps_queue := rest\<rparr>) = None" using inv by (simp add: path_inv_def)
      from scan_not_found [OF this False, of current] obtain new pm where
        step: "path_step s target st = \<lparr>ps_queue = rest @ new, ps_visited = ps_visited st \<union> set (parents_of s current),
          ps_parent_map = pm, ps_found = None\<rparr>" and new: "set new = set (parents_of s current) - ps_visited st"
        by (auto simp: path_step_def q Let_def)
      have sub: "set (parents_of s current) \<subseteq> ?U" using parents_of_subset by auto
      show ?thesis
      proof (cases "new = []")
        case True
        with new have "set (parents_of s current) \<subseteq> ps_visited st" by auto
        then have "ps_visited st \<union> set (parents_of s current) = ps_visited st" by blast
        with True inv show ?thesis by (simp add: step q path_inv_def)
      next
        case False
        then obtain v where "v \<in> set new" by (cases new) auto
        with new sub have "?U - (ps_visited st \<union> set (parents_of s current)) \<subset> ?U - ps_visited st" by blast
        then have "card (?U - (ps_visited st \<union> set (parents_of s current))) < card (?U - ps_visited st)"
          by (rule psubset_card_mono [rotated]) simp
        with inv show ?thesis by (simp add: step path_inv_def)
      qed
    qed
  qed (simp_all add: path_inv_init assms)
qed

lemma backtrack_path:
  assumes "path_inv s start target st" "\<forall>v \<in> ps_visited st. map_get pm v = map_get (ps_parent_map st) v"
  shows "v \<in> ps_visited st \<Longrightarrow>
    \<exists>xs. backtrack pm path v = Some (path @ xs) \<and> walk s (start # rev xs) \<and> last (start # rev xs) = v \<and>
         length xs = dist s start v"
proof (induction "dist s start v" arbitrary: v path rule: less_induct)
  case less
  show ?case
  proof (cases "v = start")
    case True
    with assms have "map_get pm v = None" by (simp add: path_inv_def)
    with True show ?thesis by (intro exI [of _ "[]"]) (simp add: backtrack.simps)
  next
    case False
    with assms less.prems obtain u where u: "map_get pm v = Some u" "u \<in> ps_visited st" "v \<in> set (parents_of s u)"
      "dist s start v = Suc (dist s start u)" unfolding path_inv_def by metis
    from less.hyps [of u "path @ [v]"] u(2,4) obtain xs where
      "backtrack pm (path @ [v]) u = Some ((path @ [v]) @ xs)" "walk s (start # rev xs)" "last (start # rev xs) = u"
      "length xs = dist s start u" by auto
    with u walk_append [of s "start # rev xs" v] show ?thesis
      by (intro exI [of _ "v # xs"]) (simp add: backtrack.simps [of pm path v])
  qed
qed

lemma hit_path:
  assumes "path_hit s start target st"
  shows "\<exists>path. (case ps_found st of None \<Rightarrow> Some None
      | Some current \<Rightarrow> map_option (\<lambda>path. Some (rev (path @ [start]))) (backtrack (ps_parent_map st) [target] current)) =
        Some (Some path) \<and> walk s path \<and> hd path = start \<and> last path = target \<and>
      (start, target) \<in> (parent_edges s)\<^sup>* \<and> length path = Suc (dist s start target)"
proof -
  from assms obtain st0 current rest where inv: "path_inv s start target st0" and q: "ps_queue st0 = current # rest"
    and t: "target \<in> set (parents_of s current)" and f: "ps_found st = Some current"
    and pm: "\<forall>v \<in> ps_visited st0. map_get (ps_parent_map st) v = map_get (ps_parent_map st0) v"
    unfolding path_hit_def by blast
  from inv q have cur: "current \<in> ps_visited st0" "(start, current) \<in> (parent_edges s)\<^sup>*" by (auto simp: path_inv_def)
  from backtrack_path [OF inv pm cur(1), of "[target]"] obtain xs where
    xs: "backtrack (ps_parent_map st) [target] current = Some ([target] @ xs)" "walk s (start # rev xs)"
    "last (start # rev xs) = current" "length xs = dist s start current" by blast
  from cur(2) t have reach: "(start, target) \<in> (parent_edges s)\<^sup>*"
    by (auto simp: parent_edges_def intro: rtrancl.rtrancl_into_rtrancl)
  from near_visited [OF inv q reach] inv have "\<not> dist s start target \<le> dist s start current" by (auto simp: path_inv_def)
  with dist_edge [OF cur(2) t] have "dist s start target = Suc (dist s start current)" by simp
  with xs walk_append [OF xs(2)] t reach show ?thesis by (simp add: f)
qed

text \<open>
  C30: the path search always returns, and its answer is exact: it returns a path if and only if the
  target is reachable along parent links, the path starts and ends where it should and follows parent
  links, and no other path is shorter.
\<close>

theorem find_path_shortest:
  "\<exists>r. DagStore_find_path s start target = Some r \<and>
     (r = None \<longleftrightarrow> (start, target) \<notin> (parent_edges s)\<^sup>*) \<and>
     (\<forall>path. r = Some path \<longrightarrow> walk s path \<and> hd path = start \<and> last path = target \<and>
        (\<forall>other. other \<noteq> [] \<and> walk s other \<and> hd other = start \<and> last other = target \<longrightarrow>
           length path \<le> length other))"
proof -
  have short: "Suc (dist s start target) \<le> length other"
    if "other \<noteq> []" "walk s other" "hd other = start" "last other = target" for other
    using that walk_relpow [of s start "tl other"] dist_le [of start target "length (tl other)" s]
    by (cases other) auto
  show ?thesis
  proof (cases "start = target")
    case True
    then show ?thesis using short by (auto simp: DagStore_find_path_def Suc_le_eq)
  next
    case False
    obtain st where run: "while_option path_pending (path_step s target) (path_init start) = Some st"
      using path_terminates [OF False] by blast
    from path_result [OF False run] show ?thesis
    proof
      assume st: "path_inv s start target st \<and> ps_queue st = []"
      have "(start, v) \<in> (parent_edges s)\<^sup>* \<Longrightarrow> v \<in> ps_visited st" for v
        by (induction rule: rtrancl_induct) (use st in \<open>auto simp: path_inv_def parent_edges_def\<close>)
      with st False run show ?thesis by (auto simp: DagStore_find_path_def path_inv_def)
    next
      assume "path_hit s start target st"
      from hit_path [OF this] False run short show ?thesis by (auto simp: DagStore_find_path_def)
    qed
  qed
qed

definition dag_example :: DagStore where
  "dag_example = fold (\<lambda>(h, b) s. DagStore_put s h b)
     [([0], DagBlock_genesis [] 0), ([1], DagBlock_new 1 [] [0] 0), ([2], DagBlock_new 2 [] [1] 0),
      ([3], \<lparr>dag_height = 3, dag_state_root = [], parent_hashes = [[2], [1]], dag_timestamp = 0\<rparr>)] DagStore_new"

theorem find_path_shortest_witness:
  "\<exists>path. DagStore_find_path dag_example [3] [0] = Some (Some path) \<and> walk dag_example path \<and>
     length path \<le> length [[3], [1], [0]]"
proof -
  have found: "DagStore_find_path dag_example [3] [0] = Some (Some [[3], [1], [0]])" by code_simp
  moreover have other: "walk dag_example [[3], [1], [0]]"
    using find_path_shortest [of dag_example "[3]" "[0]"] found by auto
  ultimately show ?thesis using find_path_shortest [of dag_example "[3]" "[0]"] by auto
qed

end
