(* ===== verification/Dag_Props.thy ===== *)
theory Dag_Props
  imports Dag_Search
begin

text \<open>
  The closures, the children index, the cycle check and the validation of theory \<open>Dag\<close>. The closure
  loop is verified once, in a locale for a successor function with finitely many successors, and
  interpreted for the parent links and for the children index.
\<close>

section \<open>The closure loop\<close>

lemma enqueue_props:
  "\<exists>new. enqueue xs c = c\<lparr>cl_visited := cl_visited c \<union> set xs, cl_queue := cl_queue c @ new\<rparr> \<and>
     distinct new \<and> set new = set xs - cl_visited c"
proof (induction xs arbitrary: c)
  case Nil
  then show ?case by (intro exI [of _ "[]"]) (simp add: enqueue_def)
next
  case (Cons x xs)
  show ?case
  proof (cases "x \<in> cl_visited c")
    case True
    with Cons [of c] show ?thesis by (auto simp: enqueue_def insert_absorb)
  next
    case False
    let ?c = "c\<lparr>cl_visited := insert x (cl_visited c), cl_queue := cl_queue c @ [x]\<rparr>"
    from Cons [of ?c] obtain new where
      "enqueue xs ?c = ?c\<lparr>cl_visited := cl_visited ?c \<union> set xs, cl_queue := cl_queue ?c @ new\<rparr>"
      "distinct new" "set new = set xs - cl_visited ?c" by blast
    with False show ?thesis by (intro exI [of _ "x # new"]) (auto simp: enqueue_def)
  qed
qed

locale successors =
  fixes succ :: "DagHash \<Rightarrow> DagHash list" and nodes :: "DagHash set"
  assumes finite_nodes: "finite nodes"
    and succ_nodes: "set (succ h) \<subseteq> nodes"
begin

definition edges :: "(DagHash \<times> DagHash) set" where
  "edges = {(h, x). x \<in> set (succ h)}"

definition inv :: "DagHash \<Rightarrow> Closure \<Rightarrow> bool" where
  "inv start c \<longleftrightarrow> distinct (cl_out c @ cl_queue c) \<and> set (cl_out c @ cl_queue c) = cl_visited c \<and>
     cl_visited c \<subseteq> edges\<^sup>+ `` {start} \<and> set (succ start) \<subseteq> cl_visited c \<and>
     (\<forall>v \<in> set (cl_out c). set (succ v) \<subseteq> cl_visited c)"

lemma inv_init: "inv start (enqueue (succ start) \<lparr>cl_queue = [], cl_visited = {}, cl_out = []\<rparr>)"
  using enqueue_props [of "succ start" "\<lparr>cl_queue = [], cl_visited = {}, cl_out = []\<rparr>"]
  by (auto simp: inv_def edges_def)

lemma closure_step_eq:
  assumes "cl_queue c = current # rest"
  obtains new where "closure_step succ c = \<lparr>cl_queue = rest @ new, cl_visited = cl_visited c \<union> set (succ current),
      cl_out = cl_out c @ [current]\<rparr>" "distinct new" "set new = set (succ current) - cl_visited c"
proof -
  from enqueue_props [of "succ current" "c\<lparr>cl_queue := rest, cl_out := cl_out c @ [current]\<rparr>"] obtain new where
    new: "closure_step succ c = c\<lparr>cl_queue := rest, cl_out := cl_out c @ [current],
       cl_visited := cl_visited c \<union> set (succ current), cl_queue := rest @ new\<rparr>"
      "distinct new" "set new = set (succ current) - cl_visited c"
    by (auto simp: closure_step_def Let_def assms)
  from new(1) have "closure_step succ c = \<lparr>cl_queue = rest @ new, cl_visited = cl_visited c \<union> set (succ current),
      cl_out = cl_out c @ [current]\<rparr>" by (cases c) simp
  with new that show thesis by blast
qed

lemma inv_step:
  assumes "inv start c" "cl_queue c \<noteq> []"
  shows "inv start (closure_step succ c)"
proof -
  from assms(2) obtain current rest where q: "cl_queue c = current # rest" by (cases "cl_queue c") auto
  obtain new where step: "closure_step succ c = \<lparr>cl_queue = rest @ new, cl_visited = cl_visited c \<union> set (succ current),
      cl_out = cl_out c @ [current]\<rparr>" and new: "distinct new" "set new = set (succ current) - cl_visited c"
    using closure_step_eq [OF q] by blast
  note I = assms(1) [unfolded inv_def q]
  from I have "(start, current) \<in> edges\<^sup>+" by auto
  then have "(start, x) \<in> edges\<^sup>+" if "x \<in> set (succ current)" for x
    using that by (auto simp: edges_def intro: trancl.trancl_into_trancl)
  with I new show ?thesis unfolding inv_def step by auto
qed

lemma closure_terminates:
  "\<exists>c. while_option (\<lambda>c. cl_queue c \<noteq> []) (closure_step succ)
     (enqueue (succ start) \<lparr>cl_queue = [], cl_visited = {}, cl_out = []\<rparr>) = Some c"
proof (rule wf_rel_while_option_Some [of "measures [\<lambda>c. card (nodes - cl_visited c), \<lambda>c. length (cl_queue c)]" "inv start"])
  fix c assume c: "inv start c \<and> cl_queue c \<noteq> []"
  then obtain current rest where q: "cl_queue c = current # rest" by (cases "cl_queue c") auto
  obtain new where step: "closure_step succ c = \<lparr>cl_queue = rest @ new, cl_visited = cl_visited c \<union> set (succ current),
      cl_out = cl_out c @ [current]\<rparr>" and new: "set new = set (succ current) - cl_visited c"
    using closure_step_eq [OF q] by blast
  show "(closure_step succ c, c) \<in> measures [\<lambda>c. card (nodes - cl_visited c), \<lambda>c. length (cl_queue c)]"
  proof (cases "new = []")
    case True
    with new have "cl_visited c \<union> set (succ current) = cl_visited c" by auto
    with True show ?thesis by (simp add: step q)
  next
    case False
    then obtain v where "v \<in> set new" by (cases new) auto
    with new succ_nodes [of current] have "nodes - (cl_visited c \<union> set (succ current)) \<subset> nodes - cl_visited c" by blast
    then have "card (nodes - (cl_visited c \<union> set (succ current))) < card (nodes - cl_visited c)"
      using finite_nodes by (intro psubset_card_mono) auto
    then show ?thesis by (simp add: step)
  qed
qed (auto intro: inv_step inv_init)

lemma closure_exact: "\<exists>out. closure succ start = Some out \<and> distinct out \<and> set out = edges\<^sup>+ `` {start}"
proof -
  obtain c where run: "while_option (\<lambda>c. cl_queue c \<noteq> []) (closure_step succ)
     (enqueue (succ start) \<lparr>cl_queue = [], cl_visited = {}, cl_out = []\<rparr>) = Some c" using closure_terminates by blast
  have "inv start c" by (rule while_option_rule [OF _ run]) (auto intro: inv_step inv_init)
  moreover have "cl_queue c = []" using while_option_stop [OF run] by simp
  ultimately have out: "distinct (cl_out c)" "set (cl_out c) \<subseteq> edges\<^sup>+ `` {start}" "set (succ start) \<subseteq> set (cl_out c)"
    "\<forall>v \<in> set (cl_out c). set (succ v) \<subseteq> set (cl_out c)" by (auto simp: inv_def)
  have "v \<in> set (cl_out c)" if "(start, v) \<in> edges\<^sup>+" for v
    using that by (induction rule: trancl_induct) (use out(3,4) in \<open>auto simp: edges_def\<close>)
  with out run show ?thesis by (auto simp: closure_def)
qed

end

definition all_children :: "DagStore \<Rightarrow> DagHash set" where
  "all_children s = (\<Union>e \<in> set (dag_children s). set (snd e))"

lemma children_of_subset: "set (DagStore_children_of s h) \<subseteq> all_children s"
proof (cases "map_get (dag_children s) h")
  case (Some cs)
  then have "(h, cs) \<in> set (dag_children s)" by (simp add: map_get_def map_of_SomeD)
  with Some show ?thesis by (force simp: DagStore_children_of_def all_children_def)
qed (simp add: DagStore_children_of_def)

interpretation up: successors "parents_of s" "all_parents s" for s
  by unfold_locales (simp_all add: parents_of_subset)

interpretation down: successors "DagStore_children_of s" "all_children s" for s
  by unfold_locales (simp_all add: children_of_subset, simp add: all_children_def)

lemma up_edges: "up.edges s = parent_edges s"
  by (simp add: up.edges_def parent_edges_def)

lemma down_edges: "down.edges s = child_edges s"
  by (simp add: down.edges_def child_edges_def)

section \<open>The children index\<close>

text \<open>The index is in step with the blocks: the children of a hash are the blocks that name it.\<close>

definition dag_sync :: "DagStore \<Rightarrow> bool" where
  "dag_sync s \<longleftrightarrow> (\<forall>p. distinct (DagStore_children_of s p) \<and>
     set (DagStore_children_of s p) = {h. p \<in> set (parents_of s h)})"

lemma sync_edges: "dag_sync s \<Longrightarrow> child_edges s = (parent_edges s)\<inverse>"
  by (auto simp: dag_sync_def child_edges_def parent_edges_def)

definition kids :: "(DagHash, DagHash list) btree_map \<Rightarrow> DagHash \<Rightarrow> DagHash list" where
  "kids m p = (case map_get m p of None \<Rightarrow> [] | Some cs \<Rightarrow> cs)"

lemma kids_add: "kids (add_child h q m) p = (if p = q \<and> h \<notin> set (kids m p) then kids m p @ [h] else kids m p)"
  by (auto simp: kids_def add_child_def Let_def split: option.splits)

lemma kids_fold:
  "kids (fold (add_child h) ps m) p = (if p \<in> set ps \<and> h \<notin> set (kids m p) then kids m p @ [h] else kids m p)"
proof (induction ps arbitrary: m)
  case (Cons q ps)
  then show ?case by (auto simp: kids_add)
qed simp

lemma children_put:
  "DagStore_children_of (DagStore_put s h b) p =
     (if p \<in> set (parent_hashes b) \<and> h \<notin> set (DagStore_children_of s p)
      then DagStore_children_of s p @ [h] else DagStore_children_of s p)"
  using kids_fold [of h "parent_hashes b" "dag_children s" p]
  by (simp add: DagStore_children_of_def DagStore_put_def kids_def)

lemma parents_put:
  "parents_of (DagStore_put s h b) x = (if x = h then parent_hashes b else parents_of s x)"
  by (simp add: parents_of_def DagStore_get_def DagStore_put_def)

text \<open>Storing a block keeps the index in step unless it drops a parent of the block it replaces.\<close>

lemma sync_put:
  assumes "dag_sync s" "set (parents_of s h) \<subseteq> set (parent_hashes b)"
  shows "dag_sync (DagStore_put s h b)"
  using assms by (auto simp: dag_sync_def children_put parents_put)

lemma sync_new: "dag_sync DagStore_new"
  by (simp add: dag_sync_def DagStore_children_of_def parents_of_def DagStore_get_def DagStore_new_def)

definition ingest :: "(DagHash \<times> DagBlock) list \<Rightarrow> DagStore" where
  "ingest es = fold (\<lambda>(h, b) s. DagStore_put s h b) es DagStore_new"

lemma ingest_snoc: "ingest (es @ [(h, b)]) = DagStore_put (ingest es) h b"
  by (simp add: ingest_def)

lemma ingest_parents: "h \<notin> fst ` set es \<Longrightarrow> parents_of (ingest es) h = []"
proof (induction es rule: rev_induct)
  case Nil
  then show ?case by (simp add: ingest_def parents_of_def DagStore_get_def DagStore_new_def)
next
  case (snoc e es)
  then show ?case by (cases e) (auto simp: ingest_snoc parents_put)
qed

lemma ingest_sync: "distinct (map fst es) \<Longrightarrow> dag_sync (ingest es)"
proof (induction es rule: rev_induct)
  case Nil
  then show ?case by (simp add: ingest_def sync_new)
next
  case (snoc e es)
  then show ?case by (cases e) (auto simp: ingest_snoc ingest_parents intro!: sync_put)
qed

text \<open>
  C31: blocks stored under distinct hashes, in any order, children before parents included, leave an
  index from which both closures are exact: \<open>ancestors_of\<close> and \<open>descendants_of\<close> return, list each hash
  once, and list exactly the hashes reachable along parent links, upwards and downwards; so one block
  is among the descendants of another exactly if the other is among its ancestors. The tips are the
  stored blocks that no stored block names as a parent.
\<close>

theorem dag_closures_exact:
  assumes "distinct (map fst es)" "s = ingest es"
  shows "(\<exists>as ds. DagStore_ancestors_of s h = Some as \<and> distinct as \<and> set as = {a. (h, a) \<in> (parent_edges s)\<^sup>+} \<and>
      DagStore_descendants_of s h = Some ds \<and> distinct ds \<and> set ds = {d. (d, h) \<in> (parent_edges s)\<^sup>+}) \<and>
    set (DagStore_tips s) = {t. DagStore_contains s t \<and> (\<forall>x. t \<notin> set (parents_of s x))}"
proof -
  have sync: "dag_sync s" using assms by (simp add: ingest_sync)
  obtain as where as: "DagStore_ancestors_of s h = Some as" "distinct as" "set as = (parent_edges s)\<^sup>+ `` {h}"
    using up.closure_exact [of s h] by (auto simp: DagStore_ancestors_of_def up_edges)
  obtain ds where ds: "DagStore_descendants_of s h = Some ds" "distinct ds" "set ds = ((parent_edges s)\<inverse>)\<^sup>+ `` {h}"
    using down.closure_exact [of s h] by (auto simp: DagStore_descendants_of_def down_edges sync_edges [OF sync])
  have "DagStore_children_of s t = [] \<longleftrightarrow> (\<forall>x. t \<notin> set (parents_of s x))" for t
    using sync by (auto simp: dag_sync_def simp flip: set_empty)
  then have "set (DagStore_tips s) = {t. DagStore_contains s t \<and> (\<forall>x. t \<notin> set (parents_of s x))}"
    by (auto simp: DagStore_tips_def DagStore_contains_def map_get_def map_of_eq_None_iff)
  with as ds show ?thesis by (auto simp: trancl_converse)
qed

definition dag_blocks_example :: "(DagHash \<times> DagBlock) list" where
  "dag_blocks_example =
     [([2], DagBlock_new 2 [] [1] 0), ([0], DagBlock_genesis [] 0), ([1], DagBlock_new 1 [] [0] 0),
      ([3], \<lparr>dag_height = 3, dag_state_root = [], parent_hashes = [[2], [1]], dag_timestamp = 0\<rparr>)]"

theorem dag_closures_exact_witness:
  "DagStore_ancestors_of (ingest dag_blocks_example) [3] = Some [[2], [1], [0]] \<and>
   DagStore_descendants_of (ingest dag_blocks_example) [1] = Some [[2], [3]] \<and>
   {d. (d, [1]) \<in> (parent_edges (ingest dag_blocks_example))\<^sup>+} = {[2], [3]}"
proof -
  have "distinct (map fst dag_blocks_example)" by (simp add: dag_blocks_example_def)
  from dag_closures_exact [OF this refl, of "[1]"]
  have "\<exists>ds. DagStore_descendants_of (ingest dag_blocks_example) [1] = Some ds \<and>
      set ds = {d. (d, [1]) \<in> (parent_edges (ingest dag_blocks_example))\<^sup>+}" by blast
  moreover have "DagStore_descendants_of (ingest dag_blocks_example) [1] = Some [[2], [3]]" by code_simp
  moreover have "DagStore_ancestors_of (ingest dag_blocks_example) [3] = Some [[2], [1], [0]]" by code_simp
  ultimately show ?thesis by auto
qed

text \<open>
  Overwriting a block under its hash with fewer parents leaves a stale child: the dropped parent
  still lists the block as its descendant, although the block no longer descends from it.
\<close>

theorem dag_put_stale_child:
  assumes "p \<in> set (DagStore_children_of s h')" "p \<noteq> h'" "h' \<notin> set (parent_hashes b)"
  shows "p \<in> set (DagStore_children_of (DagStore_put s p b) h') \<and> h' \<notin> set (parents_of (DagStore_put s p b) p)"
  using assms by (simp add: children_put parents_put)

theorem dag_put_stale_child_witness:
  "[2] \<in> set (DagStore_children_of (DagStore_put (ingest dag_blocks_example) [2] (DagBlock_new 2 [] [0] 0)) [1])"
  using dag_put_stale_child [of "[2]" "ingest dag_blocks_example" "[1]" "DagBlock_new 2 [] [0] 0"]
  by (simp add: DagBlock_new_def) code_simp

section \<open>The cycle check\<close>

text \<open>
  Finished blocks, visited and not on the recursion stack, are closed under parent links and on no
  cycle.
\<close>

definition dfs_inv :: "DagStore \<Rightarrow> DagHash set \<Rightarrow> DagHash set \<Rightarrow> bool" where
  "dfs_inv s visited rec_stack \<longleftrightarrow> rec_stack \<subseteq> visited \<and>
     (\<forall>v \<in> visited - rec_stack. set (parents_of s v) \<subseteq> visited - rec_stack \<and> (v, v) \<notin> (parent_edges s)\<^sup>+)"

lemma closed_reach:
  assumes "\<forall>v \<in> B. set (parents_of s v) \<subseteq> B" "v \<in> B" "(v, x) \<in> (parent_edges s)\<^sup>*"
  shows "x \<in> B"
  using assms(3,1,2) by (induction rule: rtrancl_induct) (auto simp: parent_edges_def)

text \<open>A block whose parents are all finished is finished.\<close>

lemma dfs_inv_finish:
  assumes "dfs_inv s visited (insert p rec_stack)" "p \<notin> rec_stack"
    and "set (parents_of s p) \<subseteq> visited - insert p rec_stack"
  shows "dfs_inv s visited rec_stack"
proof -
  let ?B = "visited - insert p rec_stack"
  from assms(1) have closed: "\<forall>v \<in> ?B. set (parents_of s v) \<subseteq> ?B" by (simp add: dfs_inv_def)
  have "(p, p) \<notin> (parent_edges s)\<^sup>+"
  proof
    assume "(p, p) \<in> (parent_edges s)\<^sup>+"
    then obtain q where q: "q \<in> set (parents_of s p)" "(q, p) \<in> (parent_edges s)\<^sup>*"
      by (auto simp: parent_edges_def dest: tranclD)
    from q(1) assms(3) have "q \<in> ?B" by blast
    from closed_reach [OF closed this q(2)] show False by blast
  qed
  with assms show ?thesis by (auto simp: dfs_inv_def)
qed

text \<open>What a run of the search over some parents promises.\<close>

definition dfs_post :: "DagStore \<Rightarrow> DagHash list \<Rightarrow> DagHash set \<Rightarrow> DagHash set \<Rightarrow> bool \<times> DagHash set \<times> DagHash set \<Rightarrow> bool" where
  "dfs_post s ps visited rec_stack = (\<lambda>(found, visited', rec_stack').
     if found then \<exists>p \<in> set ps. \<exists>x. (p, x) \<in> (parent_edges s)\<^sup>* \<and> (x, x) \<in> (parent_edges s)\<^sup>+
     else dfs_inv s visited' rec_stack' \<and> rec_stack' = rec_stack \<and> visited \<subseteq> visited' \<and> set ps \<subseteq> visited' - rec_stack')"

text \<open>Entering an unvisited block keeps the invariant; a cycle found below it is reachable from it; and leaving it
  without a cycle restores the stack.\<close>

lemma dfs_enter:
  assumes "dfs_inv s visited rec_stack" "\<forall>x \<in> rec_stack. (x, par) \<in> (parent_edges s)\<^sup>+" "par \<notin> visited"
  shows "dfs_inv s (insert par visited) (insert par rec_stack)"
    and "\<forall>x \<in> insert par rec_stack. \<forall>p \<in> set (parents_of s par). (x, p) \<in> (parent_edges s)\<^sup>+"
    and "par \<notin> rec_stack"
  using assms by (auto simp: dfs_inv_def parent_edges_def intro: trancl.trancl_into_trancl)

lemma dfs_leave_found:
  assumes "dfs_post s (parents_of s par) V R (True, v, r)"
  shows "dfs_post s (par # rest) visited rec_stack (True, v', r')"
proof -
  from assms obtain p x where "p \<in> set (parents_of s par)" "(p, x) \<in> (parent_edges s)\<^sup>*" "(x, x) \<in> (parent_edges s)\<^sup>+"
    by (auto simp: dfs_post_def)
  moreover from this have "(par, x) \<in> (parent_edges s)\<^sup>*"
    by (auto simp: parent_edges_def intro: converse_rtrancl_into_rtrancl)
  ultimately show ?thesis by (auto simp: dfs_post_def)
qed

lemma dfs_leave:
  assumes "dfs_post s (parents_of s par) (insert par visited) (insert par rec_stack) (False, v, r)" "par \<notin> rec_stack"
  shows "dfs_inv s v rec_stack" "insert par visited \<subseteq> v" "r - {par} = rec_stack"
  using assms dfs_inv_finish [of s v par rec_stack] by (auto simp: dfs_post_def)

lemma dfs_parents_correct:
  "dfs_inv s visited rec_stack \<Longrightarrow> \<forall>x \<in> rec_stack. \<forall>p \<in> set ps. (x, p) \<in> (parent_edges s)\<^sup>+ \<Longrightarrow>
   dfs_post s ps visited rec_stack (dfs_parents s ps visited rec_stack)"
proof (induction s ps visited rec_stack rule: dfs_parents.induct)
  case (1 s visited rec_stack)
  then show ?case by (simp add: dfs_post_def)
next
  case (2 s par rest visited rec_stack)
  consider "par \<in> visited" "par \<in> rec_stack" | "par \<in> visited" "par \<notin> rec_stack" | "par \<notin> visited" by blast
  then show ?case
  proof cases
    case 1
    then show ?thesis using 2(5) by (auto simp: dfs_post_def)
  next
    case 2
    then show ?thesis using "2.IH"(3) "2.prems" by (auto simp: dfs_post_def)
  next
    case 3
    obtain f v r where inner: "dfs_parents s (parents_of s par) (insert par visited) (insert par rec_stack) = (f, v, r)"
      by (cases "dfs_parents s (parents_of s par) (insert par visited) (insert par rec_stack)")
    note enter = dfs_enter [OF "2.prems"(1) _ 3]
    have IH: "dfs_post s (parents_of s par) (insert par visited) (insert par rec_stack) (f, v, r)"
      using "2.IH"(1) [OF 3 enter(1,2)] "2.prems"(2) inner by simp
    show ?thesis
    proof (cases f)
      case True
      with IH dfs_leave_found show ?thesis using 3 inner by simp
    next
      case False
      with IH enter(3) "2.prems"(2) have out: "dfs_inv s v rec_stack" "insert par visited \<subseteq> v" "r - {par} = rec_stack" "par \<notin> rec_stack"
        using dfs_leave [of s par visited rec_stack v r] by auto
      from "2.IH"(2) [OF 3 inner [symmetric] refl False, unfolded out(3), OF out(1)] "2.prems"(2)
      have "dfs_post s rest v rec_stack (dfs_parents s rest v rec_stack)" by simp
      then show ?thesis using 3 inner False out by (auto simp: dfs_post_def split: if_splits)
    qed
  qed
qed

lemma has_cycle_iff:
  "DagStore_has_cycle_from s h \<longleftrightarrow> (\<exists>x. (h, x) \<in> (parent_edges s)\<^sup>* \<and> (x, x) \<in> (parent_edges s)\<^sup>+)"
proof -
  obtain f v r where run: "dfs_parents s (parents_of s h) {h} {h} = (f, v, r)"
    by (cases "dfs_parents s (parents_of s h) {h} {h}")
  have "dfs_inv s {h} {h}" by (simp add: dfs_inv_def)
  moreover have "\<forall>x \<in> {h}. \<forall>p \<in> set (parents_of s h). (x, p) \<in> (parent_edges s)\<^sup>+" by (auto simp: parent_edges_def)
  ultimately have "dfs_post s (parents_of s h) {h} {h} (f, v, r)" using dfs_parents_correct run by metis
  then have res: "if f then \<exists>p \<in> set (parents_of s h). \<exists>x. (p, x) \<in> (parent_edges s)\<^sup>* \<and> (x, x) \<in> (parent_edges s)\<^sup>+
    else dfs_inv s v r \<and> r = {h} \<and> {h} \<subseteq> v \<and> set (parents_of s h) \<subseteq> v - r" by (simp add: dfs_post_def)
  have f: "DagStore_has_cycle_from s h = f"
    by (simp add: DagStore_has_cycle_from_def DagStore_dfs_cycle_def run)
  show ?thesis
  proof (cases f)
    case True
    with res f show ?thesis by (auto simp: parent_edges_def intro: converse_rtrancl_into_rtrancl)
  next
    case False
    with res have fin: "dfs_inv s v {}" using dfs_inv_finish [of s v h "{}"] by auto
    from False res have h: "h \<in> v" by simp
    have "(x, x) \<notin> (parent_edges s)\<^sup>+" if "(h, x) \<in> (parent_edges s)\<^sup>*" for x
      using closed_reach [of v s h x] fin h that by (auto simp: dfs_inv_def)
    with False f show ?thesis by blast
  qed
qed

text \<open>
  C32: the depth-first cycle check is exact: it reports a cycle from a block if and only if a block
  reachable from it along parent links lies on a cycle. It always returns: the recursion visits every
  block at most once.
\<close>

theorem cycle_check_exact:
  "DagStore_has_cycle_from s h \<longleftrightarrow> (\<exists>x. (h, x) \<in> (parent_edges s)\<^sup>* \<and> (x, x) \<in> (parent_edges s)\<^sup>+)"
  by (rule has_cycle_iff)

section \<open>Validation\<close>

lemma check_parents_ok:
  "check_parents s hash block ps = Inr () \<longleftrightarrow>
   (\<forall>p \<in> set ps. \<exists>b. DagStore_get s p = Some b \<and> dag_height b < dag_height block)"
  by (induction ps) (auto split: option.splits)

lemma check_blocks_ok:
  "check_blocks s es = Inr () \<longleftrightarrow> (\<forall>(h, b) \<in> set es. check_parents s h b (parent_hashes b) = Inr ())"
  by (induction es) (auto split: sum.splits)

text \<open>Heights fall along parent links, so there is no cycle.\<close>

definition heights_fall :: "DagStore \<Rightarrow> bool" where
  "heights_fall s \<longleftrightarrow> (\<forall>(h, b) \<in> set (dag_blocks s). \<forall>p \<in> set (parent_hashes b).
     \<exists>pb. DagStore_get s p = Some pb \<and> dag_height pb < dag_height b)"

lemma heights_fall_trancl:
  assumes "heights_fall s" "(a, c) \<in> (parent_edges s)\<^sup>+"
  shows "\<exists>x y. DagStore_get s a = Some x \<and> DagStore_get s c = Some y \<and> dag_height y < dag_height x"
proof -
  have edge: "\<exists>x y. DagStore_get s a = Some x \<and> DagStore_get s c = Some y \<and> dag_height y < dag_height x"
    if "(a, c) \<in> parent_edges s" for a c
  proof -
    from that obtain x where x: "DagStore_get s a = Some x" "c \<in> set (parent_hashes x)"
      by (cases "DagStore_get s a") (auto simp: parent_edges_def parents_of_def)
    then have "(a, x) \<in> set (dag_blocks s)" by (simp add: DagStore_get_def map_get_def map_of_SomeD)
    with assms(1) x show ?thesis by (fastforce simp: heights_fall_def)
  qed
  from assms(2) show ?thesis
  proof (induction rule: trancl_induct)
    case (step b c)
    from edge [OF step.hyps(2)] step.IH show ?case by (auto intro: less_trans)
  qed (rule edge)
qed

text \<open>
  Validation accepts a store exactly if every parent of every block is stored at a strictly lower
  height, and a validated store has no cycle: the cycle check that follows never adds a rejection.
\<close>

theorem dag_validate_exact:
  "(DagStore_validate s = Inr () \<longleftrightarrow> heights_fall s) \<and> (\<forall>h. DagStore_validate s \<noteq> Inl (CycleFrom h)) \<and>
   (heights_fall s \<longrightarrow> acyclic (parent_edges s))"
proof -
  have blocks: "check_blocks s (dag_blocks s) = Inr () \<longleftrightarrow> heights_fall s"
    unfolding check_blocks_ok check_parents_ok heights_fall_def by simp
  have acyclic: "acyclic (parent_edges s)" if "heights_fall s"
    using heights_fall_trancl [OF that] by (fastforce simp: acyclic_def)
  then have none: "find (DagStore_has_cycle_from s) hs = None" if "heights_fall s" for hs
    using that by (auto simp: find_None_iff has_cycle_iff acyclic_def)
  have no_cycle_error: "check_parents s hash b ps \<noteq> Inl (CycleFrom h)" for hash b ps h
    by (induction ps) (auto split: option.splits)
  then have no_cycle_error: "check_blocks s es \<noteq> Inl (CycleFrom h)" for es h
    by (induction es) (auto split: sum.splits)
  show ?thesis
  proof (cases "heights_fall s")
    case True
    with blocks none acyclic show ?thesis by (simp add: DagStore_validate_def)
  next
    case False
    with blocks obtain e where "check_blocks s (dag_blocks s) = Inl e" by (cases "check_blocks s (dag_blocks s)") auto
    with False no_cycle_error [of "dag_blocks s"] show ?thesis by (auto simp: DagStore_validate_def)
  qed
qed

theorem dag_validate_exact_witness:
  "heights_fall (ingest dag_blocks_example) \<and> acyclic (parent_edges (ingest dag_blocks_example))"
proof -
  have "DagStore_validate (ingest dag_blocks_example) = Inr ()" by code_simp
  with dag_validate_exact [of "ingest dag_blocks_example"] show ?thesis by blast
qed

end
