(* ===== verification/Anchor.thy ===== *)
theory Anchor
  imports Codec State_Tree
begin

text \<open>
  Anchors and their authentication, from \<open>suwappudb-bridge/src/anchor\<close>: the anchor record with its hash
  and MAC (\<open>types.rs\<close>), the credential sidecars and the verifier that dispatches over them
  (\<open>credential.rs\<close>), and the signer interface with the ECDSA signer (\<open>signing.rs\<close>).

  The cryptographic crates are parameters, collected in the record \<open>crypto\<close>: \<open>blake3\<close> (plain and
  keyed), \<open>sha3\<close> (Keccak), \<open>k256\<close> and, when the \<open>production-pqc\<close> feature is on, \<open>pqcrypto\<close>. Its
  opaque values (signatures, keys) share the type \<open>'x\<close>. The constructors of the four enums that are
  one to one with the schemes carry a prefix.
\<close>

section \<open>The cryptographic crates\<close>

datatype mldsa_verdict = MlDsaAccepts | MlDsaInvalid | MlDsaOther

record 'x mldsa =
  mldsa_sig_from_bytes :: "bytes \<Rightarrow> 'x option"
  mldsa_pk_from_bytes :: "bytes \<Rightarrow> 'x option"
  mldsa_verify_detached :: "'x \<Rightarrow> bytes \<Rightarrow> 'x \<Rightarrow> mldsa_verdict"

record 'x crypto =
  blake3 :: "bytes \<Rightarrow> bytes"
  blake3_keyed :: "bytes \<Rightarrow> bytes \<Rightarrow> bytes"
  keccak256 :: "bytes \<Rightarrow> bytes"
  recovery_from_byte :: "u8 \<Rightarrow> u8 option"
  sig_try_from :: "bytes \<Rightarrow> 'x option"
  sig_normalize_s :: "'x \<Rightarrow> 'x option"
  sig_to_bytes :: "'x \<Rightarrow> bytes"
  recover_from_prehash :: "bytes \<Rightarrow> 'x \<Rightarrow> u8 \<Rightarrow> 'x option"
  sign_prehash_recoverable :: "'x \<Rightarrow> bytes \<Rightarrow> ('x \<times> u8) option"
  verifying_key :: "'x \<Rightarrow> 'x"
  to_encoded_point :: "'x \<Rightarrow> bytes"
  production_pqc :: "'x mldsa option"

section \<open>Anchors\<close>

datatype ChainId = ChainId (chain_num: u32)

text \<open>The derived \<open>Ord\<close> compares the numbers.\<close>

instantiation ChainId :: linorder
begin

definition less_eq_ChainId :: "ChainId \<Rightarrow> ChainId \<Rightarrow> bool" where
  "less_eq_ChainId a b \<longleftrightarrow> chain_num a \<le> chain_num b"

definition less_ChainId :: "ChainId \<Rightarrow> ChainId \<Rightarrow> bool" where
  "less_ChainId a b \<longleftrightarrow> chain_num a < chain_num b"

instance
  by standard (auto simp: less_eq_ChainId_def less_ChainId_def intro: ChainId.expand)

end

datatype AuthScheme = Scheme_Blake3Mac | Scheme_Sp1ZkProof | Scheme_EcdsaSecp256k1 | Scheme_MlDsa65Hybrid

datatype AuthVerifyError = UnsupportedAuth AuthScheme | InvalidAuthenticator

datatype AnchorHash = AnchorHash (anchor_hash_bytes: bytes)

definition ANCHOR_GENESIS_PARENT :: AnchorHash where
  "ANCHOR_GENESIS_PARENT = AnchorHash (replicate 32 0)"

record Anchor =
  an_chain_id :: ChainId
  an_height :: u64
  an_state_root :: Commitment
  an_parent :: AnchorHash
  an_mac :: bytes
  an_auth_scheme :: AuthScheme

definition mac_preimage :: "ChainId \<Rightarrow> u64 \<Rightarrow> Commitment \<Rightarrow> AnchorHash \<Rightarrow> bytes" where
  "mac_preimage chain height root par =
     ascii ''SUWAPPUDB-ANCHOR/MAC'' @ to_be_bytes (chain_num chain) @ to_be_bytes height @
     com_bytes root @ anchor_hash_bytes par"

definition compute_mac :: "'x crypto \<Rightarrow> ChainId \<Rightarrow> u64 \<Rightarrow> Commitment \<Rightarrow> AnchorHash \<Rightarrow> bytes \<Rightarrow> bytes" where
  "compute_mac C chain height root par key = blake3_keyed C key (mac_preimage chain height root par)"

definition Anchor_new :: "'x crypto \<Rightarrow> ChainId \<Rightarrow> u64 \<Rightarrow> Commitment \<Rightarrow> AnchorHash \<Rightarrow> bytes \<Rightarrow> Anchor" where
  "Anchor_new C chain height root par key =
     \<lparr>an_chain_id = chain, an_height = height, an_state_root = root, an_parent = par,
      an_mac = compute_mac C chain height root par key, an_auth_scheme = Scheme_Blake3Mac\<rparr>"

definition Anchor_ecdsa :: "ChainId \<Rightarrow> u64 \<Rightarrow> Commitment \<Rightarrow> AnchorHash \<Rightarrow> Anchor" where
  "Anchor_ecdsa chain height root par =
     \<lparr>an_chain_id = chain, an_height = height, an_state_root = root, an_parent = par,
      an_mac = replicate 32 0, an_auth_scheme = Scheme_EcdsaSecp256k1\<rparr>"

definition Anchor_verify_mac :: "'x crypto \<Rightarrow> Anchor \<Rightarrow> bytes \<Rightarrow> bool" where
  "Anchor_verify_mac C a key \<longleftrightarrow>
     an_auth_scheme a = Scheme_Blake3Mac \<and>
     an_mac a = compute_mac C (an_chain_id a) (an_height a) (an_state_root a) (an_parent a) key"

definition Anchor_verify_auth_result :: "'x crypto \<Rightarrow> Anchor \<Rightarrow> bytes \<Rightarrow> AuthVerifyError + unit" where
  "Anchor_verify_auth_result C a key =
     (case an_auth_scheme a of
        Scheme_Blake3Mac \<Rightarrow> if Anchor_verify_mac C a key then Inr () else Inl InvalidAuthenticator
      | scheme \<Rightarrow> Inl (UnsupportedAuth scheme))"

definition Anchor_verify_auth :: "'x crypto \<Rightarrow> Anchor \<Rightarrow> bytes \<Rightarrow> bool" where
  "Anchor_verify_auth C a key \<longleftrightarrow> Anchor_verify_auth_result C a key = Inr ()"

definition anchor_preimage :: "Anchor \<Rightarrow> bytes" where
  "anchor_preimage a =
     ascii ''SUWAPPUDB-ANCHOR/HASH'' @ to_be_bytes (chain_num (an_chain_id a)) @ to_be_bytes (an_height a) @
     com_bytes (an_state_root a) @ anchor_hash_bytes (an_parent a) @ an_mac a"

definition Anchor_hash :: "'x crypto \<Rightarrow> Anchor \<Rightarrow> AnchorHash" where
  "Anchor_hash C a = AnchorHash (blake3 C (anchor_preimage a))"

section \<open>Credentials\<close>

definition ECDSA_SIG_LEN :: usize where
  "ECDSA_SIG_LEN = 65"

record Sp1PublicValues =
  prev_state_root :: bytes
  new_state_root :: bytes
  pv_block_hash :: bytes

definition Sp1PublicValues_to_bytes :: "Sp1PublicValues \<Rightarrow> bytes" where
  "Sp1PublicValues_to_bytes v = prev_state_root v @ new_state_root v @ pv_block_hash v"

datatype EthAddress = EthAddress (eth_bytes: bytes)

datatype AnchorAuthCredential =
    Cred_Blake3Mac
  | Cred_Sp1ZkProof bytes Sp1PublicValues bytes
  | Cred_EcdsaSecp256k1 bytes
  | Cred_MlDsa65Hybrid bytes bytes

datatype EcdsaVerifyError = EcdsaMalformedSignature | RecoveryFailed | UnauthorizedSigner

datatype MlDsaVerifyError = MlDsaMalformedSignature | MlDsaInvalidSignature

definition EthAddress_from_verifying_key :: "'x crypto \<Rightarrow> 'x \<Rightarrow> EthAddress" where
  "EthAddress_from_verifying_key C vk = EthAddress (drop 12 (keccak256 C (drop 1 (to_encoded_point C vk))))"

definition solidity_abi_encode :: "ChainId \<Rightarrow> u64 \<Rightarrow> Commitment \<Rightarrow> AnchorHash \<Rightarrow> bytes \<Rightarrow> bytes" where
  "solidity_abi_encode chain height root par mac =
     replicate 28 0 @ to_be_bytes (chain_num chain) @ replicate 24 0 @ to_be_bytes height @
     com_bytes root @ anchor_hash_bytes par @ mac"

definition eth_signed_message_hash :: "'x crypto \<Rightarrow> Anchor \<Rightarrow> bytes" where
  "eth_signed_message_hash C a =
     (let inner = keccak256 C (solidity_abi_encode (an_chain_id a) (an_height a) (an_state_root a) (an_parent a) (an_mac a))
      in keccak256 C ([25] @ ascii ''Ethereum Signed Message:'' @ [10] @ ascii ''32'' @ inner))"

definition verify_mldsa65 :: "'x crypto \<Rightarrow> 'x mldsa \<Rightarrow> Anchor \<Rightarrow> bytes \<Rightarrow> bytes \<Rightarrow> MlDsaVerifyError + unit" where
  "verify_mldsa65 C M a signature_bytes public_key_bytes =
     (case mldsa_sig_from_bytes M signature_bytes of
        None \<Rightarrow> Inl MlDsaMalformedSignature
      | Some sig \<Rightarrow>
          (case mldsa_pk_from_bytes M public_key_bytes of
             None \<Rightarrow> Inl MlDsaMalformedSignature
           | Some pk \<Rightarrow>
               (case mldsa_verify_detached M sig (eth_signed_message_hash C a) pk of
                  MlDsaAccepts \<Rightarrow> Inr ()
                | MlDsaInvalid \<Rightarrow> Inl MlDsaInvalidSignature
                | MlDsaOther \<Rightarrow> Inl MlDsaMalformedSignature)))"

definition verify_ecdsa :: "'x crypto \<Rightarrow> Anchor \<Rightarrow> bytes \<Rightarrow> EthAddress \<Rightarrow> EcdsaVerifyError + unit" where
  "verify_ecdsa C a signature expected_signer =
     (let v = signature ! 64 in
      if v \<noteq> 27 \<and> v \<noteq> 28 then Inl EcdsaMalformedSignature
      else case recovery_from_byte C (if v = 27 then 0 else 1) of
        None \<Rightarrow> Inl EcdsaMalformedSignature
      | Some recovery_id \<Rightarrow>
          (case sig_try_from C (take 64 signature) of
             None \<Rightarrow> Inl EcdsaMalformedSignature
           | Some sig \<Rightarrow>
               if sig_normalize_s C sig \<noteq> None then Inl EcdsaMalformedSignature
               else case recover_from_prehash C (eth_signed_message_hash C a) sig recovery_id of
                 None \<Rightarrow> Inl RecoveryFailed
               | Some vk \<Rightarrow>
                   if EthAddress_from_verifying_key C vk = expected_signer then Inr () else Inl UnauthorizedSigner))"

datatype ExpectedVerifier =
    Exp_Blake3Mac bytes
  | Exp_EcdsaSecp256k1 EthAddress
  | Exp_MlDsa65Hybrid EthAddress bytes
  | Exp_Sp1ZkProof bytes bytes bytes bytes

datatype VerifierConfig =
    Cfg_Blake3Mac bytes
  | Cfg_EcdsaSecp256k1 EthAddress
  | Cfg_MlDsa65Hybrid EthAddress bytes
  | Cfg_Sp1ZkProof bytes bytes bytes

fun VerifierConfig_as_expected_for :: "VerifierConfig \<Rightarrow> Anchor \<Rightarrow> ExpectedVerifier" where
  "VerifierConfig_as_expected_for (Cfg_Blake3Mac key) a = Exp_Blake3Mac key"
| "VerifierConfig_as_expected_for (Cfg_EcdsaSecp256k1 signer) a = Exp_EcdsaSecp256k1 signer"
| "VerifierConfig_as_expected_for (Cfg_MlDsa65Hybrid signer pk) a = Exp_MlDsa65Hybrid signer pk"
| "VerifierConfig_as_expected_for (Cfg_Sp1ZkProof vkey prev block) a =
     Exp_Sp1ZkProof vkey prev (com_bytes (an_state_root a)) block"

fun VerifierConfig_scheme :: "VerifierConfig \<Rightarrow> AuthScheme" where
  "VerifierConfig_scheme (Cfg_Blake3Mac _) = Scheme_Blake3Mac"
| "VerifierConfig_scheme (Cfg_EcdsaSecp256k1 _) = Scheme_EcdsaSecp256k1"
| "VerifierConfig_scheme (Cfg_MlDsa65Hybrid _ _) = Scheme_MlDsa65Hybrid"
| "VerifierConfig_scheme (Cfg_Sp1ZkProof _ _ _) = Scheme_Sp1ZkProof"

datatype CredentialVerifyError =
    CredSchemeMismatch
  | UnsupportedScheme AuthScheme
  | Blake3MacInvalid
  | EcdsaFailed EcdsaVerifyError
  | MlDsaFailed MlDsaVerifyError
  | Sp1VkeyMismatch
  | Sp1PublicValuesMismatch

text \<open>Both builds: without the feature the hybrid scheme is unsupported.\<close>

definition verify_hybrid ::
  "'x crypto \<Rightarrow> Anchor \<Rightarrow> bytes \<Rightarrow> bytes \<Rightarrow> EthAddress \<Rightarrow> bytes \<Rightarrow> CredentialVerifyError + unit" where
  "verify_hybrid C a ecdsa_signature mldsa_signature signer mldsa_public_key =
     (case production_pqc C of
        None \<Rightarrow> Inl (UnsupportedScheme Scheme_MlDsa65Hybrid)
      | Some M \<Rightarrow>
          (case verify_ecdsa C a ecdsa_signature signer of
             Inl e \<Rightarrow> Inl (EcdsaFailed e)
           | Inr _ \<Rightarrow>
               (case verify_mldsa65 C M a mldsa_signature mldsa_public_key of
                  Inl e \<Rightarrow> Inl (MlDsaFailed e)
                | Inr _ \<Rightarrow> Inr ())))"

definition verify_sp1 ::
  "bytes \<Rightarrow> Sp1PublicValues \<Rightarrow> bytes \<Rightarrow> bytes \<Rightarrow> bytes \<Rightarrow> bytes \<Rightarrow> CredentialVerifyError + unit" where
  "verify_sp1 vkey values expected_vkey expected_prev expected_new expected_block =
     (if vkey \<noteq> expected_vkey then Inl Sp1VkeyMismatch
      else if prev_state_root values \<noteq> expected_prev \<or> new_state_root values \<noteq> expected_new \<or>
              pv_block_hash values \<noteq> expected_block
      then Inl Sp1PublicValuesMismatch
      else Inl (UnsupportedScheme Scheme_Sp1ZkProof))"

definition verify_credential ::
  "'x crypto \<Rightarrow> Anchor \<Rightarrow> AnchorAuthCredential \<Rightarrow> ExpectedVerifier \<Rightarrow> CredentialVerifyError + unit" where
  "verify_credential C a credential expected =
     (case (an_auth_scheme a, credential, expected) of
        (Scheme_Blake3Mac, Cred_Blake3Mac, Exp_Blake3Mac key) \<Rightarrow>
          if Anchor_verify_mac C a key then Inr () else Inl Blake3MacInvalid
      | (Scheme_EcdsaSecp256k1, Cred_EcdsaSecp256k1 signature, Exp_EcdsaSecp256k1 signer) \<Rightarrow>
          (case verify_ecdsa C a signature signer of Inl e \<Rightarrow> Inl (EcdsaFailed e) | Inr _ \<Rightarrow> Inr ())
      | (Scheme_MlDsa65Hybrid, Cred_MlDsa65Hybrid ecdsa mldsa, Exp_MlDsa65Hybrid signer pk) \<Rightarrow>
          verify_hybrid C a ecdsa mldsa signer pk
      | (Scheme_Sp1ZkProof, Cred_Sp1ZkProof vkey values prf, Exp_Sp1ZkProof vk prev new blk) \<Rightarrow>
          verify_sp1 vkey values vk prev new blk
      | _ \<Rightarrow> Inl CredSchemeMismatch)"

section \<open>Signers\<close>

datatype SignerError = SignFailed string | SignerSchemeMismatch

text \<open>\<open>&dyn AnchorSigner\<close>: the table of the trait's operations.\<close>

record AnchorSigner =
  signer_scheme :: AuthScheme
  signer_sign :: "Anchor \<Rightarrow> SignerError + AnchorAuthCredential"

definition eth_address_from_verifying_key :: "'x crypto \<Rightarrow> 'x \<Rightarrow> EthAddress" where
  "eth_address_from_verifying_key C vk =
     EthAddress (take 20 (drop 12 (keccak256 C (drop 1 (to_encoded_point C vk)))))"

definition EcdsaSecp256k1Signer_address :: "'x crypto \<Rightarrow> 'x \<Rightarrow> EthAddress" where
  "EcdsaSecp256k1Signer_address C inner = eth_address_from_verifying_key C (verifying_key C inner)"

definition EcdsaSecp256k1Signer_sign :: "'x crypto \<Rightarrow> 'x \<Rightarrow> Anchor \<Rightarrow> SignerError + AnchorAuthCredential" where
  "EcdsaSecp256k1Signer_sign C inner a =
     (if an_auth_scheme a \<noteq> Scheme_EcdsaSecp256k1 then Inl SignerSchemeMismatch
      else case sign_prehash_recoverable C inner (eth_signed_message_hash C a) of
        None \<Rightarrow> Inl (SignFailed ''k256 sign_prehash_recoverable'')
      | Some (sig, recovery) \<Rightarrow>
          let sig_bytes = sig_to_bytes C sig
          in Inr (Cred_EcdsaSecp256k1 (take 32 sig_bytes @ drop 32 sig_bytes @ [recovery + 27])))"

definition EcdsaSecp256k1Signer :: "'x crypto \<Rightarrow> 'x \<Rightarrow> AnchorSigner" where
  "EcdsaSecp256k1Signer C inner =
     \<lparr>signer_scheme = Scheme_EcdsaSecp256k1, signer_sign = EcdsaSecp256k1Signer_sign C inner\<rparr>"

section \<open>What the verifier accepts\<close>

text \<open>Facts of the Rust types: array fields have their lengths.\<close>

definition wf_anchor :: "Anchor \<Rightarrow> bool" where
  "wf_anchor a \<longleftrightarrow> length (com_bytes (an_state_root a)) = 32 \<and> length (anchor_hash_bytes (an_parent a)) = 32 \<and>
     length (an_mac a) = 32"

text \<open>What both digests cover: every field but the scheme.\<close>

definition anchor_fields :: "Anchor \<Rightarrow> ChainId \<times> u64 \<times> Commitment \<times> AnchorHash \<times> bytes" where
  "anchor_fields a = (an_chain_id a, an_height a, an_state_root a, an_parent a, an_mac a)"

lemmas be_inj = to_be_bytes_inj

lemma fields_eqI:
  assumes "wf_anchor a" "wf_anchor b"
    and "to_be_bytes (chain_num (an_chain_id a)) = to_be_bytes (chain_num (an_chain_id b))"
    and "to_be_bytes (an_height a) = to_be_bytes (an_height b)"
    and "com_bytes (an_state_root a) @ anchor_hash_bytes (an_parent a) @ an_mac a =
         com_bytes (an_state_root b) @ anchor_hash_bytes (an_parent b) @ an_mac b"
  shows "anchor_fields a = anchor_fields b"
  using assms by (auto simp: anchor_fields_def wf_anchor_def be_inj append_eq_append_conv
      intro: ChainId.expand Commitment.expand AnchorHash.expand)

lemma anchor_preimage_inj:
  assumes "wf_anchor a" "wf_anchor b" "anchor_preimage a = anchor_preimage b"
  shows "anchor_fields a = anchor_fields b"
  using assms by (intro fields_eqI) (simp_all add: anchor_preimage_def)

lemma abi_encode_inj:
  assumes "wf_anchor a" "wf_anchor b"
    and "solidity_abi_encode (an_chain_id a) (an_height a) (an_state_root a) (an_parent a) (an_mac a) =
         solidity_abi_encode (an_chain_id b) (an_height b) (an_state_root b) (an_parent b) (an_mac b)"
  shows "anchor_fields a = anchor_fields b"
  using assms by (intro fields_eqI) (simp_all add: solidity_abi_encode_def)

text \<open>The documented behaviour of the \<open>k256\<close> signing key \<open>inner\<close> and of the Keccak digest.\<close>

definition k256_signs :: "'x crypto \<Rightarrow> 'x \<Rightarrow> bool" where
  "k256_signs C inner \<longleftrightarrow> (\<forall>digest. length digest = 32 \<longrightarrow> (\<exists>sig r.
     sign_prehash_recoverable C inner digest = Some (sig, r) \<and> r \<in> {0, 1} \<and>
     length (sig_to_bytes C sig) = 64 \<and> sig_try_from C (sig_to_bytes C sig) = Some sig \<and>
     sig_normalize_s C sig = None \<and> recovery_from_byte C r = Some r \<and>
     recover_from_prehash C digest sig r = Some (verifying_key C inner)))"

definition keccak_len :: "'x crypto \<Rightarrow> bool" where
  "keccak_len C \<longleftrightarrow> (\<forall>bs. length (keccak256 C bs) = 32)"

lemma eth_addresses_agree:
  "keccak_len C \<Longrightarrow> eth_address_from_verifying_key C vk = EthAddress_from_verifying_key C vk"
  by (simp add: eth_address_from_verifying_key_def EthAddress_from_verifying_key_def keccak_len_def)

lemma ecdsa_sign_verifies:
  assumes "k256_signs C inner" "keccak_len C" "an_auth_scheme a = Scheme_EcdsaSecp256k1"
  shows "\<exists>sig. EcdsaSecp256k1Signer_sign C inner a = Inr (Cred_EcdsaSecp256k1 sig) \<and> length sig = ECDSA_SIG_LEN \<and>
    verify_ecdsa C a sig (EcdsaSecp256k1Signer_address C inner) = Inr ()"
proof -
  from assms(2) have "length (eth_signed_message_hash C a) = 32"
    by (simp add: eth_signed_message_hash_def Let_def keccak_len_def)
  with assms(1) obtain sig r where s: "sign_prehash_recoverable C inner (eth_signed_message_hash C a) = Some (sig, r)"
    "r \<in> {0, 1}" "length (sig_to_bytes C sig) = 64" "sig_try_from C (sig_to_bytes C sig) = Some sig"
    "sig_normalize_s C sig = None" "recovery_from_byte C r = Some r"
    "recover_from_prehash C (eth_signed_message_hash C a) sig r = Some (verifying_key C inner)"
    unfolding k256_signs_def by meson
  let ?sig = "sig_to_bytes C sig @ [r + 27]"
  have "?sig ! 64 = r + 27" "take 64 ?sig = sig_to_bytes C sig" using s(3) by (simp_all add: nth_append)
  with s have "verify_ecdsa C a ?sig (EcdsaSecp256k1Signer_address C inner) = Inr ()"
    by (auto simp: verify_ecdsa_def Let_def EcdsaSecp256k1Signer_address_def eth_addresses_agree [OF assms(2)])
  moreover have "EcdsaSecp256k1Signer_sign C inner a = Inr (Cred_EcdsaSecp256k1 ?sig)"
    using s(1) assms(3) by (simp add: EcdsaSecp256k1Signer_sign_def Let_def flip: append_assoc)
  ultimately show ?thesis using s(3) by (auto simp: ECDSA_SIG_LEN_def)
qed

text \<open>
  What the ECDSA signer produces, the verifier accepts: signing an anchor of the ECDSA scheme
  yields a 65-byte credential that verifies against the signer's own address. The key behaves as
  \<open>k256\<close> documents: signatures round-trip through their 64 bytes, are low-s, and recover their key.
\<close>

theorem ecdsa_round_trip:
  assumes "k256_signs C inner" "keccak_len C" "an_auth_scheme a = Scheme_EcdsaSecp256k1"
  shows "\<exists>sig. EcdsaSecp256k1Signer_sign C inner a = Inr (Cred_EcdsaSecp256k1 sig) \<and> length sig = ECDSA_SIG_LEN \<and>
    verify_credential C a (Cred_EcdsaSecp256k1 sig) (Exp_EcdsaSecp256k1 (EcdsaSecp256k1Signer_address C inner)) = Inr ()"
  using ecdsa_sign_verifies [OF assms] assms(3) by (auto simp: verify_credential_def)

text \<open>A concrete instance of the crates: digests that pick or pad 32 bytes and a fixed key.\<close>

definition pad32 :: "bytes \<Rightarrow> bytes" where
  "pad32 bs = take 32 (bs @ replicate 32 0)"

definition toy_crypto :: "bytes crypto" where
  "toy_crypto = \<lparr>blake3 = \<lambda>bs. pad32 (drop 33 bs), blake3_keyed = \<lambda>k bs. pad32 (k @ bs), keccak256 = pad32,
     recovery_from_byte = \<lambda>b. if b \<le> 3 then Some b else None,
     sig_try_from = \<lambda>bs. if length bs = 64 then Some bs else None, sig_normalize_s = \<lambda>_. None, sig_to_bytes = \<lambda>s. s,
     recover_from_prehash = \<lambda>d s r. if s = d @ d then Some (replicate 65 4) else None,
     sign_prehash_recoverable = \<lambda>k d. Some (take 64 (d @ d @ replicate 64 0), 0),
     verifying_key = \<lambda>_. replicate 65 4, to_encoded_point = \<lambda>vk. vk, production_pqc = None\<rparr>"

lemma toy_k256: "k256_signs toy_crypto k" "keccak_len toy_crypto"
  by (auto simp: k256_signs_def keccak_len_def toy_crypto_def pad32_def)

theorem ecdsa_round_trip_witness:
  "\<exists>sig. verify_credential toy_crypto (Anchor_ecdsa (ChainId 7) 0 (Commitment (replicate 32 1)) ANCHOR_GENESIS_PARENT)
     (Cred_EcdsaSecp256k1 sig) (Exp_EcdsaSecp256k1 (EcdsaSecp256k1Signer_address toy_crypto [])) = Inr ()"
  using ecdsa_round_trip [OF toy_k256, of "Anchor_ecdsa (ChainId 7) 0 (Commitment (replicate 32 1)) ANCHOR_GENESIS_PARENT" "[]"]
  by (auto simp: Anchor_ecdsa_def)

text \<open>
  C13: the verifier is a gate that fails closed: it accepts exactly an anchor whose scheme, credential
  and configuration agree and whose check passes. A MAC anchor needs the MAC under the configured key,
  an ECDSA anchor a signature that recovers the configured signer, a hybrid anchor both signatures in
  a build with the post-quantum feature; an anchor of the validity-proof scheme is never accepted.
\<close>

theorem credential_gate:
  "verify_credential C a cr (VerifierConfig_as_expected_for cfg a) = Inr () \<longleftrightarrow>
     an_auth_scheme a = VerifierConfig_scheme cfg \<and>
     ((\<exists>key. cr = Cred_Blake3Mac \<and> cfg = Cfg_Blake3Mac key \<and>
         an_mac a = compute_mac C (an_chain_id a) (an_height a) (an_state_root a) (an_parent a) key) \<or>
      (\<exists>sig signer. cr = Cred_EcdsaSecp256k1 sig \<and> cfg = Cfg_EcdsaSecp256k1 signer \<and>
         verify_ecdsa C a sig signer = Inr ()) \<or>
      (\<exists>sig msig signer pk M. cr = Cred_MlDsa65Hybrid sig msig \<and> cfg = Cfg_MlDsa65Hybrid signer pk \<and>
         production_pqc C = Some M \<and> verify_ecdsa C a sig signer = Inr () \<and> verify_mldsa65 C M a msig pk = Inr ()))"
  by (cases cfg; cases cr; cases "an_auth_scheme a")
    (auto simp: verify_credential_def verify_hybrid_def verify_sp1_def Anchor_verify_mac_def
      split: option.splits sum.splits)

end
