(* ===== verification/Anchor_Log.thy ===== *)
theory Anchor_Log
  imports Anchor
begin

text \<open>
  The append-only anchor log of one chain (\<open>suwappudb-bridge/src/anchor/log.rs\<close>): every operation,
  the states it can reach by appending, and what such a log guarantees. The height counter
  \<open>prev.height + 1\<close> is computed modulo 2^64, as in a build without overflow checks; a log that long
  cannot exist.
\<close>

section \<open>The log\<close>

datatype AppendError =
    ChainMismatch ChainId ChainId
  | ParentMismatch AnchorHash AnchorHash
  | AnchorHeightGap u64 u64
  | BadAuth
  | UnsupportedAuthScheme AuthScheme
  | SchemeRequiresSigner
  | CredentialInvalid CredentialVerifyError

record AnchorEntry =
  ent_anchor :: Anchor
  ent_credential :: AnchorAuthCredential

record AnchorLog =
  log_chain_id :: ChainId
  log_entries :: "AnchorEntry list"

definition AnchorLog_new :: "ChainId \<Rightarrow> AnchorLog" where
  "AnchorLog_new chain = \<lparr>log_chain_id = chain, log_entries = []\<rparr>"

definition log_expected :: "'x crypto \<Rightarrow> AnchorLog \<Rightarrow> AnchorHash \<times> u64" where
  "log_expected C log =
     (if log_entries log = [] then (ANCHOR_GENESIS_PARENT, 0)
      else let prev = ent_anchor (last (log_entries log)) in (Anchor_hash C prev, an_height prev + 1))"

definition AnchorLog_append_with_credential ::
  "'x crypto \<Rightarrow> AnchorLog \<Rightarrow> Anchor \<Rightarrow> AnchorAuthCredential \<Rightarrow> VerifierConfig \<Rightarrow> (AppendError + unit) \<times> AnchorLog" where
  "AnchorLog_append_with_credential C log a credential config =
     (if an_chain_id a \<noteq> log_chain_id log then (Inl (ChainMismatch (log_chain_id log) (an_chain_id a)), log)
      else let (expected_parent, expected_height) = log_expected C log in
        if an_parent a \<noteq> expected_parent then (Inl (ParentMismatch expected_parent (an_parent a)), log)
        else if an_height a \<noteq> expected_height then (Inl (AnchorHeightGap expected_height (an_height a)), log)
        else case verify_credential C a credential (VerifierConfig_as_expected_for config a) of
          Inl e \<Rightarrow> (Inl (CredentialInvalid e), log)
        | Inr _ \<Rightarrow> (Inr (), log\<lparr>log_entries := log_entries log @ [\<lparr>ent_anchor = a, ent_credential = credential\<rparr>]\<rparr>))"

definition AnchorLog_append :: "'x crypto \<Rightarrow> AnchorLog \<Rightarrow> Anchor \<Rightarrow> bytes \<Rightarrow> (AppendError + unit) \<times> AnchorLog" where
  "AnchorLog_append C log a key =
     (let delegate =
        (case AnchorLog_append_with_credential C log a Cred_Blake3Mac (Cfg_Blake3Mac key) of
           (Inl (CredentialInvalid Blake3MacInvalid), log1) \<Rightarrow> (Inl BadAuth, log1)
         | other \<Rightarrow> other)
      in if an_chain_id a = log_chain_id log then
           case Anchor_verify_auth_result C a key of
             Inl (UnsupportedAuth scheme) \<Rightarrow> (Inl (UnsupportedAuthScheme scheme), log)
           | _ \<Rightarrow> delegate
         else delegate)"

definition AnchorLog_entry_at :: "AnchorLog \<Rightarrow> u64 \<Rightarrow> AnchorEntry option" where
  "AnchorLog_entry_at log height =
     (let idx = unat height in if idx < length (log_entries log) then Some (log_entries log ! idx) else None)"

definition AnchorLog_at :: "AnchorLog \<Rightarrow> u64 \<Rightarrow> Anchor option" where
  "AnchorLog_at log height = map_option ent_anchor (AnchorLog_entry_at log height)"

definition AnchorLog_credential_at :: "AnchorLog \<Rightarrow> u64 \<Rightarrow> AnchorAuthCredential option" where
  "AnchorLog_credential_at log height = map_option ent_credential (AnchorLog_entry_at log height)"

definition AnchorLog_latest_entry :: "AnchorLog \<Rightarrow> AnchorEntry option" where
  "AnchorLog_latest_entry log = (if log_entries log = [] then None else Some (last (log_entries log)))"

definition AnchorLog_latest :: "AnchorLog \<Rightarrow> Anchor option" where
  "AnchorLog_latest log = map_option ent_anchor (AnchorLog_latest_entry log)"

definition AnchorLog_len :: "AnchorLog \<Rightarrow> usize" where
  "AnchorLog_len log = length (log_entries log)"

definition AnchorLog_is_empty :: "AnchorLog \<Rightarrow> bool" where
  "AnchorLog_is_empty log \<longleftrightarrow> log_entries log = []"

definition AnchorLog_iter :: "AnchorLog \<Rightarrow> Anchor list" where
  "AnchorLog_iter log = map ent_anchor (log_entries log)"

section \<open>Reachable logs\<close>

text \<open>The logs a chain can have: any sequence of attempted appends, by either entry point.\<close>

inductive log_reachable :: "'x crypto \<Rightarrow> ChainId \<Rightarrow> AnchorLog \<Rightarrow> bool" for C :: "'x crypto" and chain :: ChainId where
  log_new: "log_reachable C chain (AnchorLog_new chain)"
| log_credential: "log_reachable C chain log \<Longrightarrow>
    log_reachable C chain (snd (AnchorLog_append_with_credential C log a cr cfg))"
| log_mac: "log_reachable C chain log \<Longrightarrow> log_reachable C chain (snd (AnchorLog_append C log a key))"

text \<open>
  A chain of entries from a height and a parent hash: each names the hash of the one before it, and
  each was accepted by the verifier under some configuration.
\<close>

fun entries_ok :: "'x crypto \<Rightarrow> ChainId \<Rightarrow> nat \<Rightarrow> AnchorHash \<Rightarrow> AnchorEntry list \<Rightarrow> bool" where
  "entries_ok C chain n par [] \<longleftrightarrow> True"
| "entries_ok C chain n par (e # es) \<longleftrightarrow>
     an_chain_id (ent_anchor e) = chain \<and> an_height (ent_anchor e) = word_of_nat n \<and> an_parent (ent_anchor e) = par \<and>
     (\<exists>cfg. verify_credential C (ent_anchor e) (ent_credential e) (VerifierConfig_as_expected_for cfg (ent_anchor e)) = Inr ()) \<and>
     entries_ok C chain (Suc n) (Anchor_hash C (ent_anchor e)) es"

definition log_ok :: "'x crypto \<Rightarrow> AnchorLog \<Rightarrow> bool" where
  "log_ok C log \<longleftrightarrow> entries_ok C (log_chain_id log) 0 ANCHOR_GENESIS_PARENT (log_entries log)"

lemma entries_ok_append:
  "entries_ok C chain n par (es @ fs) \<longleftrightarrow>
   entries_ok C chain n par es \<and>
   entries_ok C chain (n + length es) (if es = [] then par else Anchor_hash C (ent_anchor (last es))) fs"
proof (induction es arbitrary: n par)
  case (Cons e es)
  then show ?case by (cases "es = []") auto
qed simp

lemma entries_ok_nth:
  "entries_ok C chain n par es \<Longrightarrow> i < length es \<Longrightarrow>
   an_chain_id (ent_anchor (es ! i)) = chain \<and> an_height (ent_anchor (es ! i)) = word_of_nat (n + i) \<and>
   an_parent (ent_anchor (es ! i)) = (if i = 0 then par else Anchor_hash C (ent_anchor (es ! (i - 1)))) \<and>
   (\<exists>cfg. verify_credential C (ent_anchor (es ! i)) (ent_credential (es ! i))
      (VerifierConfig_as_expected_for cfg (ent_anchor (es ! i))) = Inr ())"
proof (induction es arbitrary: n par i)
  case (Cons e es)
  show ?case
  proof (cases i)
    case 0
    with Cons.prems show ?thesis by auto
  next
    case (Suc j)
    with Cons.IH [of "Suc n" "Anchor_hash C (ent_anchor e)" j] Cons.prems show ?thesis by (cases j) auto
  qed
qed simp

lemma log_ok_expected:
  assumes "log_ok C log"
  shows "log_expected C log =
    (if log_entries log = [] then ANCHOR_GENESIS_PARENT else Anchor_hash C (ent_anchor (last (log_entries log))),
     word_of_nat (length (log_entries log)))"
proof (cases "log_entries log = []")
  case False
  then have "last (log_entries log) = log_entries log ! (length (log_entries log) - 1)" by (rule last_conv_nth)
  with assms False entries_ok_nth [of C _ 0 _ "log_entries log" "length (log_entries log) - 1"]
  have "an_height (ent_anchor (last (log_entries log))) = word_of_nat (length (log_entries log) - 1)"
    by (auto simp: log_ok_def)
  with False have "an_height (ent_anchor (last (log_entries log))) + 1 = word_of_nat (length (log_entries log))"
    by (cases "length (log_entries log)") (simp_all add: add.commute)
  with False show ?thesis by (simp add: log_expected_def Let_def)
qed (simp add: log_expected_def)

text \<open>When an append succeeds, and what it then does.\<close>

lemma append_with_credential_ok:
  "AnchorLog_append_with_credential C log a cr cfg = (Inr (), log') \<longleftrightarrow>
     an_chain_id a = log_chain_id log \<and> (an_parent a, an_height a) = log_expected C log \<and>
     verify_credential C a cr (VerifierConfig_as_expected_for cfg a) = Inr () \<and>
     log' = log\<lparr>log_entries := log_entries log @ [\<lparr>ent_anchor = a, ent_credential = cr\<rparr>]\<rparr>"
  by (cases "log_expected C log")
    (auto simp: AnchorLog_append_with_credential_def split: if_splits sum.splits)

lemma append_with_credential_err:
  "AnchorLog_append_with_credential C log a cr cfg = (Inl e, log') \<Longrightarrow> log' = log"
  by (auto simp: AnchorLog_append_with_credential_def Let_def split: if_splits sum.splits prod.splits)

lemma append_cases:
  "AnchorLog_append C log a key = AnchorLog_append_with_credential C log a Cred_Blake3Mac (Cfg_Blake3Mac key) \<or>
   (\<exists>e. AnchorLog_append C log a key = (Inl e, log))"
proof -
  obtain r log1 where r: "AnchorLog_append_with_credential C log a Cred_Blake3Mac (Cfg_Blake3Mac key) = (r, log1)"
    by (cases "AnchorLog_append_with_credential C log a Cred_Blake3Mac (Cfg_Blake3Mac key)")
  with append_with_credential_err [of C log a Cred_Blake3Mac "Cfg_Blake3Mac key"] show ?thesis
    by (auto simp: AnchorLog_append_def Let_def split: sum.splits AuthVerifyError.splits AppendError.splits
        CredentialVerifyError.splits)
qed

lemma log_ok_append:
  assumes "log_ok C log"
  shows "log_ok C (snd (AnchorLog_append_with_credential C log a cr cfg))"
proof (cases "AnchorLog_append_with_credential C log a cr cfg")
  case (Pair r log')
  show ?thesis
  proof (cases r)
    case (Inl e)
    with Pair append_with_credential_err assms show ?thesis by fastforce
  next
    case (Inr u)
    with Pair have "AnchorLog_append_with_credential C log a cr cfg = (Inr (), log')" by simp
    with assms Pair show ?thesis
      unfolding append_with_credential_ok
      by (auto simp: log_ok_expected log_ok_def entries_ok_append)
  qed
qed

lemma append_chain_id: "log_chain_id (snd (AnchorLog_append_with_credential C log a cr cfg)) = log_chain_id log"
  by (auto simp: AnchorLog_append_with_credential_def Let_def split: sum.splits prod.splits)

lemma reachable_ok: "log_reachable C chain log \<Longrightarrow> log_ok C log \<and> log_chain_id log = chain"
proof (induction rule: log_reachable.induct)
  case log_new
  then show ?case by (simp add: AnchorLog_new_def log_ok_def)
next
  case (log_credential log a cr cfg)
  then show ?case by (simp add: log_ok_append append_chain_id)
next
  case (log_mac log a key)
  with append_cases [of C log a key] show ?case by (auto simp: log_ok_append append_chain_id)
qed

section \<open>Properties\<close>

text \<open>
  C16: a log is a dense, linked and authenticated chain, whatever appends were tried on it: the entry
  found at a height is an anchor of this chain with that height, it names the hash of the entry below
  it (the genesis parent at height 0), and the verifier accepted it under some configuration; every
  height below the length has an entry and no other has.
\<close>

theorem anchor_log_invariant:
  assumes "log_reachable C chain log"
  shows "(AnchorLog_entry_at log h \<noteq> None \<longleftrightarrow> unat h < AnchorLog_len log) \<and>
    (\<forall>e. AnchorLog_entry_at log h = Some e \<longrightarrow>
      an_chain_id (ent_anchor e) = chain \<and> an_height (ent_anchor e) = h \<and>
      an_parent (ent_anchor e) = (if h = 0 then ANCHOR_GENESIS_PARENT
                                  else Anchor_hash C (the (AnchorLog_at log (h - 1)))) \<and>
      (\<exists>cfg. verify_credential C (ent_anchor e) (ent_credential e)
         (VerifierConfig_as_expected_for cfg (ent_anchor e)) = Inr ()))"
proof -
  from reachable_ok [OF assms] have ok: "entries_ok C chain 0 ANCHOR_GENESIS_PARENT (log_entries log)"
    by (auto simp: log_ok_def)
  have below: "the (AnchorLog_at log (h - 1)) = ent_anchor (log_entries log ! (unat h - 1))"
    if "h \<noteq> 0" "unat h < length (log_entries log)"
    using that by (simp add: AnchorLog_at_def AnchorLog_entry_at_def Let_def unat_minus_one)
  have "h = 0 \<longleftrightarrow> unat h = 0" by (simp add: unat_eq_0)
  with below entries_ok_nth [OF ok, of "unat h"] show ?thesis
    by (auto simp: AnchorLog_entry_at_def AnchorLog_len_def Let_def split: if_splits)
qed

text \<open>Two anchors in a row on one chain, built from the concrete instance of the crates.\<close>

definition toy_log :: AnchorLog where
  "toy_log =
     (let a0 = Anchor_new toy_crypto (ChainId 7) 0 (Commitment (replicate 32 1)) ANCHOR_GENESIS_PARENT [3];
          a1 = Anchor_new toy_crypto (ChainId 7) 1 (Commitment (replicate 32 2)) (Anchor_hash toy_crypto a0) [3]
      in snd (AnchorLog_append toy_crypto (snd (AnchorLog_append toy_crypto (AnchorLog_new (ChainId 7)) a0 [3])) a1 [3]))"

lemma toy_log_reachable: "log_reachable toy_crypto (ChainId 7) toy_log"
  unfolding toy_log_def Let_def by (intro log_reachable.intros)

theorem anchor_log_invariant_witness:
  "\<exists>e. AnchorLog_entry_at toy_log 1 = Some e \<and> an_height (ent_anchor e) = 1"
proof -
  have "AnchorLog_len toy_log = 2" by code_simp
  with anchor_log_invariant [OF toy_log_reachable, of 1] show ?thesis by auto
qed

lemma entries_agree:
  assumes "\<forall>e \<in> set (es @ fs). wf_anchor (ent_anchor e)"
    and "inj_on (blake3 C) (anchor_preimage ` ent_anchor ` set (es @ fs))"
    and "length es = length fs" "entries_ok C chain n par es" "entries_ok C chain n par fs"
    and "es \<noteq> [] \<Longrightarrow> Anchor_hash C (ent_anchor (last es)) = Anchor_hash C (ent_anchor (last fs))"
  shows "map (anchor_fields \<circ> ent_anchor) es = map (anchor_fields \<circ> ent_anchor) fs"
  using assms(3,1,2,4-6)
proof (induction es fs rule: rev_induct2)
  case 1
  then show ?case by simp
next
  case (4 e es f fs)
  from 4 have eq: "anchor_preimage (ent_anchor e) = anchor_preimage (ent_anchor f)"
    by (auto simp: Anchor_hash_def dest: inj_onD)
  with 4 have fields: "anchor_fields (ent_anchor e) = anchor_fields (ent_anchor f)" by (intro anchor_preimage_inj) auto
  then have par: "an_parent (ent_anchor e) = an_parent (ent_anchor f)" by (simp add: anchor_fields_def)
  have "map (anchor_fields \<circ> ent_anchor) es = map (anchor_fields \<circ> ent_anchor) fs"
    using 4 par by (intro 4(1)) (auto simp: entries_ok_append inj_on_def split: if_splits)
  with fields show ?case by (simp add: comp_def)
qed simp_all

lemma log_latest_height:
  assumes "log_ok C log" "AnchorLog_latest log = Some a" "AnchorLog_len log \<le> 2 ^ 64"
  shows "unat (an_height a) = AnchorLog_len log - 1" "log_entries log \<noteq> []" "ent_anchor (last (log_entries log)) = a"
proof -
  from assms(2) show ne: "log_entries log \<noteq> []" and last: "ent_anchor (last (log_entries log)) = a"
    by (auto simp: AnchorLog_latest_def AnchorLog_latest_entry_def split: if_splits)
  from ne have "AnchorLog_len log - 1 < AnchorLog_len log" by (simp add: AnchorLog_len_def)
  with assms(1) have "an_height (ent_anchor (log_entries log ! (AnchorLog_len log - 1))) = word_of_nat (0 + (AnchorLog_len log - 1))"
    unfolding log_ok_def AnchorLog_len_def by (blast dest: entries_ok_nth)
  then have "an_height a = word_of_nat (AnchorLog_len log - 1)"
    using last last_conv_nth [OF ne] by (simp only: AnchorLog_len_def add_0)
  moreover have "AnchorLog_len log - 1 < 2 ^ 64" using assms(3) \<open>AnchorLog_len log - 1 < AnchorLog_len log\<close> by linarith
  ultimately show "unat (an_height a) = AnchorLog_len log - 1" by (simp add: unat_of_nat)
qed

text \<open>
  C17: the latest hash binds the whole history: two logs of one chain whose latest anchors have equal
  hashes have the same length and agree at every height in every field that is hashed. The digest must
  not collide on the anchors of the two logs. The scheme is not hashed and may differ.
\<close>

theorem anchor_history_bound:
  assumes "log_reachable C chain log1" "log_reachable C chain log2"
    and "AnchorLog_latest log1 = Some a" "AnchorLog_latest log2 = Some b" "Anchor_hash C a = Anchor_hash C b"
    and "AnchorLog_len log1 \<le> 2 ^ 64" "AnchorLog_len log2 \<le> 2 ^ 64"
    and "\<forall>x \<in> set (AnchorLog_iter log1 @ AnchorLog_iter log2). wf_anchor x"
    and "inj_on (blake3 C) (anchor_preimage ` set (AnchorLog_iter log1 @ AnchorLog_iter log2))"
  shows "map anchor_fields (AnchorLog_iter log1) = map anchor_fields (AnchorLog_iter log2)"
proof -
  note ok = reachable_ok [OF assms(1)] reachable_ok [OF assms(2)]
  note last1 = log_latest_height [OF ok(1) [THEN conjunct1] assms(3,6)]
  note last2 = log_latest_height [OF ok(2) [THEN conjunct1] assms(4,7)]
  have mem: "a \<in> set (AnchorLog_iter log1)" "b \<in> set (AnchorLog_iter log2)"
    using last1(2,3) last2(2,3) by (auto simp: AnchorLog_iter_def intro!: image_eqI)
  with assms(5,9) have "anchor_preimage a = anchor_preimage b" by (auto simp: Anchor_hash_def dest: inj_onD)
  with assms(8) mem have "anchor_fields a = anchor_fields b" by (intro anchor_preimage_inj) auto
  then have "an_height a = an_height b" by (simp add: anchor_fields_def)
  moreover have "0 < AnchorLog_len log1" "0 < AnchorLog_len log2"
    using last1(2) last2(2) by (simp_all add: AnchorLog_len_def)
  ultimately have len: "length (log_entries log1) = length (log_entries log2)"
    using last1(1) last2(1) unfolding AnchorLog_len_def by (metis Suc_diff_1)
  have wf: "\<forall>e \<in> set (log_entries log1 @ log_entries log2). wf_anchor (ent_anchor e)"
    using assms(8) by (auto simp: AnchorLog_iter_def)
  have "map (anchor_fields \<circ> ent_anchor) (log_entries log1) = map (anchor_fields \<circ> ent_anchor) (log_entries log2)"
    using entries_agree [OF wf _ len, of C chain 0 ANCHOR_GENESIS_PARENT] ok assms(5,9) last1(3) last2(3)
    by (auto simp: log_ok_def AnchorLog_iter_def image_Un)
  then show ?thesis by (simp add: AnchorLog_iter_def)
qed

text \<open>The same log after an append that was rejected for its height.\<close>

definition toy_log_retried :: AnchorLog where
  "toy_log_retried = snd (AnchorLog_append toy_crypto toy_log
     (Anchor_new toy_crypto (ChainId 7) 5 (Commitment (replicate 32 9)) ANCHOR_GENESIS_PARENT [3]) [3])"

theorem anchor_history_bound_witness:
  "map anchor_fields (AnchorLog_iter toy_log) = map anchor_fields (AnchorLog_iter toy_log_retried)"
proof -
  have reach: "log_reachable toy_crypto (ChainId 7) toy_log_retried"
    unfolding toy_log_retried_def by (intro log_mac toy_log_reachable)
  have latest: "AnchorLog_latest toy_log = Some (last (AnchorLog_iter toy_log))"
    "AnchorLog_latest toy_log_retried = Some (last (AnchorLog_iter toy_log_retried))" by code_simp+
  have hash: "Anchor_hash toy_crypto (last (AnchorLog_iter toy_log)) =
    Anchor_hash toy_crypto (last (AnchorLog_iter toy_log_retried))" by code_simp
  have len: "AnchorLog_len toy_log = 2" "AnchorLog_len toy_log_retried = 2" by code_simp+
  have wf: "list_all wf_anchor (AnchorLog_iter toy_log @ AnchorLog_iter toy_log_retried)" by code_simp
  have "distinct (map (blake3 toy_crypto) (remdups (map anchor_preimage (AnchorLog_iter toy_log @ AnchorLog_iter toy_log_retried))))"
    by code_simp
  then have inj: "inj_on (blake3 toy_crypto) (anchor_preimage ` set (AnchorLog_iter toy_log @ AnchorLog_iter toy_log_retried))"
    by (simp add: distinct_map image_Un)
  show ?thesis
    using anchor_history_bound [OF toy_log_reachable reach latest hash _ _ _ inj] wf
    by (simp add: len list_all_iff)
qed

end
