(* ===== verification/Dispatcher.thy ===== *)
theory Dispatcher
  imports Anchor_Log "HOL-Library.Product_Lexorder"
begin

text \<open>
  The multi-chain anchor dispatcher and its parity check (\<open>suwappudb-bridge/src/anchor/dispatcher.rs\<close>),
  and the in-memory anchor reader (\<open>l1_reader.rs\<close>). A panic of an \<open>expect\<close> is the outer result \<open>None\<close>;
  that it cannot happen on a registered dispatcher is part of the theorems.
\<close>

section \<open>The dispatcher\<close>

definition LTP_QUORUM_MIN_NUMERATOR :: usize where
  "LTP_QUORUM_MIN_NUMERATOR = 5"

definition LTP_QUORUM_DENOMINATOR :: usize where
  "LTP_QUORUM_DENOMINATOR = 9"

datatype DispatchSignerError =
    ChainNotRegistered ChainId
  | DispatchSchemeMismatch AuthScheme AuthScheme
  | Blake3UsesDispatch
  | UnsupportedProducerScheme AuthScheme
  | DispatchSigner SignerError
  | DispatchAppend AppendError

datatype ParityResult =
    Agreed Commitment
  | Disagreed "(ChainId \<times> Commitment) list" "ChainId list"

record AnchorDispatcher =
  disp_logs :: "(ChainId, AnchorLog) btree_map"
  disp_configs :: "(ChainId, VerifierConfig) btree_map"

definition AnchorDispatcher_new :: AnchorDispatcher where
  "AnchorDispatcher_new = \<lparr>disp_logs = [], disp_configs = []\<rparr>"

definition AnchorDispatcher_register_with_config :: "AnchorDispatcher \<Rightarrow> ChainId \<Rightarrow> VerifierConfig \<Rightarrow> AnchorDispatcher" where
  "AnchorDispatcher_register_with_config d chain config =
     d\<lparr>disp_logs := (case map_get (disp_logs d) chain of
                       None \<Rightarrow> bt_insert chain (AnchorLog_new chain) (disp_logs d)
                     | Some _ \<Rightarrow> disp_logs d),
       disp_configs := bt_insert chain config (disp_configs d)\<rparr>"

definition AnchorDispatcher_register :: "AnchorDispatcher \<Rightarrow> ChainId \<Rightarrow> bytes \<Rightarrow> AnchorDispatcher" where
  "AnchorDispatcher_register d chain key = AnchorDispatcher_register_with_config d chain (Cfg_Blake3Mac key)"

definition AnchorDispatcher_config :: "AnchorDispatcher \<Rightarrow> ChainId \<Rightarrow> VerifierConfig option" where
  "AnchorDispatcher_config d chain = map_get (disp_configs d) chain"

definition AnchorDispatcher_log :: "AnchorDispatcher \<Rightarrow> ChainId \<Rightarrow> AnchorLog option" where
  "AnchorDispatcher_log d chain = map_get (disp_logs d) chain"

definition AnchorDispatcher_len :: "AnchorDispatcher \<Rightarrow> usize" where
  "AnchorDispatcher_len d = length (disp_logs d)"

definition AnchorDispatcher_is_empty :: "AnchorDispatcher \<Rightarrow> bool" where
  "AnchorDispatcher_is_empty d \<longleftrightarrow> disp_logs d = []"

text \<open>\<open>logs.get(&id).and_then(AnchorLog::latest).map_or(GENESIS_PARENT, Anchor::hash)\<close>.\<close>

definition next_parent :: "'x crypto \<Rightarrow> AnchorDispatcher \<Rightarrow> ChainId \<Rightarrow> AnchorHash" where
  "next_parent C d chain =
     (case map_get (disp_logs d) chain of
        None \<Rightarrow> ANCHOR_GENESIS_PARENT
      | Some log \<Rightarrow> (case AnchorLog_latest log of None \<Rightarrow> ANCHOR_GENESIS_PARENT | Some a \<Rightarrow> Anchor_hash C a))"

definition AnchorDispatcher_dispatch_with_signer ::
  "'x crypto \<Rightarrow> AnchorDispatcher \<Rightarrow> ChainId \<Rightarrow> u64 \<Rightarrow> Commitment \<Rightarrow> AnchorSigner \<Rightarrow>
   ((DispatchSignerError + Anchor) \<times> AnchorDispatcher) option" where
  "AnchorDispatcher_dispatch_with_signer C d chain height root signer =
     (case map_get (disp_configs d) chain of
        None \<Rightarrow> Some (Inl (ChainNotRegistered chain), d)
      | Some config \<Rightarrow>
          if VerifierConfig_scheme config \<noteq> signer_scheme signer
          then Some (Inl (DispatchSchemeMismatch (VerifierConfig_scheme config) (signer_scheme signer)), d)
          else if VerifierConfig_scheme config = Scheme_Blake3Mac then Some (Inl Blake3UsesDispatch, d)
          else if signer_scheme signer \<noteq> Scheme_EcdsaSecp256k1
          then Some (Inl (UnsupportedProducerScheme (signer_scheme signer)), d)
          else let a = Anchor_ecdsa chain height root (next_parent C d chain) in
            case signer_sign signer a of
              Inl e \<Rightarrow> Some (Inl (DispatchSigner e), d)
            | Inr (Cred_EcdsaSecp256k1 sig) \<Rightarrow>
                (case map_get (disp_logs d) chain of
                   None \<Rightarrow> None
                 | Some log \<Rightarrow>
                     (case AnchorLog_append_with_credential C log a (Cred_EcdsaSecp256k1 sig) config of
                        (Inl e, log1) \<Rightarrow> Some (Inl (DispatchAppend e), d\<lparr>disp_logs := bt_insert chain log1 (disp_logs d)\<rparr>)
                      | (Inr _, log1) \<Rightarrow> Some (Inr a, d\<lparr>disp_logs := bt_insert chain log1 (disp_logs d)\<rparr>)))
            | Inr _ \<Rightarrow> Some (Inl (DispatchSigner SignerSchemeMismatch), d))"

text \<open>The loop of \<open>dispatch\<close> over the chain ids, with the anchors pushed so far.\<close>

fun dispatch_chains ::
  "'x crypto \<Rightarrow> u64 \<Rightarrow> Commitment \<Rightarrow> ChainId list \<Rightarrow> Anchor list \<Rightarrow> AnchorDispatcher \<Rightarrow>
   (((ChainId \<times> AppendError) + Anchor list) \<times> AnchorDispatcher) option" where
  "dispatch_chains C height root [] out d = Some (Inr out, d)"
| "dispatch_chains C height root (chain # rest) out d =
     (case map_get (disp_configs d) chain of
        None \<Rightarrow> None
      | Some (Cfg_Blake3Mac key) \<Rightarrow>
          let a = Anchor_new C chain height root (next_parent C d chain) key in
          (case map_get (disp_logs d) chain of
             None \<Rightarrow> None
           | Some log \<Rightarrow>
               (case AnchorLog_append C log a key of
                  (Inl e, log1) \<Rightarrow> Some (Inl (chain, e), d\<lparr>disp_logs := bt_insert chain log1 (disp_logs d)\<rparr>)
                | (Inr _, log1) \<Rightarrow>
                    dispatch_chains C height root rest (out @ [a]) (d\<lparr>disp_logs := bt_insert chain log1 (disp_logs d)\<rparr>)))
      | Some _ \<Rightarrow> Some (Inl (chain, SchemeRequiresSigner), d))"

definition AnchorDispatcher_dispatch ::
  "'x crypto \<Rightarrow> AnchorDispatcher \<Rightarrow> u64 \<Rightarrow> Commitment \<Rightarrow>
   (((ChainId \<times> AppendError) + Anchor list) \<times> AnchorDispatcher) option" where
  "AnchorDispatcher_dispatch C d height root = dispatch_chains C height root (map fst (disp_logs d)) [] d"

definition verify_entry_with_config :: "'x crypto \<Rightarrow> AnchorEntry \<Rightarrow> VerifierConfig \<Rightarrow> bool" where
  "verify_entry_with_config C e config =
     (if VerifierConfig_scheme config \<noteq> an_auth_scheme (ent_anchor e) then False
      else verify_credential C (ent_anchor e) (ent_credential e)
             (VerifierConfig_as_expected_for config (ent_anchor e)) = Inr ())"

text \<open>The loop of \<open>parity_check\<close>: the roots, the chains without an anchor, the ones that fail to verify.\<close>

fun parity_scan ::
  "'x crypto \<Rightarrow> AnchorDispatcher \<Rightarrow> u64 \<Rightarrow> (ChainId \<times> AnchorLog) list \<Rightarrow>
   (ChainId \<times> Commitment) list \<Rightarrow> ChainId list \<Rightarrow> ChainId list \<Rightarrow>
   ((ChainId \<times> Commitment) list \<times> ChainId list \<times> ChainId list) option" where
  "parity_scan C d height [] roots missing tampered = Some (roots, missing, tampered)"
| "parity_scan C d height ((chain, log) # rest) roots missing tampered =
     (case AnchorLog_entry_at log height of
        None \<Rightarrow> parity_scan C d height rest roots (missing @ [chain]) tampered
      | Some entry \<Rightarrow>
          (case map_get (disp_configs d) chain of
             None \<Rightarrow> None
           | Some config \<Rightarrow>
               parity_scan C d height rest (roots @ [(chain, an_state_root (ent_anchor entry))]) missing
                 (if \<not> verify_entry_with_config C entry config then tampered @ [chain] else tampered)))"

definition AnchorDispatcher_parity_check :: "'x crypto \<Rightarrow> AnchorDispatcher \<Rightarrow> u64 \<Rightarrow> ParityResult option" where
  "AnchorDispatcher_parity_check C d height =
     (case parity_scan C d height (disp_logs d) [] [] [] of
        None \<Rightarrow> None
      | Some (roots, missing, tampered) \<Rightarrow>
          Some (if missing \<noteq> [] then Disagreed roots missing
                else if tampered \<noteq> [] then Disagreed roots tampered
                else case roots of
                  [] \<Rightarrow> Disagreed [] []
                | (_, first) # _ \<Rightarrow>
                    if list_all (\<lambda>(_, r). r = first) roots then Agreed first else Disagreed roots []))"

section \<open>The mock anchor reader\<close>

record MockL1AnchorReader =
  reader_anchors :: "(ChainId \<times> u64, Anchor) btree_map"

definition MockL1AnchorReader_new :: MockL1AnchorReader where
  "MockL1AnchorReader_new = \<lparr>reader_anchors = []\<rparr>"

definition MockL1AnchorReader_insert :: "MockL1AnchorReader \<Rightarrow> ChainId \<Rightarrow> u64 \<Rightarrow> Anchor \<Rightarrow> MockL1AnchorReader" where
  "MockL1AnchorReader_insert r chain height a =
     r\<lparr>reader_anchors := bt_insert (chain, height) a (reader_anchors r)\<rparr>"

definition MockL1AnchorReader_read_anchor :: "MockL1AnchorReader \<Rightarrow> ChainId \<Rightarrow> u64 \<Rightarrow> Anchor option" where
  "MockL1AnchorReader_read_anchor r chain height = map_get (reader_anchors r) (chain, height)"

section \<open>The parity check\<close>

lemma parity_scan_eq:
  assumes "\<forall>e \<in> set ls. map_get (disp_configs d) (fst e) \<noteq> None"
  shows "parity_scan C d h ls roots missing tampered = Some
    (roots @ List.map_filter (\<lambda>(c, log). map_option (\<lambda>e. (c, an_state_root (ent_anchor e))) (AnchorLog_entry_at log h)) ls,
     missing @ map fst (filter (\<lambda>(c, log). AnchorLog_entry_at log h = None) ls),
     tampered @ map fst (filter (\<lambda>(c, log). \<exists>e. AnchorLog_entry_at log h = Some e \<and>
        \<not> verify_entry_with_config C e (the (map_get (disp_configs d) c))) ls))"
  using assms
proof (induction ls arbitrary: roots missing tampered)
  case (Cons l ls)
  then show ?case
    by (cases l; cases "AnchorLog_entry_at (snd l) h") (auto simp: List.map_filter_simps)
qed (simp add: List.map_filter_simps)

text \<open>Every log has a configuration; \<open>register_with_config\<close> maintains it.\<close>

definition configured :: "AnchorDispatcher \<Rightarrow> bool" where
  "configured d \<longleftrightarrow> (\<forall>e \<in> set (disp_logs d). map_get (disp_configs d) (fst e) \<noteq> None)"

text \<open>What agreement at a height means: every chain has an authentic anchor there, all with one root.\<close>

definition agrees_at :: "'x crypto \<Rightarrow> AnchorDispatcher \<Rightarrow> u64 \<Rightarrow> Commitment \<Rightarrow> bool" where
  "agrees_at C d h r \<longleftrightarrow> disp_logs d \<noteq> [] \<and>
     (\<forall>(c, log) \<in> set (disp_logs d). \<exists>e cfg. AnchorLog_entry_at log h = Some e \<and>
        map_get (disp_configs d) c = Some cfg \<and> an_state_root (ent_anchor e) = r \<and>
        an_auth_scheme (ent_anchor e) = VerifierConfig_scheme cfg \<and>
        verify_credential C (ent_anchor e) (ent_credential e) (VerifierConfig_as_expected_for cfg (ent_anchor e)) = Inr ())"

text \<open>
  The chains that a check can report, in the order of their ids: those without an anchor at the height, those whose anchor
  there does not verify, and those that have one, with its root.
\<close>

definition missing_at :: "AnchorDispatcher \<Rightarrow> u64 \<Rightarrow> ChainId list" where
  "missing_at d h = map fst (filter (\<lambda>(c, log). AnchorLog_entry_at log h = None) (disp_logs d))"

definition tampered_at :: "'x crypto \<Rightarrow> AnchorDispatcher \<Rightarrow> u64 \<Rightarrow> ChainId list" where
  "tampered_at C d h = map fst (filter (\<lambda>(c, log). \<exists>e. AnchorLog_entry_at log h = Some e \<and>
     \<not> verify_entry_with_config C e (the (map_get (disp_configs d) c))) (disp_logs d))"

definition anchored_at :: "AnchorDispatcher \<Rightarrow> u64 \<Rightarrow> ChainId list" where
  "anchored_at d h = map fst (filter (\<lambda>(c, log). AnchorLog_entry_at log h \<noteq> None) (disp_logs d))"

definition roots_at :: "AnchorDispatcher \<Rightarrow> u64 \<Rightarrow> (ChainId \<times> Commitment) list" where
  "roots_at d h = List.map_filter (\<lambda>(c, log). map_option (\<lambda>e. (c, an_state_root (ent_anchor e))) (AnchorLog_entry_at log h))
     (disp_logs d)"

lemma anchored_roots: "length (roots_at d h) = length (anchored_at d h)" "map fst (roots_at d h) = anchored_at d h"
proof -
  have "map fst (List.map_filter (\<lambda>(c, log). map_option (\<lambda>e. (c, an_state_root (ent_anchor e))) (AnchorLog_entry_at log h)) ls) =
      map fst (filter (\<lambda>(c, log). AnchorLog_entry_at log h \<noteq> None) ls)" for ls :: "(ChainId \<times> AnchorLog) list"
    by (induction ls) (auto simp: List.map_filter_simps split: option.splits)
  then show "map fst (roots_at d h) = anchored_at d h" by (simp add: roots_at_def anchored_at_def)
  then show "length (roots_at d h) = length (anchored_at d h)" by (metis length_map)
qed

lemma parity_scan_lists:
  "configured d \<Longrightarrow> parity_scan C d h (disp_logs d) [] [] [] = Some (roots_at d h, missing_at d h, tampered_at C d h)"
  using parity_scan_eq [of "disp_logs d" d C h "[]" "[]" "[]"]
  by (simp add: configured_def roots_at_def missing_at_def tampered_at_def)

lemma map_filter_roots:
  "(\<forall>l \<in> set ls. AnchorLog_entry_at (snd l) h \<noteq> None) \<Longrightarrow>
   List.map_filter (\<lambda>(c, log). map_option (\<lambda>e. (c, an_state_root (ent_anchor e))) (AnchorLog_entry_at log h)) ls =
   map (\<lambda>(c, log). (c, an_state_root (ent_anchor (the (AnchorLog_entry_at log h))))) ls"
  by (induction ls) (auto simp: List.map_filter_simps)

lemma parity_check_agreed:
  assumes "configured d"
  shows "\<exists>res. AnchorDispatcher_parity_check C d h = Some res \<and> (\<forall>r. res = Agreed r \<longleftrightarrow> agrees_at C d h r)"
proof -
  let ?ls = "disp_logs d"
  let ?bad = "\<lambda>(c, log). \<exists>e. AnchorLog_entry_at log h = Some e \<and>
        \<not> verify_entry_with_config C e (the (map_get (disp_configs d) c))"
  note scan = parity_scan_eq [OF assms [unfolded configured_def], of C h "[]" "[]" "[]"]
  show ?thesis
  proof (cases "(\<forall>l \<in> set ?ls. AnchorLog_entry_at (snd l) h \<noteq> None) \<and> (\<forall>l \<in> set ?ls. \<not> ?bad l)")
    case False
    then have "\<not> agrees_at C d h r" for r
      by (fastforce simp: agrees_at_def verify_entry_with_config_def)
    moreover have "\<exists>a b. AnchorDispatcher_parity_check C d h = Some (Disagreed a b)"
      using False by (auto simp: AnchorDispatcher_parity_check_def scan filter_empty_conv)
    ultimately show ?thesis by auto
  next
    case True
    then have good: "\<forall>l \<in> set ?ls. AnchorLog_entry_at (snd l) h \<noteq> None" by blast
    have empty: "filter (\<lambda>(c, log). AnchorLog_entry_at log h = None) ?ls = []" "filter ?bad ?ls = []"
      using True by (auto simp: filter_empty_conv)
    let ?root = "\<lambda>log. an_state_root (ent_anchor (the (AnchorLog_entry_at log h)))"
    have agree: "agrees_at C d h r \<longleftrightarrow> ?ls \<noteq> [] \<and> (\<forall>(c, log) \<in> set ?ls. ?root log = r)" for r
      using True assms
      by (fastforce simp: agrees_at_def configured_def verify_entry_with_config_def split: if_splits)
    have scan': "parity_scan C d h ?ls [] [] [] = Some (map (\<lambda>(c, log). (c, ?root log)) ?ls, [], [])"
      by (simp add: scan empty map_filter_roots [OF good])
    show ?thesis
    proof (cases ?ls)
      case Nil
      then show ?thesis by (simp add: AnchorDispatcher_parity_check_def agrees_at_def)
    next
      case (Cons l ls)
      have "list_all (\<lambda>(_, r). r = ?root (snd l)) (map (\<lambda>(c, log). (c, ?root log)) ?ls) \<longleftrightarrow>
          (\<forall>(c, log) \<in> set ?ls. ?root log = ?root (snd l))"
        by (auto simp: list_all_iff)
      with Cons show ?thesis
        unfolding AnchorDispatcher_parity_check_def scan' agree by (cases l) auto
    qed
  qed
qed

lemma parity_check_listed:
  assumes "configured d"
  shows "\<exists>res. AnchorDispatcher_parity_check C d h = Some res \<and> (\<forall>r. res = Agreed r \<longleftrightarrow> agrees_at C d h r) \<and>
    ((\<nexists>r. agrees_at C d h r) \<longrightarrow>
       res = Disagreed (roots_at d h) (if missing_at d h \<noteq> [] then missing_at d h else tampered_at C d h))"
proof -
  from parity_check_agreed [OF assms, of C h] obtain res where
    res: "AnchorDispatcher_parity_check C d h = Some res" "\<forall>r. res = Agreed r \<longleftrightarrow> agrees_at C d h r" by blast
  moreover have "res = Disagreed (roots_at d h) (if missing_at d h \<noteq> [] then missing_at d h else tampered_at C d h)"
    if "\<nexists>r. res = Agreed r"
    using res(1) that
    by (auto simp: AnchorDispatcher_parity_check_def parity_scan_lists [OF assms] split: if_splits list.splits)
  ultimately show ?thesis by blast
qed

lemma listed_chains:
  assumes "configured d"
  shows "c \<in> set (missing_at d h) \<longleftrightarrow> (\<exists>log. (c, log) \<in> set (disp_logs d) \<and> AnchorLog_entry_at log h = None)"
    and "c \<in> set (tampered_at C d h) \<longleftrightarrow> (\<exists>log e cfg. (c, log) \<in> set (disp_logs d) \<and> AnchorLog_entry_at log h = Some e \<and>
      map_get (disp_configs d) c = Some cfg \<and> \<not> verify_entry_with_config C e cfg)"
    and "(c, r) \<in> set (roots_at d h) \<longleftrightarrow>
      (\<exists>log e. (c, log) \<in> set (disp_logs d) \<and> AnchorLog_entry_at log h = Some e \<and> an_state_root (ent_anchor e) = r)"
proof -
  show "c \<in> set (missing_at d h) \<longleftrightarrow> (\<exists>log. (c, log) \<in> set (disp_logs d) \<and> AnchorLog_entry_at log h = None)"
    by (force simp: missing_at_def)
  show "c \<in> set (tampered_at C d h) \<longleftrightarrow> (\<exists>log e cfg. (c, log) \<in> set (disp_logs d) \<and> AnchorLog_entry_at log h = Some e \<and>
      map_get (disp_configs d) c = Some cfg \<and> \<not> verify_entry_with_config C e cfg)"
    using assms by (force simp: tampered_at_def configured_def)
  show "(c, r) \<in> set (roots_at d h) \<longleftrightarrow>
      (\<exists>log e. (c, log) \<in> set (disp_logs d) \<and> AnchorLog_entry_at log h = Some e \<and> an_state_root (ent_anchor e) = r)"
    by (force simp: roots_at_def List.map_filter_def)
qed

text \<open>
  C11: the parity check is exact. It returns. It reports agreement on a root if and only if some chain is
  registered and every registered chain has at that height an anchor with that root, of the scheme its
  configuration names, that the verifier accepts now. In every other case it reports disagreement, with two
  lists that are determined: the first has exactly the chains with an anchor at the height, each with the
  root of that anchor; the second has exactly the chains without an anchor at
  the height if there are any, and otherwise exactly the chains whose anchor there does not verify. With
  the logs in the order of a \<open>BTreeMap\<close>, both lists are in the order of the chain ids and repeat no chain.
\<close>

theorem parity_exact:
  assumes "configured d"
  shows "\<exists>res. AnchorDispatcher_parity_check C d h = Some res \<and> (\<forall>r. res = Agreed r \<longleftrightarrow> agrees_at C d h r) \<and>
    ((\<nexists>r. agrees_at C d h r) \<longrightarrow> (\<exists>divergent missing. res = Disagreed divergent missing \<and>
       (\<forall>c r. (c, r) \<in> set divergent \<longleftrightarrow>
          (\<exists>log e. (c, log) \<in> set (disp_logs d) \<and> AnchorLog_entry_at log h = Some e \<and> an_state_root (ent_anchor e) = r)) \<and>
       (\<forall>c. c \<in> set missing \<longleftrightarrow>
          (if \<exists>(c, log) \<in> set (disp_logs d). AnchorLog_entry_at log h = None
           then \<exists>log. (c, log) \<in> set (disp_logs d) \<and> AnchorLog_entry_at log h = None
           else \<exists>log e cfg. (c, log) \<in> set (disp_logs d) \<and> AnchorLog_entry_at log h = Some e \<and>
                  map_get (disp_configs d) c = Some cfg \<and> \<not> verify_entry_with_config C e cfg)) \<and>
       (bt_invar (disp_logs d) \<longrightarrow> sorted_wrt (<) (map fst divergent) \<and> sorted_wrt (<) missing)))"
proof -
  let ?miss = "if missing_at d h \<noteq> [] then missing_at d h else tampered_at C d h"
  have "sorted_wrt (<) (map fst (filter P (disp_logs d)))" if "bt_invar (disp_logs d)" for P
    using that by (simp add: bt_invar_def sorted_wrt_map sorted_wrt_filter)
  then have sorted: "bt_invar (disp_logs d) \<longrightarrow> sorted_wrt (<) (map fst (roots_at d h)) \<and> sorted_wrt (<) ?miss"
    unfolding anchored_roots anchored_at_def missing_at_def tampered_at_def by simp
  have any: "missing_at d h \<noteq> [] \<longleftrightarrow> (\<exists>(c, log) \<in> set (disp_logs d). AnchorLog_entry_at log h = None)"
    by (auto simp: missing_at_def filter_empty_conv)
  note listed = listed_chains(1,3) [OF assms, where h = h] listed_chains(2) [OF assms, where C = C and h = h]
  have miss: "\<forall>c. c \<in> set ?miss \<longleftrightarrow> (if \<exists>(c, log) \<in> set (disp_logs d). AnchorLog_entry_at log h = None
      then \<exists>log. (c, log) \<in> set (disp_logs d) \<and> AnchorLog_entry_at log h = None
      else \<exists>log e cfg. (c, log) \<in> set (disp_logs d) \<and> AnchorLog_entry_at log h = Some e \<and>
        map_get (disp_configs d) c = Some cfg \<and> \<not> verify_entry_with_config C e cfg)"
    unfolding any [symmetric] using listed(1,3) by (simp split: if_split)
  from parity_check_listed [OF assms, of C h] obtain res where
    "AnchorDispatcher_parity_check C d h = Some res" "\<forall>r. res = Agreed r \<longleftrightarrow> agrees_at C d h r"
    "(\<nexists>r. agrees_at C d h r) \<longrightarrow> res = Disagreed (roots_at d h) ?miss" by blast
  then show ?thesis
    by (intro exI [of _ res] conjI impI exI [of _ "roots_at d h"] exI [of _ ?miss] miss sorted [THEN mp, THEN conjunct1]
        sorted [THEN mp, THEN conjunct2]) (simp_all add: listed(2))
qed

section \<open>Dispatching to every chain\<close>

text \<open>What \<open>dispatch\<close> needs of one chain to anchor height \<open>n\<close> on it.\<close>

definition chain_ready :: "'x crypto \<Rightarrow> AnchorDispatcher \<Rightarrow> nat \<Rightarrow> ChainId \<Rightarrow> bool" where
  "chain_ready C d n c \<longleftrightarrow> (\<exists>key log. map_get (disp_configs d) c = Some (Cfg_Blake3Mac key) \<and>
     map_get (disp_logs d) c = Some log \<and> log_ok C log \<and> log_chain_id log = c \<and> length (log_entries log) = n)"

definition mac_key :: "AnchorDispatcher \<Rightarrow> ChainId \<Rightarrow> bytes" where
  "mac_key d c = (case map_get (disp_configs d) c of Some (Cfg_Blake3Mac key) \<Rightarrow> key | _ \<Rightarrow> [])"

definition mac_entry :: "'x crypto \<Rightarrow> AnchorDispatcher \<Rightarrow> u64 \<Rightarrow> Commitment \<Rightarrow> ChainId \<Rightarrow> AnchorEntry" where
  "mac_entry C d h root c =
     \<lparr>ent_anchor = Anchor_new C c h root (next_parent C d c) (mac_key d c), ent_credential = Cred_Blake3Mac\<rparr>"

lemma next_parent_expected:
  assumes "map_get (disp_logs d) c = Some log" "log_ok C log"
  shows "log_expected C log = (next_parent C d c, word_of_nat (length (log_entries log)))"
  using assms by (simp add: next_parent_def log_ok_expected AnchorLog_latest_def AnchorLog_latest_entry_def)

lemma mac_append:
  assumes "map_get (disp_logs d) c = Some log" "log_ok C log" "log_chain_id log = c"
    and "map_get (disp_configs d) c = Some (Cfg_Blake3Mac key)"
    and "h = word_of_nat (length (log_entries log))"
  shows "AnchorLog_append C log (Anchor_new C c h root (next_parent C d c) key) key =
    (Inr (), log\<lparr>log_entries := log_entries log @ [mac_entry C d h root c]\<rparr>)"
proof -
  let ?a = "Anchor_new C c h root (next_parent C d c) key"
  have "Anchor_verify_mac C ?a key" by (simp add: Anchor_verify_mac_def Anchor_new_def)
  moreover have "AnchorLog_append_with_credential C log ?a Cred_Blake3Mac (Cfg_Blake3Mac key) =
      (Inr (), log\<lparr>log_entries := log_entries log @ [mac_entry C d h root c]\<rparr>)"
    unfolding append_with_credential_ok
    using assms(3-5) calculation
    by (simp add: next_parent_expected [OF assms(1,2)] mac_entry_def mac_key_def)
      (simp add: Anchor_new_def verify_credential_def)
  moreover have "an_auth_scheme ?a = Scheme_Blake3Mac" by (simp add: Anchor_new_def)
  ultimately show ?thesis by (simp add: AnchorLog_append_def Anchor_verify_auth_result_def Let_def)
qed

lemma keys_update: "map_get m k \<noteq> None \<Longrightarrow> bt_invar m \<Longrightarrow> map fst (bt_insert k v m) = map fst m"
proof (induction m)
  case (Cons e m)
  obtain k' v' where e: "e = (k', v')" by (cases e)
  show ?case
  proof (cases "k = k'")
    case False
    with Cons.prems e have "map_get m k = Some (the (map_get m k))" by (auto simp: map_get_Cons)
    then have "k \<in> fst ` set m" by (metis map_get_def map_of_SomeD fst_conv image_eqI)
    with Cons.prems e have "k' < k" by (auto simp: bt_invar_def)
    with Cons False e show ?thesis by (auto simp: map_get_Cons bt_invar_def)
  qed (use e in simp)
qed simp

text \<open>The loop anchors every ready chain and touches no other.\<close>

lemma dispatch_chains_ok:
  assumes "\<forall>c \<in> set cs. chain_ready C d n c" "distinct cs" "bt_invar (disp_logs d)"
  shows "\<exists>out' d'. dispatch_chains C (word_of_nat n) root cs out d = Some (Inr out', d') \<and>
    disp_configs d' = disp_configs d \<and> bt_invar (disp_logs d') \<and> map fst (disp_logs d') = map fst (disp_logs d) \<and>
    (\<forall>c. map_get (disp_logs d') c =
      (if c \<in> set cs then map_option (\<lambda>log. log\<lparr>log_entries := log_entries log @ [mac_entry C d (word_of_nat n) root c]\<rparr>)
                            (map_get (disp_logs d) c)
       else map_get (disp_logs d) c))"
  using assms
proof (induction cs arbitrary: d out)
  case Nil
  then show ?case by simp
next
  case (Cons c cs)
  from Cons.prems(1) obtain key log where c: "map_get (disp_configs d) c = Some (Cfg_Blake3Mac key)"
    "map_get (disp_logs d) c = Some log" "log_ok C log" "log_chain_id log = c" "length (log_entries log) = n"
    by (auto simp: chain_ready_def)
  let ?log = "log\<lparr>log_entries := log_entries log @ [mac_entry C d (word_of_nat n) root c]\<rparr>"
  let ?d = "d\<lparr>disp_logs := bt_insert c ?log (disp_logs d)\<rparr>"
  have app: "AnchorLog_append C log (Anchor_new C c (word_of_nat n) root (next_parent C d c) key) key = (Inr (), ?log)"
    using mac_append [OF c(2-4,1)] c(5) by simp
  have same: "next_parent C ?d x = next_parent C d x" "mac_entry C ?d h r x = mac_entry C d h r x" if "x \<noteq> c" for x h r
    using that by (simp_all add: next_parent_def mac_entry_def mac_key_def)
  have "\<forall>x \<in> set cs. chain_ready C ?d n x" using Cons.prems(1,2) by (auto simp: chain_ready_def)
  moreover have "bt_invar (disp_logs ?d)" using Cons.prems(3) by simp
  ultimately obtain out' d' where run: "dispatch_chains C (word_of_nat n) root cs
      (out @ [Anchor_new C c (word_of_nat n) root (next_parent C d c) key]) ?d = Some (Inr out', d')"
    "disp_configs d' = disp_configs d" "bt_invar (disp_logs d')" "map fst (disp_logs d') = map fst (disp_logs ?d)"
    "\<forall>x. map_get (disp_logs d') x =
      (if x \<in> set cs then map_option (\<lambda>log. log\<lparr>log_entries := log_entries log @ [mac_entry C ?d (word_of_nat n) root x]\<rparr>)
                            (map_get (disp_logs ?d) x)
       else map_get (disp_logs ?d) x)"
    using Cons.IH [of ?d "out @ [Anchor_new C c (word_of_nat n) root (next_parent C d c) key]"] Cons.prems(2) by auto
  have "map fst (disp_logs ?d) = map fst (disp_logs d)" using c(2) Cons.prems(3) by (simp add: keys_update)
  with run c app Cons.prems(2) same show ?case by (auto simp: Let_def)
qed

text \<open>
  A dispatcher in step with a list of roots: every chain is a MAC chain whose log holds, at every
  height, an anchor of that height's root with its MAC under the chain's key.
\<close>

abbreviation chain_in_step :: "'x crypto \<Rightarrow> AnchorDispatcher \<Rightarrow> Commitment list \<Rightarrow> ChainId \<Rightarrow> AnchorLog \<Rightarrow> bool" where
  "chain_in_step C d roots c log \<equiv> chain_ready C d (length roots) c \<and>
     (\<forall>i < length roots. ent_credential (log_entries log ! i) = Cred_Blake3Mac \<and>
        Anchor_verify_mac C (ent_anchor (log_entries log ! i)) (mac_key d c) \<and>
        an_state_root (ent_anchor (log_entries log ! i)) = roots ! i)"

definition in_step :: "'x crypto \<Rightarrow> AnchorDispatcher \<Rightarrow> Commitment list \<Rightarrow> bool" where
  "in_step C d roots \<longleftrightarrow> disp_logs d \<noteq> [] \<and> bt_invar (disp_logs d) \<and>
     (\<forall>(c, log) \<in> set (disp_logs d). chain_in_step C d roots c log)"

lemma log_ok_mac_entry:
  assumes "chain_ready C d n c" "map_get (disp_logs d) c = Some log"
  shows "log_ok C (log\<lparr>log_entries := log_entries log @ [mac_entry C d (word_of_nat n) root c]\<rparr>)"
proof -
  from assms obtain key where c: "map_get (disp_configs d) c = Some (Cfg_Blake3Mac key)"
    "log_ok C log" "log_chain_id log = c" "length (log_entries log) = n" by (auto simp: chain_ready_def)
  have app: "AnchorLog_append C log (Anchor_new C c (word_of_nat n) root (next_parent C d c) key) key =
      (Inr (), log\<lparr>log_entries := log_entries log @ [mac_entry C d (word_of_nat n) root c]\<rparr>)"
    using mac_append [OF assms(2) c(2,3,1)] c(4) by simp
  with append_cases [of C log "Anchor_new C c (word_of_nat n) root (next_parent C d c) key" key] log_ok_append [OF c(2)]
  show ?thesis by (metis Inl_Inr_False Pair_inject snd_conv)
qed

text \<open>One chain after one more MAC entry.\<close>

lemma chain_in_step_append:
  assumes c: "chain_in_step C d roots c log" and get: "map_get (disp_logs d) c = Some log"
    and log': "log' = log\<lparr>log_entries := log_entries log @ [mac_entry C d (word_of_nat (length roots)) root c]\<rparr>"
    and d': "disp_configs d' = disp_configs d" "map_get (disp_logs d') c = Some log'"
  shows "chain_in_step C d' (roots @ [root]) c log'"
proof -
  let ?e = "mac_entry C d (word_of_nat (length roots)) root c"
  have key: "mac_key d' = mac_key d" by (simp add: mac_key_def d'(1) fun_eq_iff)
  from c get have len: "length (log_entries log) = length roots" "log_chain_id log = c"
    "\<exists>key. map_get (disp_configs d) c = Some (Cfg_Blake3Mac key)" by (auto simp: chain_ready_def)
  have "log_ok C log'" using log_ok_mac_entry [OF c [THEN conjunct1] get] log' by simp
  then have "chain_ready C d' (Suc (length roots)) c" using d' log' len by (auto simp: chain_ready_def)
  moreover have "Anchor_verify_mac C (ent_anchor ?e) (mac_key d c)"
    by (simp add: mac_entry_def Anchor_verify_mac_def Anchor_new_def)
  moreover have "an_state_root (ent_anchor ?e) = root" "ent_credential ?e = Cred_Blake3Mac"
    by (simp_all add: mac_entry_def Anchor_new_def)
  ultimately show ?thesis using c len(1) log' by (auto simp: key nth_append less_Suc_eq)
qed

lemma dispatch_in_step:
  assumes "in_step C d roots"
  shows "\<exists>out d'. AnchorDispatcher_dispatch C d (word_of_nat (length roots)) root = Some (Inr out, d') \<and>
    in_step C d' (roots @ [root])"
proof -
  let ?n = "length roots"
  from assms have inv: "disp_logs d \<noteq> []" "bt_invar (disp_logs d)"
    and step: "\<And>c log. (c, log) \<in> set (disp_logs d) \<Longrightarrow> chain_in_step C d roots c log" by (auto simp: in_step_def)
  have ready: "\<forall>c \<in> set (map fst (disp_logs d)). chain_ready C d ?n c" using step by auto
  have "distinct (map fst (disp_logs d))" using inv(2) by (rule bt_invar_distinct)
  from dispatch_chains_ok [OF ready this inv(2), of root "[]"] obtain out d' where
    run: "AnchorDispatcher_dispatch C d (word_of_nat ?n) root = Some (Inr out, d')"
    and d': "disp_configs d' = disp_configs d" "bt_invar (disp_logs d')" "map fst (disp_logs d') = map fst (disp_logs d)"
    and logs: "\<forall>c. map_get (disp_logs d') c =
      (if c \<in> set (map fst (disp_logs d)) then map_option (\<lambda>log. log\<lparr>log_entries := log_entries log @
          [mac_entry C d (word_of_nat ?n) root c]\<rparr>) (map_get (disp_logs d) c)
       else map_get (disp_logs d) c)"
    by (auto simp: AnchorDispatcher_dispatch_def)
  have "chain_in_step C d' (roots @ [root]) c log'" if "(c, log') \<in> set (disp_logs d')" for c log'
  proof -
    from that d'(2) have get': "map_get (disp_logs d') c = Some log'" by (simp add: bt.iter_iff_get)
    from that d'(3) have "c \<in> set (map fst (disp_logs d))" by (metis fst_conv image_eqI set_map)
    with get' logs obtain log where log: "map_get (disp_logs d) c = Some log"
      "log' = log\<lparr>log_entries := log_entries log @ [mac_entry C d (word_of_nat ?n) root c]\<rparr>" by auto
    then have "(c, log) \<in> set (disp_logs d)" using inv(2) by (simp add: bt.iter_iff_get)
    from chain_in_step_append [OF step [OF this] log d'(1) get'] show ?thesis .
  qed
  moreover have "disp_logs d' \<noteq> []" using d'(3) inv(1) by (metis Nil_is_map_conv)
  ultimately have "in_step C d' (roots @ [root])" using d'(2) by (auto simp: in_step_def)
  with run show ?thesis by blast
qed

lemma in_step_agrees:
  assumes "in_step C d roots" "i < length roots" "length roots \<le> 2 ^ 64"
  shows "agrees_at C d (word_of_nat i) (roots ! i)"
proof -
  have idx: "unat (word_of_nat i :: u64) = i" using assms(2,3) by (simp add: unat_of_nat)
  have "\<exists>e cfg. AnchorLog_entry_at log (word_of_nat i) = Some e \<and> map_get (disp_configs d) c = Some cfg \<and>
      an_state_root (ent_anchor e) = roots ! i \<and> an_auth_scheme (ent_anchor e) = VerifierConfig_scheme cfg \<and>
      verify_credential C (ent_anchor e) (ent_credential e) (VerifierConfig_as_expected_for cfg (ent_anchor e)) = Inr ()"
    if "(c, log) \<in> set (disp_logs d)" for c log
  proof -
    from assms(1) that have "map_get (disp_logs d) c = Some log" by (auto simp: in_step_def bt.iter_iff_get)
    with assms(1) that obtain key where cfg: "map_get (disp_configs d) c = Some (Cfg_Blake3Mac key)"
      "length (log_entries log) = length roots" by (fastforce simp: in_step_def chain_ready_def)
    let ?e = "log_entries log ! i"
    from assms(1,2) that have "ent_credential ?e = Cred_Blake3Mac \<and> Anchor_verify_mac C (ent_anchor ?e) (mac_key d c) \<and>
       an_state_root (ent_anchor ?e) = roots ! i" by (fastforce simp: in_step_def)
    with cfg idx assms(2) show ?thesis
      by (auto simp: AnchorLog_entry_at_def Let_def mac_key_def verify_credential_def Anchor_verify_mac_def)
  qed
  with assms(1) show ?thesis by (auto simp: agrees_at_def in_step_def)
qed

section \<open>Liveness\<close>

text \<open>A dispatcher that serves a list of chains, and a run that anchors one root per height.\<close>

definition register_all :: "(ChainId \<times> bytes) list \<Rightarrow> AnchorDispatcher" where
  "register_all cs = fold (\<lambda>(c, key) d. AnchorDispatcher_register d c key) cs AnchorDispatcher_new"

fun dispatch_all :: "'x crypto \<Rightarrow> AnchorDispatcher \<Rightarrow> nat \<Rightarrow> Commitment list \<Rightarrow> AnchorDispatcher option" where
  "dispatch_all C d n [] = Some d"
| "dispatch_all C d n (root # roots) =
     (case AnchorDispatcher_dispatch C d (word_of_nat n) root of
        Some (Inr _, d') \<Rightarrow> dispatch_all C d' (Suc n) roots
      | _ \<Rightarrow> None)"

lemma register_in_step:
  assumes "disp_logs d = [] \<and> disp_configs d = [] \<or> in_step C d []"
  shows "in_step C (AnchorDispatcher_register d c key) []"
proof -
  let ?d = "AnchorDispatcher_register d c key"
  have ready: "chain_ready C d 0 x" if "map_get (disp_logs d) x = Some log" for x log
    using assms that bt.iter_iff_get [of "disp_logs d" x log] by (fastforce simp: in_step_def)
  have bt: "bt_invar (disp_logs d)" using assms by (auto simp: in_step_def bt_invar_def)
  then have bt': "bt_invar (disp_logs ?d)"
    by (simp add: AnchorDispatcher_register_def AnchorDispatcher_register_with_config_def split: option.split)
  have "chain_ready C ?d 0 x" if "map_get (disp_logs ?d) x = Some log" for x log
  proof (cases "x = c")
    case True
    show ?thesis
    proof (cases "map_get (disp_logs d) c")
      case None
      with True show ?thesis
        by (simp add: chain_ready_def AnchorDispatcher_register_def AnchorDispatcher_register_with_config_def
            log_ok_def AnchorLog_new_def)
    next
      case (Some l)
      with ready [of c l] True show ?thesis
        by (auto simp: chain_ready_def AnchorDispatcher_register_def AnchorDispatcher_register_with_config_def)
    qed
  next
    case False
    with that have "map_get (disp_logs d) x = Some log"
      by (auto simp: AnchorDispatcher_register_def AnchorDispatcher_register_with_config_def split: option.splits if_splits)
    from ready [OF this] False show ?thesis
      by (auto simp: chain_ready_def AnchorDispatcher_register_def AnchorDispatcher_register_with_config_def split: option.splits)
  qed
  moreover have "map_get (disp_logs ?d) c \<noteq> None"
    by (simp add: AnchorDispatcher_register_def AnchorDispatcher_register_with_config_def split: option.split)
  then have "disp_logs ?d \<noteq> []" by auto
  ultimately show ?thesis using bt' by (auto simp: in_step_def bt.iter_iff_get)
qed

lemma register_all_in_step: "cs \<noteq> [] \<Longrightarrow> in_step C (register_all cs) []"
proof (induction cs rule: rev_induct)
  case (snoc p cs)
  obtain c key where p: "p = (c, key)" by (cases p)
  have "disp_logs (register_all cs) = [] \<and> disp_configs (register_all cs) = [] \<or> in_step C (register_all cs) []"
    using snoc.IH by (cases "cs = []") (auto simp: register_all_def AnchorDispatcher_new_def)
  from register_in_step [OF this, of c key] show ?case by (simp add: register_all_def p)
qed simp

lemma dispatch_all_in_step:
  "in_step C d done_roots \<Longrightarrow>
   \<exists>d'. dispatch_all C d (length done_roots) roots = Some d' \<and> in_step C d' (done_roots @ roots)"
proof (induction roots arbitrary: d done_roots)
  case (Cons root roots)
  from dispatch_in_step [OF Cons.prems, of root] obtain out d1 where
    d1: "AnchorDispatcher_dispatch C d (word_of_nat (length done_roots)) root = Some (Inr out, d1)"
    "in_step C d1 (done_roots @ [root])" by blast
  from Cons.IH [OF d1(2)] d1(1) show ?case by auto
qed simp

lemma dispatch_all_agrees:
  assumes "cs \<noteq> []" "length roots \<le> 2 ^ 64"
  shows "\<exists>d. dispatch_all C (register_all cs) 0 roots = Some d \<and>
    (\<forall>i < length roots. AnchorDispatcher_parity_check C d (word_of_nat i) = Some (Agreed (roots ! i)))"
proof -
  from dispatch_all_in_step [OF register_all_in_step [OF assms(1)], of C roots] obtain d where
    d: "dispatch_all C (register_all cs) 0 roots = Some d" "in_step C d roots" by auto
  then have "configured d"
    by (fastforce simp: configured_def in_step_def chain_ready_def)
  with in_step_agrees [OF d(2) _ assms(2)] parity_check_agreed [of d C] d(1) show ?thesis by metis
qed

text \<open>
  C10: anchoring makes progress and keeps the chains in agreement: register any MAC chains, at least
  one, with any keys, and dispatch one root per height starting at 0. Every dispatch succeeds on every
  chain, and afterwards the parity check agrees, at every height, on the root dispatched there.
\<close>

theorem dispatch_keeps_parity:
  assumes "cs \<noteq> []" "length roots \<le> 2 ^ 64"
  shows "\<exists>d. dispatch_all C (register_all cs) 0 roots = Some d \<and>
    (\<forall>i < length roots. AnchorDispatcher_parity_check C d (word_of_nat i) = Some (Agreed (roots ! i)))"
  using assms by (rule dispatch_all_agrees)

theorem dispatch_keeps_parity_witness:
  "\<exists>d. dispatch_all toy_crypto (register_all [(ChainId 1, [1]), (ChainId 2, [2])]) 0
         [Commitment (replicate 32 1), Commitment (replicate 32 2)] = Some d \<and>
       AnchorDispatcher_parity_check toy_crypto d 1 = Some (Agreed (Commitment (replicate 32 2)))"
  using dispatch_keeps_parity [of "[(ChainId 1, [1]), (ChainId 2, [2])]"
      "[Commitment (replicate 32 1), Commitment (replicate 32 2)]" toy_crypto]
  by (auto simp: less_Suc_eq)

definition toy_dispatcher :: AnchorDispatcher where
  "toy_dispatcher = the (dispatch_all toy_crypto (register_all [(ChainId 1, [1]), (ChainId 2, [2])]) 0
     [Commitment (replicate 32 1)])"

theorem parity_exact_witness:
  "\<exists>divergent missing. AnchorDispatcher_parity_check toy_crypto toy_dispatcher 1 = Some (Disagreed divergent missing) \<and>
     sorted_wrt (<) missing \<and> ChainId 1 \<in> set missing \<and> ChainId 2 \<in> set missing"
proof -
  have toy: "configured toy_dispatcher" "bt_invar (disp_logs toy_dispatcher)"
    unfolding configured_def bt_invar_def by code_simp+
  have res: "AnchorDispatcher_parity_check toy_crypto toy_dispatcher 1 = Some (Disagreed [] [ChainId 1, ChainId 2])" by code_simp
  with parity_exact [OF toy(1), of toy_crypto 1] toy(2) show ?thesis by auto
qed

section \<open>Signed chains\<close>

text \<open>
  C33: a chain registered for an ECDSA signer is anchored through that signer: at the next height of
  its log, dispatching with the signer whose address is configured succeeds, appends one anchor with
  the given root linked to the latest one, and the entry passes the check the parity check makes.
  Other chains and the configurations are untouched.
\<close>

theorem dispatch_signed:
  assumes "k256_signs C inner" "keccak_len C"
    and "map_get (disp_configs d) c = Some (Cfg_EcdsaSecp256k1 (EcdsaSecp256k1Signer_address C inner))"
    and "map_get (disp_logs d) c = Some log" "log_reachable C c log" "h = word_of_nat (AnchorLog_len log)"
  shows "\<exists>a e d'. AnchorDispatcher_dispatch_with_signer C d c h root (EcdsaSecp256k1Signer C inner) = Some (Inr a, d') \<and>
    map_get (disp_logs d') = (map_get (disp_logs d))(c \<mapsto> log\<lparr>log_entries := log_entries log @ [e]\<rparr>) \<and>
    disp_configs d' = disp_configs d \<and> ent_anchor e = a \<and> an_state_root a = root \<and> an_height a = h \<and>
    verify_entry_with_config C e (Cfg_EcdsaSecp256k1 (EcdsaSecp256k1Signer_address C inner))"
proof -
  let ?a = "Anchor_ecdsa c h root (next_parent C d c)"
  let ?cfg = "Cfg_EcdsaSecp256k1 (EcdsaSecp256k1Signer_address C inner)"
  have scheme: "an_auth_scheme ?a = Scheme_EcdsaSecp256k1" by (simp add: Anchor_ecdsa_def)
  from ecdsa_sign_verifies [OF assms(1,2) scheme] obtain sig where
    sig: "EcdsaSecp256k1Signer_sign C inner ?a = Inr (Cred_EcdsaSecp256k1 sig)"
    "verify_ecdsa C ?a sig (EcdsaSecp256k1Signer_address C inner) = Inr ()" by blast
  let ?e = "\<lparr>ent_anchor = ?a, ent_credential = Cred_EcdsaSecp256k1 sig\<rparr>"
  from reachable_ok [OF assms(5)] have ok: "log_ok C log" "log_chain_id log = c" by auto
  have ver: "verify_credential C ?a (Cred_EcdsaSecp256k1 sig) (VerifierConfig_as_expected_for ?cfg ?a) = Inr ()"
    using sig(2) scheme by (simp add: verify_credential_def)
  have "AnchorLog_append_with_credential C log ?a (Cred_EcdsaSecp256k1 sig) ?cfg =
      (Inr (), log\<lparr>log_entries := log_entries log @ [?e]\<rparr>)"
    unfolding append_with_credential_ok
    using ver ok(2) assms(6) by (simp add: next_parent_expected [OF assms(4) ok(1)] AnchorLog_len_def Anchor_ecdsa_def)
  with assms(3,4) sig(1) have
    "AnchorDispatcher_dispatch_with_signer C d c h root (EcdsaSecp256k1Signer C inner) =
       Some (Inr ?a, d\<lparr>disp_logs := bt_insert c (log\<lparr>log_entries := log_entries log @ [?e]\<rparr>) (disp_logs d)\<rparr>)"
    by (simp add: AnchorDispatcher_dispatch_with_signer_def EcdsaSecp256k1Signer_def Let_def)
  moreover have "verify_entry_with_config C ?e ?cfg" using ver scheme by (simp add: verify_entry_with_config_def)
  ultimately show ?thesis
    by (intro exI [of _ ?a] exI [of _ ?e] exI) (auto simp: Anchor_ecdsa_def)
qed

definition toy_signed :: AnchorDispatcher where
  "toy_signed = AnchorDispatcher_register_with_config AnchorDispatcher_new (ChainId 9)
     (Cfg_EcdsaSecp256k1 (EcdsaSecp256k1Signer_address toy_crypto []))"

theorem dispatch_signed_witness:
  "\<exists>a d'. AnchorDispatcher_dispatch_with_signer toy_crypto toy_signed (ChainId 9) 0 (Commitment (replicate 32 1))
     (EcdsaSecp256k1Signer toy_crypto []) = Some (Inr a, d')"
proof -
  have "map_get (disp_configs toy_signed) (ChainId 9) =
      Some (Cfg_EcdsaSecp256k1 (EcdsaSecp256k1Signer_address toy_crypto []))"
    "map_get (disp_logs toy_signed) (ChainId 9) = Some (AnchorLog_new (ChainId 9))"
    by (simp_all add: toy_signed_def AnchorDispatcher_register_with_config_def AnchorDispatcher_new_def map_get_Cons)
  moreover have "(0 :: u64) = word_of_nat (AnchorLog_len (AnchorLog_new (ChainId 9)))"
    by (simp add: AnchorLog_len_def AnchorLog_new_def)
  ultimately show ?thesis
    using dispatch_signed [OF toy_k256, of toy_signed "ChainId 9" "[]" "AnchorLog_new (ChainId 9)" 0
        "Commitment (replicate 32 1)"] log_new by blast
qed

section \<open>A mixed dispatcher is stuck\<close>

lemma dispatch_chains_blocked:
  assumes "dispatch_chains C h root cs out d = Some (res, d')" "sorted_wrt (<) cs" "c0 \<in> set cs"
    and "map_get (disp_configs d) c0 = Some cfg" "VerifierConfig_scheme cfg \<noteq> Scheme_Blake3Mac"
  shows "(\<exists>c e. res = Inl (c, e) \<and> c \<le> c0) \<and> (\<forall>c. c0 \<le> c \<longrightarrow> map_get (disp_logs d') c = map_get (disp_logs d) c)"
  using assms
proof (induction cs arbitrary: out d)
  case (Cons c cs)
  show ?case
  proof (cases "c = c0")
    case True
    with Cons.prems show ?thesis by (cases cfg) auto
  next
    case False
    with Cons.prems have lt: "c < c0" "c0 \<in> set cs" by auto
    show ?thesis
    proof (cases "\<exists>key. map_get (disp_configs d) c = Some (Cfg_Blake3Mac key)")
      case False
      with Cons.prems(1) lt(1) show ?thesis by (auto split: option.splits VerifierConfig.splits)
    next
      case True
      then obtain key where key: "map_get (disp_configs d) c = Some (Cfg_Blake3Mac key)" by blast
      with Cons.prems(1) obtain log where log: "map_get (disp_logs d) c = Some log"
        by (auto simp: Let_def split: option.splits)
      let ?a = "Anchor_new C c h root (next_parent C d c) key"
      obtain r log1 where app: "AnchorLog_append C log ?a key = (r, log1)" by (cases "AnchorLog_append C log ?a key")
      let ?d = "d\<lparr>disp_logs := bt_insert c log1 (disp_logs d)\<rparr>"
      show ?thesis
      proof (cases r)
        case (Inl e)
        with Cons.prems(1) key log app lt(1) show ?thesis by (auto simp: Let_def)
      next
        case (Inr u)
        with Cons.prems(1) key log app have "dispatch_chains C h root cs (out @ [?a]) ?d = Some (res, d')"
          by (simp add: Let_def)
        with Cons.IH [of "out @ [?a]" ?d] Cons.prems(2,4,5) lt show ?thesis by auto
      qed
    qed
  qed
qed simp

text \<open>
  One signer chain blocks the chains behind it: if a chain registered for a scheme other than the
  MAC is among those dispatched to, no dispatch succeeds and no dispatch ever appends to it or to a
  chain with a higher id, MAC chains included, although the anchors of lower chains stay appended.
\<close>

theorem dispatch_blocked:
  assumes "AnchorDispatcher_dispatch C d h root = Some (res, d')" "bt_invar (disp_logs d)"
    and "c0 \<in> fst ` set (disp_logs d)" "map_get (disp_configs d) c0 = Some cfg"
    and "VerifierConfig_scheme cfg \<noteq> Scheme_Blake3Mac"
  shows "(\<exists>c e. res = Inl (c, e) \<and> c \<le> c0) \<and>
    (\<forall>c. c0 \<le> c \<longrightarrow> AnchorDispatcher_log d' c = AnchorDispatcher_log d c)"
  using dispatch_chains_blocked [of C h root "map fst (disp_logs d)" "[]" d res d' c0 cfg] assms
  by (simp add: AnchorDispatcher_dispatch_def AnchorDispatcher_log_def bt_invar_def)

definition toy_mixed :: AnchorDispatcher where
  "toy_mixed = AnchorDispatcher_register toy_signed (ChainId 11) [1]"

theorem dispatch_blocked_witness:
  "\<exists>res d'. AnchorDispatcher_dispatch toy_crypto toy_mixed 0 (Commitment []) = Some (res, d') \<and>
     AnchorDispatcher_log d' (ChainId 11) = AnchorDispatcher_log toy_mixed (ChainId 11)"
proof -
  let ?cfg = "Cfg_EcdsaSecp256k1 (EcdsaSecp256k1Signer_address toy_crypto [])"
  have logs: "map fst (disp_logs toy_mixed) = [ChainId 9, ChainId 11]" by code_simp
  have cfg: "map_get (disp_configs toy_mixed) (ChainId 9) = Some ?cfg"
    by (simp add: toy_mixed_def toy_signed_def AnchorDispatcher_register_def AnchorDispatcher_register_with_config_def)
  have "bt_invar (disp_logs toy_mixed)" "ChainId 9 \<in> fst ` set (disp_logs toy_mixed)"
    using logs by (simp_all add: bt_invar_def less_ChainId_def flip: set_map)
  moreover have "AnchorDispatcher_dispatch toy_crypto toy_mixed 0 (Commitment []) =
      Some (Inl (ChainId 9, SchemeRequiresSigner), toy_mixed)"
    by (simp add: AnchorDispatcher_dispatch_def logs cfg)
  ultimately show ?thesis
    using dispatch_blocked [of toy_crypto toy_mixed 0 "Commitment []" _ _ "ChainId 9" ?cfg] cfg
    by (auto simp: less_eq_ChainId_def)
qed

end
