(* ===== verification/Redb.thy ===== *)
theory Redb
  imports Codec "HOL-Library.Finite_Map"
begin

text \<open>
  The interface of the \<open>redb\<close> embedded database, as far as the two durable stores use it. The crate is
  a parameter: a record of the operations on databases and transactions (type \<open>redb_db\<close>) and one of the
  operations on a table inside a transaction (type \<open>redb_table\<close>); any of them may fail. What the stores
  rely on is its documented behaviour, stated as predicates on these parameters: a table is an ordered
  map, a transaction sees the committed contents and its own writes, and a commit publishes them.
\<close>

type_synonym redb_error = string

record ('db, 'txn) redb_db =
  begin_read :: "'db \<Rightarrow> redb_error + 'txn"
  begin_write :: "'db \<Rightarrow> redb_error + 'txn"
  txn_commit :: "'db \<Rightarrow> 'txn \<Rightarrow> redb_error + 'db"

record ('txn, 'k, 'v) redb_table =
  open_table :: "'txn \<Rightarrow> redb_error + 'txn"
  tbl_get :: "'txn \<Rightarrow> 'k \<Rightarrow> redb_error + 'v option"
  tbl_insert :: "'txn \<Rightarrow> 'k \<Rightarrow> 'v \<Rightarrow> redb_error + 'txn"
  tbl_remove :: "'txn \<Rightarrow> 'k \<Rightarrow> redb_error + 'txn"
  tbl_len :: "'txn \<Rightarrow> redb_error + usize"
  tbl_range :: "'txn \<Rightarrow> 'k option \<Rightarrow> redb_error + (redb_error + 'k \<times> 'v) list"
  tbl_last :: "'txn \<Rightarrow> redb_error + ('k \<times> 'v) option"

text \<open>
  The documented behaviour, relative to a view of a transaction as contents \<open>'c\<close> in which \<open>sel\<close> and
  \<open>upd\<close> read and replace the table. The range starts at a key or at the first one; its rows can fail
  one by one.
\<close>

definition db_ok :: "('db, 'txn) redb_db \<Rightarrow> ('db \<Rightarrow> 'c) \<Rightarrow> ('txn \<Rightarrow> 'c) \<Rightarrow> bool" where
  "db_ok D content view \<longleftrightarrow>
     (\<forall>db t. begin_read D db = Inr t \<longrightarrow> view t = content db) \<and>
     (\<forall>db t. begin_write D db = Inr t \<longrightarrow> view t = content db) \<and>
     (\<forall>db t db'. txn_commit D db t = Inr db' \<longrightarrow> content db' = view t)"

definition table_ok ::
  "('txn, 'k::linorder, 'v) redb_table \<Rightarrow> ('txn \<Rightarrow> 'c) \<Rightarrow> ('c \<Rightarrow> 'k \<rightharpoonup> 'v) \<Rightarrow> (('k \<rightharpoonup> 'v) \<Rightarrow> 'c \<Rightarrow> 'c) \<Rightarrow> bool" where
  "table_ok T view sel upd \<longleftrightarrow>
     (\<forall>t t'. open_table T t = Inr t' \<longrightarrow> view t' = view t) \<and>
     (\<forall>t k r. tbl_get T t k = Inr r \<longrightarrow> r = sel (view t) k) \<and>
     (\<forall>t k v t'. tbl_insert T t k v = Inr t' \<longrightarrow> view t' = upd ((sel (view t))(k \<mapsto> v)) (view t)) \<and>
     (\<forall>t k t'. tbl_remove T t k = Inr t' \<longrightarrow> view t' = upd ((sel (view t))(k := None)) (view t)) \<and>
     (\<forall>t n. tbl_len T t = Inr n \<longrightarrow> n = card (dom (sel (view t)))) \<and>
     (\<forall>t lo es. tbl_range T t lo = Inr (map Inr es) \<longrightarrow>
        bt_invar es \<and> map_get es = sel (view t) |` {k. \<forall>l. lo = Some l \<longrightarrow> l \<le> k}) \<and>
     (\<forall>t r. tbl_last T t = Inr r \<longrightarrow>
        (case r of None \<Rightarrow> dom (sel (view t)) = {}
         | Some (k, v) \<Rightarrow> sel (view t) k = Some v \<and> (\<forall>k' \<in> dom (sel (view t)). k' \<le> k)))"

text \<open>A database and a table that do not fail.\<close>

definition db_reliable :: "('db, 'txn) redb_db \<Rightarrow> bool" where
  "db_reliable D \<longleftrightarrow> (\<forall>db. \<exists>t. begin_read D db = Inr t) \<and> (\<forall>db. \<exists>t. begin_write D db = Inr t) \<and>
     (\<forall>db t. \<exists>db'. txn_commit D db t = Inr db')"

definition table_reliable :: "('txn, 'k, 'v) redb_table \<Rightarrow> bool" where
  "table_reliable T \<longleftrightarrow> (\<forall>t. \<exists>t'. open_table T t = Inr t') \<and> (\<forall>t k. \<exists>r. tbl_get T t k = Inr r) \<and>
     (\<forall>t k v. \<exists>t'. tbl_insert T t k v = Inr t') \<and> (\<forall>t k. \<exists>t'. tbl_remove T t k = Inr t') \<and>
     (\<forall>t. \<exists>n. tbl_len T t = Inr n) \<and> (\<forall>t lo. \<exists>es. tbl_range T t lo = Inr (map Inr es)) \<and>
     (\<forall>t. \<exists>r. tbl_last T t = Inr r)"

text \<open>Both together, and what they give for each operation.\<close>

definition db_serves :: "('db, 'txn) redb_db \<Rightarrow> ('db \<Rightarrow> 'c) \<Rightarrow> ('txn \<Rightarrow> 'c) \<Rightarrow> bool" where
  "db_serves D content view \<longleftrightarrow> db_ok D content view \<and> db_reliable D"

definition table_serves ::
  "('txn, 'k::linorder, 'v) redb_table \<Rightarrow> ('txn \<Rightarrow> 'c) \<Rightarrow> ('c \<Rightarrow> 'k \<rightharpoonup> 'v) \<Rightarrow> (('k \<rightharpoonup> 'v) \<Rightarrow> 'c \<Rightarrow> 'c) \<Rightarrow> bool" where
  "table_serves T view sel upd \<longleftrightarrow> table_ok T view sel upd \<and> table_reliable T"

lemma serves_read:
  assumes "db_serves D content view"
  obtains t where "begin_read D db = Inr t" "view t = content db"
proof -
  from assms obtain t where "begin_read D db = Inr t" unfolding db_serves_def db_reliable_def by blast
  moreover from this assms have "view t = content db" unfolding db_serves_def db_ok_def by blast
  ultimately show thesis by (rule that)
qed

lemma serves_write:
  assumes "db_serves D content view"
  obtains t where "begin_write D db = Inr t" "view t = content db"
proof -
  from assms obtain t where "begin_write D db = Inr t" unfolding db_serves_def db_reliable_def by blast
  moreover from this assms have "view t = content db" unfolding db_serves_def db_ok_def by blast
  ultimately show thesis by (rule that)
qed

lemma serves_commit:
  assumes "db_serves D content view"
  obtains db' where "txn_commit D db t = Inr db'" "content db' = view t"
proof -
  from assms obtain db' where "txn_commit D db t = Inr db'" unfolding db_serves_def db_reliable_def by blast
  moreover from this assms have "content db' = view t" unfolding db_serves_def db_ok_def by blast
  ultimately show thesis by (rule that)
qed

lemma serves_open:
  assumes "table_serves T view sel upd"
  obtains t' where "open_table T t = Inr t'" "view t' = view t"
proof -
  from assms obtain t' where "open_table T t = Inr t'" unfolding table_serves_def table_reliable_def by blast
  moreover from this assms have "view t' = view t" unfolding table_serves_def table_ok_def by blast
  ultimately show thesis by (rule that)
qed

lemma serves_get:
  assumes "table_serves T view sel upd"
  shows "tbl_get T t k = Inr (sel (view t) k)"
proof -
  from assms obtain r where "tbl_get T t k = Inr r" unfolding table_serves_def table_reliable_def by blast
  moreover from this assms have "r = sel (view t) k" unfolding table_serves_def table_ok_def by blast
  ultimately show ?thesis by simp
qed

lemma serves_insert:
  assumes "table_serves T view sel upd"
  obtains t' where "tbl_insert T t k v = Inr t'" "view t' = upd ((sel (view t))(k \<mapsto> v)) (view t)"
proof -
  from assms obtain t' where "tbl_insert T t k v = Inr t'" unfolding table_serves_def table_reliable_def by blast
  moreover from this assms have "view t' = upd ((sel (view t))(k \<mapsto> v)) (view t)"
    unfolding table_serves_def table_ok_def by blast
  ultimately show thesis by (rule that)
qed

lemma serves_remove:
  assumes "table_serves T view sel upd"
  obtains t' where "tbl_remove T t k = Inr t'" "view t' = upd ((sel (view t))(k := None)) (view t)"
proof -
  from assms obtain t' where "tbl_remove T t k = Inr t'" unfolding table_serves_def table_reliable_def by blast
  moreover from this assms have "view t' = upd ((sel (view t))(k := None)) (view t)"
    unfolding table_serves_def table_ok_def by blast
  ultimately show thesis by (rule that)
qed

lemma serves_len:
  assumes "table_serves T view sel upd"
  shows "tbl_len T t = Inr (card (dom (sel (view t))))"
proof -
  from assms obtain n where "tbl_len T t = Inr n" unfolding table_serves_def table_reliable_def by blast
  moreover from this assms have "n = card (dom (sel (view t)))" unfolding table_serves_def table_ok_def by blast
  ultimately show ?thesis by simp
qed

lemma serves_range:
  assumes "table_serves T view sel upd"
  obtains es where "tbl_range T t lo = Inr (map Inr es)" "bt_invar es"
    "map_get es = sel (view t) |` {k. \<forall>l. lo = Some l \<longrightarrow> l \<le> k}"
proof -
  from assms obtain es where "tbl_range T t lo = Inr (map Inr es)" unfolding table_serves_def table_reliable_def by blast
  moreover from this assms have "bt_invar es" "map_get es = sel (view t) |` {k. \<forall>l. lo = Some l \<longrightarrow> l \<le> k}"
    unfolding table_serves_def table_ok_def by blast+
  ultimately show thesis by (rule that)
qed

lemma serves_last:
  assumes "table_serves T view sel upd"
  obtains r where "tbl_last T t = Inr r" "case r of None \<Rightarrow> dom (sel (view t)) = {}
      | Some (k, v) \<Rightarrow> sel (view t) k = Some v \<and> (\<forall>k' \<in> dom (sel (view t)). k' \<le> k)"
proof -
  from assms obtain r where "tbl_last T t = Inr r" unfolding table_serves_def table_reliable_def by blast
  moreover from this assms have "case r of None \<Rightarrow> dom (sel (view t)) = {}
      | Some (k, v) \<Rightarrow> sel (view t) k = Some v \<and> (\<forall>k' \<in> dom (sel (view t)). k' \<le> k)"
    unfolding table_serves_def table_ok_def by blast
  ultimately show thesis by (rule that)
qed

section \<open>A concrete instance\<close>

text \<open>Finite maps, with databases and transactions the same contents.\<close>

definition fm_db :: "('c, 'c) redb_db" where
  "fm_db = \<lparr>begin_read = Inr, begin_write = Inr, txn_commit = \<lambda>db t. Inr t\<rparr>"

definition fm_table :: "('c \<Rightarrow> ('k::linorder, 'v) fmap) \<Rightarrow> (('k, 'v) fmap \<Rightarrow> 'c \<Rightarrow> 'c) \<Rightarrow> ('c, 'k, 'v) redb_table" where
  "fm_table sel upd =
     \<lparr>open_table = Inr, tbl_get = \<lambda>c k. Inr (fmlookup (sel c) k),
      tbl_insert = \<lambda>c k v. Inr (upd (fmupd k v (sel c)) c), tbl_remove = \<lambda>c k. Inr (upd (fmdrop k (sel c)) c),
      tbl_len = \<lambda>c. Inr (fcard (fmdom (sel c))),
      tbl_range = \<lambda>c lo. Inr (map Inr (filter (\<lambda>e. \<forall>l. lo = Some l \<longrightarrow> l \<le> fst e) (sorted_list_of_fmap (sel c)))),
      tbl_last = \<lambda>c. Inr (if fmdom (sel c) = {||} then None
                          else let k = fMax (fmdom (sel c)) in Some (k, the (fmlookup (sel c) k)))\<rparr>"

lemma fm_db_serves: "db_serves fm_db view view"
  by (simp add: db_serves_def db_ok_def db_reliable_def fm_db_def)

lemma sorted_fmap_invar: "bt_invar (sorted_list_of_fmap m)"
  by (simp add: bt_invar_def strict_sorted_iff sorted_list_of_fmap_def comp_def sorted_list_of_fset.rep_eq)

lemma sorted_fmap_get: "map_get (sorted_list_of_fmap m) = fmlookup m"
  by (simp add: map_get_def fun_eq_iff)

lemma map_get_filter: "map_get (filter (\<lambda>e. P (fst e)) m) = map_get m |` {k. P k}"
  by (induction m) (auto simp: map_get_def restrict_map_def fun_eq_iff)

lemma fmlookup_fun_upd:
  "fmlookup (fmupd k v m) = (fmlookup m)(k \<mapsto> v)" "fmlookup (fmdrop k m) = (fmlookup m)(k := None)"
  by (simp_all add: fun_eq_iff)

lemma fm_table_serves:
  assumes "\<And>c. sel' (view c) = fmlookup (sel c)" "\<And>c m. view (upd m c) = upd' (fmlookup m) (view c)"
  shows "table_serves (fm_table sel upd) view sel' upd'"
proof -
  have inj: "map Inr xs = map Inr ys \<longleftrightarrow> xs = ys" for xs ys :: "('k \<times> 'v) list" by (simp add: inj_map_eq_map)
  have "table_ok (fm_table sel upd) view sel' upd'"
    unfolding table_ok_def
  proof (intro conjI allI impI, goal_cases)
    case (6 t lo es)
    then have es: "es = filter (\<lambda>e. \<forall>l. lo = Some l \<longrightarrow> l \<le> fst e) (sorted_list_of_fmap (sel t))"
      by (simp add: fm_table_def inj)
    then show ?case
      using sorted_fmap_invar [of "sel t"] by (auto simp: bt_invar_def sorted_wrt_map intro: sorted_wrt_filter)
  next
    case (7 t lo es)
    then have "es = filter (\<lambda>e. \<forall>l. lo = Some l \<longrightarrow> l \<le> fst e) (sorted_list_of_fmap (sel t))"
      by (simp add: fm_table_def inj)
    then show ?case
      using map_get_filter [of "\<lambda>k. \<forall>l. lo = Some l \<longrightarrow> l \<le> k" "sorted_list_of_fmap (sel t)"]
      by (simp add: sorted_fmap_get assms(1))
  next
    case (8 t r)
    show ?case
    proof (cases "fmdom (sel t) = {||}")
      case True
      with 8 show ?thesis by (auto simp: fm_table_def assms(1) simp flip: fmdom'_alt_def fmlookup_dom'_iff)
    next
      case False
      then have "fMax (fmdom (sel t)) |\<in>| fmdom (sel t)" by (rule fMax_in)
      moreover have "\<forall>k. k |\<in>| fmdom (sel t) \<longrightarrow> k \<le> fMax (fmdom (sel t))" by (auto intro: fMax_ge)
      ultimately show ?thesis using 8 False by (auto simp: fm_table_def assms(1) Let_def fmlookup_dom_iff fmlookup_dom'_iff)
    qed
  qed (auto simp: fm_table_def assms fcard.rep_eq fmlookup_fun_upd simp flip: fmdom'_alt_def)
  moreover have "table_reliable (fm_table sel upd)"
    unfolding table_reliable_def by (simp add: fm_table_def)
  ultimately show ?thesis by (simp add: table_serves_def)
qed

end
