(* ===== verification/Block_Codec.thy ===== *)
theory Block_Codec
  imports Codec Bridge State_Tree
begin

text \<open>
  Blocks of \<open>suwappudb-bridge/src/recovery\<close>: the block type and its canonical hash (\<open>block.rs\<close>), and the
  binary encoding with its cursor-based decoder (\<open>store.rs\<close>). The digest is the parameter \<open>H\<close>. The
  cursor is the list of bytes not yet read. The UTF-8 check of a decoded module name is part of
  \<open>Identifier_new\<close>, which accepts ASCII bytes only, so that both reject with \<open>None\<close>.
\<close>

section \<open>Blocks and their hash\<close>

datatype BlockHash = BlockHash (hash_bytes: bytes)

definition GENESIS_PARENT :: BlockHash where
  "GENESIS_PARENT = BlockHash (replicate 32 0)"

record Block =
  blk_height :: u64
  blk_parent :: BlockHash
  blk_state_root :: Commitment
  blk_intents :: "Intent list"

text \<open>What \<open>encode_intent\<close> feeds to the hasher.\<close>

fun hash_intent :: "Intent \<Rightarrow> bytes" where
  "hash_intent (Transfer from to_addr amount) =
     [0] @ addr_bytes from @ addr_bytes to_addr @ to_be_bytes amount"
| "hash_intent (Call caller target val calldata) =
     [1] @ addr_bytes caller @ addr_bytes target @ to_be_bytes val @
     to_be_bytes (len32 (length calldata)) @ calldata"
| "hash_intent (DeployModule account name bs) =
     [2] @ move_bytes account @ to_be_bytes (len32 (length (as_str name))) @ as_str name @
     to_be_bytes (len32 (length bs)) @ bs"

definition block_preimage :: "Block \<Rightarrow> bytes" where
  "block_preimage b =
     ascii ''SUWAPPUDB-BLOCK/HASH'' @ to_be_bytes (blk_height b) @ hash_bytes (blk_parent b) @
     com_bytes (blk_state_root b) @ to_be_bytes (len32 (length (blk_intents b))) @
     concat (map hash_intent (blk_intents b))"

definition Block_hash :: "(bytes \<Rightarrow> bytes) \<Rightarrow> Block \<Rightarrow> BlockHash" where
  "Block_hash H b = BlockHash (H (block_preimage b))"

section \<open>Encoding\<close>

definition BLOCK_ENCODING_VERSION :: u8 where
  "BLOCK_ENCODING_VERSION = 1"

fun encode_intent :: "Intent \<Rightarrow> bytes" where
  "encode_intent (Transfer from to_addr amount) =
     [0] @ addr_bytes from @ addr_bytes to_addr @ to_be_bytes amount"
| "encode_intent (Call caller target val calldata) =
     [1] @ addr_bytes caller @ addr_bytes target @ to_be_bytes val @
     to_be_bytes (len32 (length calldata)) @ calldata"
| "encode_intent (DeployModule account name bs) =
     [2] @ move_bytes account @ to_be_bytes (len32 (length (as_str name))) @ as_str name @
     to_be_bytes (len32 (length bs)) @ bs"

definition encode_block :: "Block \<Rightarrow> bytes" where
  "encode_block b =
     [BLOCK_ENCODING_VERSION] @ to_be_bytes (blk_height b) @ hash_bytes (blk_parent b) @
     com_bytes (blk_state_root b) @ to_be_bytes (len32 (length (blk_intents b))) @
     concat (map encode_intent (blk_intents b))"

definition Cursor_byte :: "u8 decoder" where
  "Cursor_byte bs = do { (xs, rest) \<leftarrow> take_bytes 1 bs; Some (hd xs, rest) }"

definition decode_intent :: "Intent decoder" where
  "decode_intent bs =
     do { (tag, r) \<leftarrow> Cursor_byte bs;
          if tag = 0 then
            do { (from, r1) \<leftarrow> take_bytes 20 r; (to_addr, r2) \<leftarrow> take_bytes 20 r1;
                 (amount, r3) \<leftarrow> be_word r2;
                 Some (Transfer (Address from) (Address to_addr) amount, r3) }
          else if tag = 1 then
            do { (caller, r1) \<leftarrow> take_bytes 20 r; (target, r2) \<leftarrow> take_bytes 20 r1;
                 (val, r3) \<leftarrow> be_word r2; (calldata, r4) \<leftarrow> be_blob r3;
                 Some (Call (Address caller) (Address target) val calldata, r4) }
          else if tag = 2 then
            do { (account, r1) \<leftarrow> take_bytes 32 r; (name_bytes, r2) \<leftarrow> be_blob r1;
                 name \<leftarrow> ok_of (Identifier_new name_bytes); (bs', r3) \<leftarrow> be_blob r2;
                 Some (DeployModule (MoveAddress account) name bs', r3) }
          else None }"

definition decode_block :: "bytes \<Rightarrow> Block option" where
  "decode_block bs =
     do { (version, r) \<leftarrow> Cursor_byte bs;
          if version \<noteq> BLOCK_ENCODING_VERSION then None
          else do { (h, r1) \<leftarrow> be_word r; (par, r2) \<leftarrow> take_bytes 32 r1; (root, r3) \<leftarrow> take_bytes 32 r2;
                    (n, r4) \<leftarrow> (be_word :: u32 decoder) r3;
                    (intents, r5) \<leftarrow> repeat_opt (unat n) decode_intent r4;
                    if r5 \<noteq> [] then None
                    else Some \<lparr>blk_height = h, blk_parent = BlockHash par,
                               blk_state_root = Commitment root, blk_intents = intents\<rparr> } }"

section \<open>Round trip\<close>

text \<open>
  What the Rust types guarantee of an intent and of a block (array lengths, validated identifiers),
  and that no list is too long for its 32-bit length.
\<close>

fun wf_intent :: "Intent \<Rightarrow> bool" where
  "wf_intent (Transfer a b n) \<longleftrightarrow> wf_addr a \<and> wf_addr b"
| "wf_intent (Call a b n d) \<longleftrightarrow> wf_addr a \<and> wf_addr b \<and> length d < 2 ^ 32"
| "wf_intent (DeployModule m i bs) \<longleftrightarrow> wf_move_addr m \<and> wf_ident i \<and> length (as_str i) < 2 ^ 32 \<and> length bs < 2 ^ 32"

definition wf_block :: "Block \<Rightarrow> bool" where
  "wf_block b \<longleftrightarrow> length (hash_bytes (blk_parent b)) = 32 \<and> length (com_bytes (blk_state_root b)) = 32 \<and>
     length (blk_intents b) < 2 ^ 32 \<and> list_all wf_intent (blk_intents b)"

lemma hash_intent_encode: "hash_intent = encode_intent"
proof
  show "hash_intent i = encode_intent i" for i by (cases i) simp_all
qed

lemma encode_blob_eq: "to_be_bytes (len32 (length xs)) @ xs @ rest = enc_be_blob xs @ rest"
  by (simp add: enc_be_blob_def)

lemma Cursor_byte_Cons [simp]: "Cursor_byte (b # bs) = Some (b, bs)"
  by (simp add: Cursor_byte_def take_bytes_def)

lemma Cursor_byte_Some: "Cursor_byte bs = Some (b, rest) \<longleftrightarrow> bs = b # rest"
  by (cases bs) (auto simp: Cursor_byte_def take_bytes_def)

lemma decode_encode_intent:
  assumes "wf_intent i"
  shows "decode_intent (encode_intent i @ rest) = Some (i, rest)"
proof (cases i)
  case (Transfer a b n)
  with assms show ?thesis
    by (cases a; cases b) (simp add: decode_intent_def wf_addr_def be128.enc_dec)
next
  case (Call a b n d)
  with assms show ?thesis
    by (cases a; cases b) (simp add: decode_intent_def wf_addr_def be128.enc_dec encode_blob_eq blob.enc_dec)
next
  case (DeployModule m x bs)
  with assms have "Identifier_new (as_str x) = Inr x" by (simp add: Identifier_new_iff)
  with DeployModule assms show ?thesis
    by (cases m) (simp add: decode_intent_def wf_move_addr_def encode_blob_eq blob.enc_dec)
qed

lemma encode_decode_intent:
  assumes "decode_intent bs = Some (i, rest)"
  shows "bs = encode_intent i @ rest \<and> wf_intent i"
proof -
  from assms obtain tag r where tag: "bs = tag # r"
    by (auto simp: decode_intent_def bind_eq_Some_conv Cursor_byte_Some)
  consider "tag = 0" | "tag = 1" | "tag = 2" | "tag \<noteq> 0 \<and> tag \<noteq> 1 \<and> tag \<noteq> 2" by blast
  then show ?thesis
  proof cases
    case 1
    with assms tag show ?thesis
      by (auto simp: decode_intent_def bind_eq_Some_conv take_bytes_Some wf_addr_def dest!: be128.dec_enc)
  next
    case 2
    with assms tag show ?thesis
      by (auto simp: decode_intent_def bind_eq_Some_conv take_bytes_Some wf_addr_def enc_be_blob_def
          dest!: be128.dec_enc blob.dec_enc)
  next
    case 3
    with assms tag show ?thesis
      by (auto simp: decode_intent_def bind_eq_Some_conv take_bytes_Some wf_move_addr_def enc_be_blob_def
          Identifier_new_iff dest!: blob.dec_enc)
  next
    case 4
    with assms tag show ?thesis by (simp add: decode_intent_def)
  qed
qed

interpretation intent_codec: codec wf_intent encode_intent decode_intent
  by unfold_locales (auto simp: decode_encode_intent dest: encode_decode_intent)

lemma decode_encode_block:
  assumes "wf_block b"
  shows "decode_block (encode_block b) = Some b"
proof -
  obtain par root where p: "blk_parent b = BlockHash par" "blk_state_root b = Commitment root"
    by (cases "blk_parent b"; cases "blk_state_root b")
  from assms have len: "unat (len32 (length (blk_intents b))) = length (blk_intents b)"
    by (simp add: wf_block_def unat_len32)
  from assms p show ?thesis
    using intent_codec.repeat_enc_dec [of "blk_intents b" "[]"]
    by (simp add: decode_block_def encode_block_def wf_block_def be64.enc_dec be32.enc_dec len)
qed

lemma encode_decode_block:
  assumes "decode_block bs = Some b"
  shows "bs = encode_block b \<and> wf_block b"
proof -
  from assms obtain r h r1 par r2 root r3 n r4 intents where
    p: "bs = BLOCK_ENCODING_VERSION # r" "be_word r = Some (h, r1)" "r1 = par @ r2" "length par = 32"
      "r2 = root @ r3" "length root = 32" "(be_word :: u32 decoder) r3 = Some (n, r4)"
      "repeat_opt (unat n) decode_intent r4 = Some (intents, [])"
      "b = \<lparr>blk_height = h, blk_parent = BlockHash par, blk_state_root = Commitment root, blk_intents = intents\<rparr>"
    by (auto simp: decode_block_def bind_eq_Some_conv Cursor_byte_Some take_bytes_Some split: if_splits)
  have "unat n < 2 ^ 32" using unsigned_less [of n, where ?'a = nat] by simp
  with p be64.dec_enc [OF p(2)] be32.dec_enc [OF p(7)] intent_codec.repeat_dec_enc [OF p(8)] show ?thesis
    by (auto simp: encode_block_def wf_block_def len32_def)
qed

text \<open>
  C28: the block encoding is a bijection onto what the decoder accepts: every well-formed block
  decodes back to itself, and the decoder accepts only encodings of well-formed blocks, so it rejects
  unknown versions and tags, truncated fields and trailing bytes.
\<close>

theorem block_round_trip:
  "decode_block bs = Some b \<longleftrightarrow> bs = encode_block b \<and> wf_block b"
  using decode_encode_block encode_decode_block by blast

lemma preimage_tail:
  "block_preimage b = ascii ''SUWAPPUDB-BLOCK/HASH'' @ tl (encode_block b)"
  by (simp add: block_preimage_def encode_block_def hash_intent_encode)

text \<open>
  The block hash binds the whole block: two well-formed blocks with equal hashes are equal, if
  the digest does not collide on their two hash inputs.
\<close>

theorem block_hash_binding:
  assumes "wf_block b" "wf_block c" "Block_hash H b = Block_hash H c"
    and "inj_on H {block_preimage b, block_preimage c}"
  shows "b = c"
proof -
  from assms(3) have "H (block_preimage b) = H (block_preimage c)" by (simp add: Block_hash_def)
  then have "block_preimage b = block_preimage c" by (rule inj_onD [OF assms(4)]) simp_all
  then have "tl (encode_block b) = tl (encode_block c)" by (simp add: preimage_tail)
  then have "encode_block b = encode_block c" by (simp add: encode_block_def)
  then have "Some b = Some c" using decode_encode_block [OF assms(1)] decode_encode_block [OF assms(2)] by metis
  then show ?thesis by simp
qed

definition genesis_block :: Block where
  "genesis_block = \<lparr>blk_height = 0, blk_parent = GENESIS_PARENT, blk_state_root = Commitment (replicate 32 7),
     blk_intents = [Transfer (addr_of 1) (addr_of 2) 5, Call (addr_of 1) (addr_of 3) 0 [9, 9]]\<rparr>"

theorem block_hash_binding_witness:
  "the (decode_block (encode_block genesis_block)) = genesis_block"
proof -
  have wf: "wf_block genesis_block" by (simp add: wf_block_def genesis_block_def GENESIS_PARENT_def)
  have dec: "decode_block (encode_block genesis_block) = Some genesis_block" by (rule decode_encode_block [OF wf])
  have wf': "wf_block (the (decode_block (encode_block genesis_block)))" using wf by (simp add: dec)
  have hash: "Block_hash (\<lambda>bs. bs) (the (decode_block (encode_block genesis_block))) =
    Block_hash (\<lambda>bs. bs) genesis_block" by (simp add: dec)
  have inj: "inj_on (\<lambda>bs. bs) S" for S :: "bytes set" by (simp add: inj_on_def)
  show ?thesis by (rule block_hash_binding [OF wf' wf hash inj])
qed

end
