(* ===== verification/Mv_Store.thy ===== *)
theory Mv_Store
  imports Bridge
begin

text \<open>
  The multi-version balance store of \<open>suwappudb-bridge/src/occ/mv_store.rs\<close> and the read/write sets
  with their validator (\<open>occ/txn.rs\<close>). Each operation of the store holds the mutex for its whole
  duration, so it is one atomic step of the concurrent executor in theory \<open>Occ\<close>; a poisoned mutex
  needs a panic inside one of them, and none can panic.
\<close>

section \<open>The store\<close>

type_synonym TxnIdx = usize

datatype ReadSource = Version TxnIdx | Snapshot

record MvStore =
  versions :: "(Address, (TxnIdx, BalanceSlot) btree_map) hash_map"
  mv_snapshot :: "(Address, BalanceSlot) hash_map"

definition MvStore_new :: MvStore where
  "MvStore_new = \<lparr>versions = [], mv_snapshot = []\<rparr>"

text \<open>\<open>per_addr.range(..bound).next_back()\<close>.\<close>

definition next_back :: "'a list \<Rightarrow> 'a option" where
  "next_back xs = (if xs = [] then None else Some (last xs))"

definition last_below :: "(TxnIdx, 'v) btree_map \<Rightarrow> TxnIdx \<Rightarrow> (TxnIdx \<times> 'v) option" where
  "last_below m bound = next_back (filter (\<lambda>e. fst e < bound) m)"

definition MvStore_read :: "MvStore \<Rightarrow> State \<Rightarrow> Address \<Rightarrow> TxnIdx \<Rightarrow> BalanceSlot \<times> ReadSource" where
  "MvStore_read mv st addr my_idx =
     (case map_get (versions mv) addr of
        None \<Rightarrow> (State_slot_of st addr, Snapshot)
      | Some per_addr \<Rightarrow>
          (case last_below per_addr my_idx of
             Some (v_idx, slot) \<Rightarrow> (slot, Version v_idx)
           | None \<Rightarrow> (State_slot_of st addr, Snapshot)))"

definition MvStore_write :: "MvStore \<Rightarrow> Address \<Rightarrow> BalanceSlot \<Rightarrow> TxnIdx \<Rightarrow> MvStore" where
  "MvStore_write mv addr slot my_idx =
     (let per_addr = (case map_get (versions mv) addr of Some m \<Rightarrow> m | None \<Rightarrow> [])
      in mv\<lparr>versions := hm_insert addr (bt_insert my_idx slot per_addr) (versions mv)\<rparr>)"

definition MvStore_clear_writes :: "MvStore \<Rightarrow> TxnIdx \<Rightarrow> MvStore" where
  "MvStore_clear_writes mv idx =
     mv\<lparr>versions := filter (\<lambda>e. snd e \<noteq> []) (map (\<lambda>e. (fst e, map_remove idx (snd e))) (versions mv))\<rparr>"

definition MvStore_highest_writer_below :: "MvStore \<Rightarrow> Address \<Rightarrow> TxnIdx \<Rightarrow> TxnIdx option" where
  "MvStore_highest_writer_below mv addr bound =
     (case map_get (versions mv) addr of
        None \<Rightarrow> None
      | Some per_addr \<Rightarrow> map_option fst (last_below per_addr bound))"

definition MvStore_finalise :: "MvStore \<Rightarrow> (Address \<times> BalanceSlot) list" where
  "MvStore_finalise mv =
     List.map_filter (\<lambda>(addr, per_addr). map_option (\<lambda>e. (addr, snd e)) (next_back per_addr)) (versions mv)"

definition MvStore_note_snapshot :: "MvStore \<Rightarrow> Address \<Rightarrow> BalanceSlot \<Rightarrow> MvStore" where
  "MvStore_note_snapshot mv addr slot = mv\<lparr>mv_snapshot := hm_insert addr slot (mv_snapshot mv)\<rparr>"

section \<open>Read and write sets, validation\<close>

record ReadEntry =
  re_addr :: Address
  re_source :: ReadSource

record WriteEntry =
  we_addr :: Address
  we_value :: BalanceSlot

record Txn =
  txn_idx :: TxnIdx
  read_set :: "ReadEntry list"
  write_set :: "WriteEntry list"
  rejected :: "RejectReason option"

text \<open>\<open>Txn { idx, ..Default::default() }\<close>.\<close>

definition Txn_default :: "TxnIdx \<Rightarrow> Txn" where
  "Txn_default i = \<lparr>txn_idx = i, read_set = [], write_set = [], rejected = None\<rparr>"

fun still_consistent :: "ReadSource \<Rightarrow> TxnIdx option \<Rightarrow> bool" where
  "still_consistent Snapshot None = True"
| "still_consistent (Version v) (Some c) = (v = c)"
| "still_consistent Snapshot (Some _) = False"
| "still_consistent (Version _) None = False"

definition Validator_is_valid :: "Txn \<Rightarrow> MvStore \<Rightarrow> bool" where
  "Validator_is_valid txn mv \<longleftrightarrow>
     (\<forall>entry \<in> set (read_set txn).
        still_consistent (re_source entry) (MvStore_highest_writer_below mv (re_addr entry) (txn_idx txn)))"

section \<open>The store as a function of address and index\<close>

definition mv_lookup :: "MvStore \<Rightarrow> Address \<Rightarrow> TxnIdx \<Rightarrow> BalanceSlot option" where
  "mv_lookup mv a i = (case map_get (versions mv) a of None \<Rightarrow> None | Some m \<Rightarrow> map_get m i)"

definition mv_invar :: "MvStore \<Rightarrow> bool" where
  "mv_invar mv \<longleftrightarrow> hm_invar (versions mv) \<and> (\<forall>e \<in> set (versions mv). bt_invar (snd e))"

text \<open>The highest index below a bound at which a write is recorded, by search downwards.\<close>

fun highest_below :: "(TxnIdx \<Rightarrow> 'v option) \<Rightarrow> nat \<Rightarrow> TxnIdx option" where
  "highest_below f 0 = None"
| "highest_below f (Suc n) = (if f n \<noteq> None then Some n else highest_below f n)"

lemma highest_below_Some: "highest_below f n = Some v \<Longrightarrow> v < n \<and> f v \<noteq> None"
  by (induction n) (auto split: if_splits intro: less_SucI)

lemma highest_below_max: "highest_below f n = Some v \<Longrightarrow> v < j \<Longrightarrow> j < n \<Longrightarrow> f j = None"
  by (induction n) (auto split: if_splits simp: less_Suc_eq)

lemma highest_below_None: "highest_below f n = None \<longleftrightarrow> (\<forall>j < n. f j = None)"
  by (induction n) (auto simp: less_Suc_eq)

lemma highest_belowI:
  assumes "v < n" "f v \<noteq> None" "\<And>j. v < j \<Longrightarrow> j < n \<Longrightarrow> f j = None"
  shows "highest_below f n = Some v"
proof (cases "highest_below f n")
  case None
  with assms show ?thesis by (simp add: highest_below_None)
next
  case (Some w)
  with highest_below_Some [OF Some] highest_below_max [OF Some] assms show ?thesis
    by (metis linorder_neqE_nat)
qed

lemma highest_below_cong: "(\<And>j. j < n \<Longrightarrow> f j = g j) \<Longrightarrow> highest_below f n = highest_below g n"
  by (induction n) auto

text \<open>The sorted list agrees with the search.\<close>

lemma last_below_search:
  assumes "bt_invar m"
  shows "last_below m b = map_option (\<lambda>v. (v, the (map_get m v))) (highest_below (map_get m) b)"
proof -
  let ?m = "filter (\<lambda>e. fst e < b) m"
  have get: "(k, v) \<in> set m \<longleftrightarrow> map_get m k = Some v" for k v using assms by (rule bt.iter_iff_get)
  show ?thesis
  proof (cases "?m = []")
    case True
    have "map_get m j = None" if "j < b" for j
    proof (rule ccontr)
      assume "map_get m j \<noteq> None"
      then obtain v where "(j, v) \<in> set m" using get by auto
      with that True show False by (auto simp: filter_empty_conv)
    qed
    then have "highest_below (map_get m) b = None" by (simp add: highest_below_None)
    with True show ?thesis by (simp add: last_below_def next_back_def)
  next
    case False
    obtain k v where kv: "last ?m = (k, v)" by (cases "last ?m")
    from last_in_set [OF False] have mem: "(k, v) \<in> set m" "k < b" by (simp_all add: kv)
    have "sorted_wrt (<) (map fst ?m)"
      using assms by (simp add: bt_invar_def sorted_wrt_map sorted_wrt_filter)
    then have last: "fst e \<le> k" if "e \<in> set ?m" for e
      using that False kv by (cases ?m rule: rev_cases) (auto simp: sorted_wrt_append)
    have "map_get m j = None" if "k < j" "j < b" for j
    proof (rule ccontr)
      assume "map_get m j \<noteq> None"
      then obtain w where "(j, w) \<in> set m" using get by auto
      with last [of "(j, w)"] that show False by simp
    qed
    then have "highest_below (map_get m) b = Some k"
      using mem get by (intro highest_belowI) auto
    with False kv mem get show ?thesis by (auto simp: last_below_def next_back_def)
  qed
qed

section \<open>The versioned-store interface\<close>

text \<open>
  The value a transaction at index \<open>i\<close> must observe: the highest version below \<open>i\<close>, or the block-start
  slot; and what an earlier observation still guarantees once later writes have been added.
\<close>

definition mv_view ::
  "State \<Rightarrow> (Address \<Rightarrow> TxnIdx \<Rightarrow> BalanceSlot option) \<Rightarrow> TxnIdx \<Rightarrow> Address \<Rightarrow> BalanceSlot \<times> ReadSource" where
  "mv_view st L i a =
     (case highest_below (L a) i of
        None \<Rightarrow> (State_slot_of st a, Snapshot)
      | Some v \<Rightarrow> (the (L a v), Version v))"

definition obs_ok ::
  "State \<Rightarrow> (Address \<Rightarrow> TxnIdx \<Rightarrow> BalanceSlot option) \<Rightarrow> TxnIdx \<Rightarrow> Address \<Rightarrow> BalanceSlot \<times> ReadSource \<Rightarrow> bool" where
  "obs_ok st L i a r =
     (case snd r of Snapshot \<Rightarrow> fst r = State_slot_of st a | Version v \<Rightarrow> v < i \<and> L a v = Some (fst r))"

lemma mv_view_cong: "(\<And>j. j < i \<Longrightarrow> L a j = L' a j) \<Longrightarrow> mv_view st L i a = mv_view st L' i a"
proof -
  assume eq: "\<And>j. j < i \<Longrightarrow> L a j = L' a j"
  then have "highest_below (L a) i = highest_below (L' a) i" by (rule highest_below_cong)
  with eq show ?thesis by (auto simp: mv_view_def dest: highest_below_Some split: option.splits)
qed

lemma obs_ok_view: "obs_ok st L i a (mv_view st L i a)"
  by (auto simp: obs_ok_def mv_view_def dest: highest_below_Some split: option.splits)

text \<open>Observations survive every extension of the store.\<close>

lemma obs_ok_mono: "obs_ok st L i a r \<Longrightarrow> (\<And>v s. L a v = Some s \<Longrightarrow> L' a v = Some s) \<Longrightarrow> obs_ok st L' i a r"
  by (auto simp: obs_ok_def split: ReadSource.splits)

text \<open>An observation whose source is still the highest writer is the current view.\<close>

lemma obs_consistent_view:
  "obs_ok st L i a r \<Longrightarrow> still_consistent (snd r) (highest_below (L a) i) \<longleftrightarrow> r = mv_view st L i a"
  by (cases r; cases "snd r"; cases "highest_below (L a) i") (auto simp: obs_ok_def mv_view_def)

locale versioned_store =
  fixes vinvar :: "'m \<Rightarrow> bool"
    and lk :: "'m \<Rightarrow> Address \<Rightarrow> TxnIdx \<Rightarrow> BalanceSlot option"
    and vnew :: 'm
    and vread :: "'m \<Rightarrow> State \<Rightarrow> Address \<Rightarrow> TxnIdx \<Rightarrow> BalanceSlot \<times> ReadSource"
    and vwrite :: "'m \<Rightarrow> Address \<Rightarrow> BalanceSlot \<Rightarrow> TxnIdx \<Rightarrow> 'm"
    and vclear :: "'m \<Rightarrow> TxnIdx \<Rightarrow> 'm"
    and vhighest :: "'m \<Rightarrow> Address \<Rightarrow> TxnIdx \<Rightarrow> TxnIdx option"
    and vfinal :: "'m \<Rightarrow> (Address \<times> BalanceSlot) list"
  assumes inv_new: "vinvar vnew"
    and inv_write: "vinvar m \<Longrightarrow> vinvar (vwrite m a s i)"
    and inv_clear: "vinvar m \<Longrightarrow> vinvar (vclear m i)"
    and lk_new: "lk vnew a i = None"
    and lk_write: "lk (vwrite m a s i) b j = (if b = a \<and> j = i then Some s else lk m b j)"
    and lk_clear: "vinvar m \<Longrightarrow> lk (vclear m i) b j = (if j = i then None else lk m b j)"
    and read_view: "vinvar m \<Longrightarrow> vread m st a i = mv_view st (lk m) i a"
    and highest_search: "vinvar m \<Longrightarrow> vhighest m a n = highest_below (lk m a) n"
    and final_distinct: "vinvar m \<Longrightarrow> distinct (map fst (vfinal m))"
    and final_iff: "vinvar m \<Longrightarrow>
      (a, s) \<in> set (vfinal m) \<longleftrightarrow> (\<exists>v. lk m a v = Some s \<and> (\<forall>j > v. lk m a j = None))"
begin

text \<open>Reads do not see the reader's own writes, nor those of later transactions.\<close>

lemma read_write_other:
  "vinvar m \<Longrightarrow> i \<le> j \<Longrightarrow> vread (vwrite m b s j) st a i = vread m st a i"
  by (simp add: read_view inv_write) (rule mv_view_cong, auto simp: lk_write)

text \<open>A fresh write by an earlier transaction is what a later reader sees, up to the next writer.\<close>

lemma read_after_write:
  "vinvar m \<Longrightarrow> j < i \<Longrightarrow> (\<And>k. j < k \<Longrightarrow> k < i \<Longrightarrow> lk m a k = None) \<Longrightarrow>
   vread (vwrite m a s j) st a i = (s, Version j)"
proof -
  assume m: "vinvar m" "j < i" "\<And>k. j < k \<Longrightarrow> k < i \<Longrightarrow> lk m a k = None"
  have "highest_below (lk (vwrite m a s j) a) i = Some j"
    by (rule highest_belowI) (use m in \<open>auto simp: lk_write\<close>)
  with m show ?thesis by (simp add: read_view inv_write mv_view_def lk_write)
qed

text \<open>Clearing the writes of every index of a block empties it.\<close>

lemma clear_all:
  "vinvar m \<Longrightarrow> vinvar (fold (\<lambda>i m. vclear m i) is m) \<and>
   lk (fold (\<lambda>i m. vclear m i) is m) a j = (if j \<in> set is then None else lk m a j)"
  by (induction "is" arbitrary: m) (auto simp: inv_clear lk_clear)

text \<open>The final value of an address is what a reader above every index would see.\<close>

lemma final_view:
  assumes "vinvar m" "\<And>a j. n \<le> j \<Longrightarrow> lk m a j = None"
  shows "map_of (vfinal m) a = map_option (\<lambda>v. the (lk m a v)) (highest_below (lk m a) n)"
proof (cases "highest_below (lk m a) n")
  case None
  then have "\<And>j. lk m a j = None" using assms(2) by (metis highest_below_None not_le)
  then have "(a, s) \<notin> set (vfinal m)" for s using final_iff [OF assms(1)] by simp
  then show ?thesis using None by (auto simp: map_of_eq_None_iff)
next
  case (Some v)
  then obtain s where s: "lk m a v = Some s" using highest_below_Some by blast
  have "lk m a j = None" if "j > v" for j
    using highest_below_max [OF Some that] assms(2) by (metis not_le)
  with s have "(a, s) \<in> set (vfinal m)" using final_iff [OF assms(1)] by blast
  then have "map_of (vfinal m) a = Some s" using final_distinct [OF assms(1)] by simp
  with Some s show ?thesis by simp
qed

end

lemma map_get_filter_nonempty:
  "hm_invar vs \<Longrightarrow> map_get (filter (\<lambda>e. snd e \<noteq> []) (map (\<lambda>e. (fst e, f (snd e))) vs)) a =
     (case map_get vs a of None \<Rightarrow> None | Some m \<Rightarrow> if f m = [] then None else Some (f m))"
proof (induction vs)
  case (Cons e vs)
  obtain k m where e: "e = (k, m)" by (cases e)
  from Cons.prems e have "map_get vs k = None" "hm_invar vs"
    by (auto simp: map_get_def map_of_eq_None_iff hm_invar_def)
  with Cons.IH e show ?case by (auto simp: map_get_Cons)
qed simp

lemma mv_clear_invar: "mv_invar mv \<Longrightarrow> mv_invar (MvStore_clear_writes mv i)"
  by (auto simp: mv_invar_def MvStore_clear_writes_def hm_invar_def distinct_map_filter comp_def)

lemma mv_clear_lookup:
  "mv_invar mv \<Longrightarrow> mv_lookup (MvStore_clear_writes mv i) a j = (if j = i then None else mv_lookup mv a j)"
proof -
  assume "mv_invar mv"
  then have *: "map_get (versions (MvStore_clear_writes mv i)) a =
    (case map_get (versions mv) a of None \<Rightarrow> None
     | Some m \<Rightarrow> if map_remove i m = [] then None else Some (map_remove i m))"
    by (simp add: MvStore_clear_writes_def map_get_filter_nonempty mv_invar_def)
  have "map_remove i m = [] \<Longrightarrow> j \<noteq> i \<Longrightarrow> map_get m j = None" for m :: "(nat \<times> BalanceSlot) list"
    using map_get_remove [of i m] by (metis fun_upd_other map_get_Nil)
  with * show ?thesis
    by (auto simp: mv_lookup_def split: option.splits)
qed

lemma mv_per_addr: "mv_invar mv \<Longrightarrow> map_get (versions mv) a = Some m \<Longrightarrow> bt_invar m"
  using map_of_SomeD [of "versions mv" a m] by (auto simp: mv_invar_def map_get_def)

lemma mv_lookup_get: "map_get (versions mv) a = Some m \<Longrightarrow> mv_lookup mv a = map_get m"
  by (simp add: mv_lookup_def fun_eq_iff)

lemma next_back_sorted:
  assumes "bt_invar m"
  shows "map_option snd (next_back m) = Some s \<longleftrightarrow> (\<exists>v. map_get m v = Some s \<and> (\<forall>j > v. map_get m j = None))"
proof (cases m rule: rev_cases)
  case Nil
  then show ?thesis by (simp add: next_back_def)
next
  case (snoc ys y)
  obtain k v where y: "y = (k, v)" by (cases y)
  have get: "(k, v) \<in> set m \<longleftrightarrow> map_get m k = Some v" for k v using assms by (rule bt.iter_iff_get)
  have last: "map_get m k = Some v" using get [of k v] snoc y by simp
  have top: "map_get m j = None" if "j > k" for j
  proof (rule ccontr)
    assume "map_get m j \<noteq> None"
    then obtain w where "(j, w) \<in> set m" using get by auto
    with assms snoc y that show False by (auto simp: bt_invar_def sorted_wrt_append)
  qed
  show ?thesis
  proof
    assume "map_option snd (next_back m) = Some s"
    with snoc y have "s = v" by (simp add: next_back_def)
    with last top show "\<exists>v. map_get m v = Some s \<and> (\<forall>j > v. map_get m j = None)" by blast
  next
    assume "\<exists>v. map_get m v = Some s \<and> (\<forall>j > v. map_get m j = None)"
    then obtain w where "map_get m w = Some s" "\<forall>j > w. map_get m j = None" by blast
    with last top have "w = k" by (metis neq_iff option.distinct(1))
    with last snoc y \<open>map_get m w = Some s\<close> show "map_option snd (next_back m) = Some s"
      by (simp add: next_back_def)
  qed
qed

lemma mv_final_iff:
  assumes "mv_invar mv"
  shows "(a, s) \<in> set (MvStore_finalise mv) \<longleftrightarrow> (\<exists>v. mv_lookup mv a v = Some s \<and> (\<forall>j > v. mv_lookup mv a j = None))"
proof -
  have "(a, s) \<in> set (MvStore_finalise mv) \<longleftrightarrow>
    (\<exists>m. (a, m) \<in> set (versions mv) \<and> map_option snd (next_back m) = Some s)"
    by (force simp: MvStore_finalise_def List.map_filter_def)
  also have "\<dots> \<longleftrightarrow> (\<exists>m. map_get (versions mv) a = Some m \<and> map_option snd (next_back m) = Some s)"
    using assms hm.iter_iff_get [of "versions mv" a] by (auto simp: mv_invar_def)
  also have "\<dots> \<longleftrightarrow> (\<exists>v. mv_lookup mv a v = Some s \<and> (\<forall>j > v. mv_lookup mv a j = None))"
  proof (cases "map_get (versions mv) a")
    case (Some m)
    with next_back_sorted [OF mv_per_addr [OF assms Some]] show ?thesis by (simp add: mv_lookup_get)
  qed (simp add: mv_lookup_def)
  finally show ?thesis .
qed

lemma mv_new: "mv_invar MvStore_new" "mv_lookup MvStore_new a i = None"
  by (simp_all add: mv_invar_def MvStore_new_def mv_lookup_def)

lemma mv_write_lookup: "mv_lookup (MvStore_write mv a s i) b j = (if b = a \<and> j = i then Some s else mv_lookup mv b j)"
  by (auto simp: mv_lookup_def MvStore_write_def Let_def split: option.splits)

lemma mv_write_invar:
  assumes "mv_invar mv"
  shows "mv_invar (MvStore_write mv a s i)"
proof -
  have "bt_invar (bt_insert i s (case map_get (versions mv) a of Some m \<Rightarrow> m | None \<Rightarrow> []))"
    using mv_per_addr [OF assms] by (auto split: option.splits)
  moreover have "set (hm_insert a v vs) \<subseteq> insert (a, v) (set vs)" for v and vs :: "(Address \<times> (nat \<times> BalanceSlot) list) list"
    by (induction a v vs rule: hm_insert.induct) auto
  ultimately show ?thesis using assms by (fastforce simp: mv_invar_def MvStore_write_def Let_def)
qed

lemma highest_below_nothing: "highest_below (\<lambda>_. None) i = None"
  by (simp add: highest_below_None)

lemma mv_read_view:
  assumes "mv_invar mv"
  shows "MvStore_read mv st a i = mv_view st (mv_lookup mv) i a"
proof (cases "map_get (versions mv) a")
  case None
  then show ?thesis by (simp add: MvStore_read_def mv_view_def mv_lookup_def [abs_def] highest_below_nothing)
next
  case (Some p)
  with last_below_search [OF mv_per_addr [OF assms Some], of i] show ?thesis
    by (auto simp: MvStore_read_def mv_view_def mv_lookup_get split: option.splits)
qed

lemma mv_highest_search:
  assumes "mv_invar mv"
  shows "MvStore_highest_writer_below mv a n = highest_below (mv_lookup mv a) n"
proof (cases "map_get (versions mv) a")
  case None
  then show ?thesis by (simp add: MvStore_highest_writer_below_def mv_lookup_def [abs_def] highest_below_nothing)
next
  case (Some p)
  with last_below_search [OF mv_per_addr [OF assms Some], of n] show ?thesis
    by (simp add: MvStore_highest_writer_below_def mv_lookup_get option.map_comp comp_def option.map_ident)
qed

lemma mv_final_distinct:
  assumes "mv_invar mv"
  shows "distinct (map fst (MvStore_finalise mv))"
proof -
  have "map fst (MvStore_finalise mv) = map fst (filter (\<lambda>e. next_back (snd e) \<noteq> None) (versions mv))"
    by (simp add: MvStore_finalise_def List.map_filter_def comp_def case_prod_unfold)
      (induction "versions mv"; auto)
  with assms show ?thesis by (simp add: mv_invar_def hm_invar_def distinct_map_filter)
qed

interpretation mvs: versioned_store mv_invar mv_lookup MvStore_new MvStore_read MvStore_write
  MvStore_clear_writes MvStore_highest_writer_below MvStore_finalise
  by unfold_locales (simp_all add: mv_new mv_write_invar mv_write_lookup mv_clear_invar mv_clear_lookup mv_read_view
      mv_highest_search mv_final_distinct mv_final_iff)

text \<open>The snapshot map of the store is write-only: a noted slot reaches neither a read, nor the validator's query, nor the
  consolidated result. A read that finds no version falls through to the canonical state.\<close>

lemma note_snapshot_inert:
  "MvStore_read (MvStore_note_snapshot mv a s) st b i = MvStore_read mv st b i"
  "MvStore_highest_writer_below (MvStore_note_snapshot mv a s) b i = MvStore_highest_writer_below mv b i"
  "MvStore_finalise (MvStore_note_snapshot mv a s) = MvStore_finalise mv"
  "mv_invar (MvStore_note_snapshot mv a s) = mv_invar mv"
  by (simp_all add: MvStore_note_snapshot_def MvStore_read_def MvStore_highest_writer_below_def MvStore_finalise_def
      mv_invar_def)

end
