(* ===== verification/Bundle.thy ===== *)
theory Bundle
  imports Bridge
begin

text \<open>
  Intent bundles of \<open>suwappudb-bridge/src/bundle\<close>: the step and result types (\<open>types.rs\<close>), the
  contract registry (\<open>registry.rs\<close>) and the atomic executor with its two entry points
  (\<open>executor.rs\<close>). The executor saves the balances of the addresses its steps mention, runs the steps
  through \<open>Bridge::submit\<close> and writes the saved balances back when a step fails.
\<close>

section \<open>Types\<close>

datatype BundleStep =
    Evm EvmTx
  | Move MoveTx
  | StepMoveCall MoveCall
  | StepDeployModule MoveAddress Identifier bytes

record Bundle =
  steps :: "BundleStep list"

definition Bundle_new :: Bundle where
  "Bundle_new = \<lparr>steps = []\<rparr>"

definition Bundle_single :: "BundleStep \<Rightarrow> Bundle" where
  "Bundle_single s = \<lparr>steps = [s]\<rparr>"

definition Bundle_with :: "Bundle \<Rightarrow> BundleStep \<Rightarrow> Bundle" where
  "Bundle_with b s = b\<lparr>steps := steps b @ [s]\<rparr>"

definition Bundle_is_empty :: "Bundle \<Rightarrow> bool" where
  "Bundle_is_empty b \<longleftrightarrow> steps b = []"

datatype TxOutcome = Committed | Rejected RejectReason

datatype BundleOutcome = BundleCommitted | Reverted usize

record BundleResult =
  step_outcomes :: "TxOutcome list"
  outcome :: BundleOutcome

definition BundleResult_is_committed :: "BundleResult \<Rightarrow> bool" where
  "BundleResult_is_committed r \<longleftrightarrow> outcome r = BundleCommitted"

section \<open>Contract registry\<close>

record CallCtx =
  ctx_caller :: Address
  ctx_target :: Address
  ctx_value :: u128
  ctx_calldata :: bytes
  ctx_state :: State
  ctx_depth :: u8

type_synonym BundleGenerator = "CallCtx \<Rightarrow> Bundle"

record ContractRegistry =
  by_address :: "(Address, BundleGenerator) hash_map"

definition ContractRegistry_new :: ContractRegistry where
  "ContractRegistry_new = \<lparr>by_address = []\<rparr>"

definition ContractRegistry_register :: "ContractRegistry \<Rightarrow> Address \<Rightarrow> BundleGenerator \<Rightarrow> ContractRegistry" where
  "ContractRegistry_register r a g = r\<lparr>by_address := hm_insert a g (by_address r)\<rparr>"

definition ContractRegistry_get :: "ContractRegistry \<Rightarrow> Address \<Rightarrow> BundleGenerator option" where
  "ContractRegistry_get r a = map_get (by_address r) a"

section \<open>The executor\<close>

fun step_to_intent :: "BundleStep \<Rightarrow> Intent option" where
  "step_to_intent (Evm tx) =
     (let c = EvmTx_to_canonical tx in Some (Transfer (ct_from c) (ct_to c) (ct_amount c)))"
| "step_to_intent (Move tx) =
     (let c = MoveTx_to_canonical tx in Some (Transfer (ct_from c) (ct_to c) (ct_amount c)))"
| "step_to_intent (StepMoveCall _) = None"
| "step_to_intent (StepDeployModule _ _ _) = None"

definition move_addr_to_evm :: "MoveAddress \<Rightarrow> Address" where
  "move_addr_to_evm a = Address (take 20 (drop 12 (move_bytes a)))"

text \<open>\<open>snap.entry(addr).or_insert_with(|| state.balance_of(&addr))\<close>.\<close>

definition record_addr ::
  "State \<Rightarrow> Address \<Rightarrow> (Address, Balance) hash_map \<Rightarrow> (Address, Balance) hash_map" where
  "record_addr st a snap =
     (case map_get snap a of Some _ \<Rightarrow> snap | None \<Rightarrow> hm_insert a (State_balance_of st a) snap)"

fun record_step ::
  "State \<Rightarrow> BundleStep \<Rightarrow> (Address, Balance) hash_map \<Rightarrow> (Address, Balance) hash_map" where
  "record_step st (Evm tx) snap = record_addr st (etx_to tx) (record_addr st (etx_from tx) snap)"
| "record_step st (Move tx) snap = record_addr st (mtx_recipient tx) (record_addr st (mtx_signer tx) snap)"
| "record_step st (StepMoveCall c) snap = record_addr st (move_addr_to_evm (mc_caller c)) snap"
| "record_step st (StepDeployModule account _ _) snap = record_addr st (move_addr_to_evm account) snap"

definition collect_snapshot :: "State \<Rightarrow> Bundle \<Rightarrow> (Address, Balance) hash_map" where
  "collect_snapshot st b = fold (record_step st) (steps b) []"

definition restore_snapshot :: "State \<Rightarrow> (Address, Balance) hash_map \<Rightarrow> State" where
  "restore_snapshot st snap = fold (\<lambda>(a, v) s. State_apply s (SetBalance a v)) snap st"

definition apply_resource_writes :: "State \<Rightarrow> ResourceWrite list \<Rightarrow> State" where
  "apply_resource_writes st ws =
     fold (\<lambda>w s. State_apply s (SetBalance (move_addr_to_evm (rw_addr w))
                    (Balance (MoveCoinValue_to_u128 (rw_coin_value w))))) ws st"

text \<open>The step loop of \<open>execute\<close>, at index \<open>idx\<close> with the outcomes pushed so far.\<close>

fun execute_steps ::
  "(Address, Balance) hash_map \<Rightarrow> usize \<Rightarrow> BundleStep list \<Rightarrow> TxOutcome list \<Rightarrow> State \<Rightarrow>
   BundleResult \<times> State" where
  "execute_steps snap idx [] outs st = (\<lparr>step_outcomes = outs, outcome = BundleCommitted\<rparr>, st)"
| "execute_steps snap idx (step # rest) outs st =
     (case step_to_intent step of
        None \<Rightarrow>
          (\<lparr>step_outcomes = outs @ [Rejected MoveRuntimeRequired], outcome = Reverted idx\<rparr>,
           restore_snapshot st snap)
      | Some intent \<Rightarrow>
          (case Bridge_submit st intent of
             (Inr _, st') \<Rightarrow> execute_steps snap (Suc idx) rest (outs @ [Committed]) st'
           | (Inl reason, st') \<Rightarrow>
               (\<lparr>step_outcomes = outs @ [Rejected reason], outcome = Reverted idx\<rparr>,
                restore_snapshot st' snap)))"

definition BundleExecutor_execute :: "State \<Rightarrow> Bundle \<Rightarrow> BundleResult \<times> State" where
  "BundleExecutor_execute st b =
     (if Bundle_is_empty b then (\<lparr>step_outcomes = [], outcome = BundleCommitted\<rparr>, st)
      else execute_steps (collect_snapshot st b) 0 (steps b) [] st)"

text \<open>One step of \<open>execute_with_move_runtime\<close>: its outcome, the state and the queued deploys.\<close>

type_synonym deploy_queue = "(ModuleId \<times> CompiledModule) list"

fun runtime_step ::
  "MoveExecutor \<Rightarrow> InMemoryModuleStore \<Rightarrow> MoveBalanceView \<Rightarrow> BundleStep \<Rightarrow> State \<Rightarrow> deploy_queue \<Rightarrow>
   (RejectReason + unit) \<times> State \<times> deploy_queue" where
  "runtime_step ex ms view (Evm tx) st q =
     (case step_to_intent (Evm tx) of
        Some intent \<Rightarrow> (let (r, st') = Bridge_submit st intent in (r, st', q))
      | None \<Rightarrow> (Inl MoveRuntimeRequired, st, q))"
| "runtime_step ex ms view (Move tx) st q =
     (case step_to_intent (Move tx) of
        Some intent \<Rightarrow> (let (r, st') = Bridge_submit st intent in (r, st', q))
      | None \<Rightarrow> (Inl MoveRuntimeRequired, st, q))"
| "runtime_step ex ms view (StepMoveCall call) st q =
     (case fst (ex call ms (MoveSessionState_new view)) of
        Inr out \<Rightarrow> (Inr (), apply_resource_writes st (resource_writes out), q)
      | Inl e \<Rightarrow> (Inl (MoveCallFailed e), st, q))"
| "runtime_step ex ms view (StepDeployModule account name bs) st q =
     (let i = \<lparr>mod_address = account, mod_name = name\<rparr> in
      if ModuleStore_contains ms i \<or> (\<exists>e \<in> set q. fst e = i)
      then (Inl (ModuleDeployFailed account name), st, q)
      else (Inr (), st, q @ [(i, \<lparr>cm_bytes = bs\<rparr>)]))"

definition flush_deploys :: "InMemoryModuleStore \<Rightarrow> deploy_queue \<Rightarrow> InMemoryModuleStore" where
  "flush_deploys ms q =
     fold (\<lambda>e s. case ModuleStore_put s (fst e) (snd e) of Inl _ \<Rightarrow> s | Inr s' \<Rightarrow> s') q ms"

fun runtime_steps ::
  "MoveExecutor \<Rightarrow> MoveBalanceView \<Rightarrow> (Address, Balance) hash_map \<Rightarrow> usize \<Rightarrow> BundleStep list \<Rightarrow>
   TxOutcome list \<Rightarrow> State \<Rightarrow> InMemoryModuleStore \<Rightarrow> deploy_queue \<Rightarrow>
   BundleResult \<times> State \<times> InMemoryModuleStore" where
  "runtime_steps ex view snap idx [] outs st ms q =
     (\<lparr>step_outcomes = outs, outcome = BundleCommitted\<rparr>, st, flush_deploys ms q)"
| "runtime_steps ex view snap idx (step # rest) outs st ms q =
     (case runtime_step ex ms view step st q of
        (Inr _, st', q') \<Rightarrow> runtime_steps ex view snap (Suc idx) rest (outs @ [Committed]) st' ms q'
      | (Inl reason, st', q') \<Rightarrow>
          (\<lparr>step_outcomes = outs @ [Rejected reason], outcome = Reverted idx\<rparr>,
           restore_snapshot st' snap, ms))"

definition BundleExecutor_execute_with_move_runtime ::
  "State \<Rightarrow> Bundle \<Rightarrow> MoveExecutor \<Rightarrow> InMemoryModuleStore \<Rightarrow> MoveBalanceView \<Rightarrow>
   BundleResult \<times> State \<times> InMemoryModuleStore" where
  "BundleExecutor_execute_with_move_runtime st b ex ms view =
     (if Bundle_is_empty b then (\<lparr>step_outcomes = [], outcome = BundleCommitted\<rparr>, st, ms)
      else runtime_steps ex view (collect_snapshot st b) 0 (steps b) [] st ms [])"

section \<open>Snapshots\<close>

text \<open>The addresses a step mentions, and what the snapshot records of them.\<close>

fun step_addrs :: "BundleStep \<Rightarrow> Address set" where
  "step_addrs (Evm tx) = {etx_from tx, etx_to tx}"
| "step_addrs (Move tx) = {mtx_signer tx, mtx_recipient tx}"
| "step_addrs (StepMoveCall c) = {move_addr_to_evm (mc_caller c)}"
| "step_addrs (StepDeployModule account _ _) = {move_addr_to_evm account}"

definition snapshot_of :: "State \<Rightarrow> Address set \<Rightarrow> (Address, Balance) hash_map \<Rightarrow> bool" where
  "snapshot_of st A snap \<longleftrightarrow> hm_invar snap \<and>
     (\<forall>a. map_get snap a = (if a \<in> A then Some (State_balance_of st a) else None))"

lemma record_addr_snapshot: "snapshot_of st A snap \<Longrightarrow> snapshot_of st (insert a A) (record_addr st a snap)"
  by (auto simp: snapshot_of_def record_addr_def split: option.splits)

lemma record_two_snapshot:
  "snapshot_of st A snap \<Longrightarrow> snapshot_of st (insert a (insert b A)) (record_addr st b (record_addr st a snap))"
  by (subst insert_commute) (intro record_addr_snapshot)

lemma record_step_snapshot:
  "snapshot_of st A snap \<Longrightarrow> snapshot_of st (step_addrs s \<union> A) (record_step st s snap)"
  by (cases s) (simp_all add: record_addr_snapshot record_two_snapshot)

lemma collect_snapshot_of: "snapshot_of st (\<Union> (step_addrs ` set (steps b))) (collect_snapshot st b)"
proof -
  have "snapshot_of st A snap \<Longrightarrow>
    snapshot_of st (\<Union> (step_addrs ` set ss) \<union> A) (fold (record_step st) ss snap)" for ss A snap
  proof (induction ss arbitrary: A snap)
    case Nil
    then show ?case by simp
  next
    case (Cons s ss)
    from Cons.IH [OF record_step_snapshot [OF Cons.prems, of s]] show ?case
      by (simp add: Un_ac)
  qed
  from this [of "{}" "[]" "steps b"] show ?thesis
    by (simp add: collect_snapshot_def snapshot_of_def)
qed

text \<open>Writing distinct saved balances back sets exactly those addresses.\<close>

lemma fold_set_balance:
  "distinct (map fst snap) \<Longrightarrow>
   bal (fold (\<lambda>(a, v) s. State_apply s (SetBalance a v)) snap st) a =
     (case map_get snap a of Some v \<Rightarrow> balance_val v | None \<Rightarrow> bal st a)"
proof (induction snap arbitrary: st)
  case Nil
  then show ?case by simp
next
  case (Cons e snap)
  obtain b v where e: "e = (b, v)" by (cases e)
  with Cons.prems have "map_get snap b = None" by (simp add: map_get_def map_of_eq_None_iff)
  with Cons e show ?case by (simp add: map_get_Cons split: option.splits)
qed

lemma fold_set_balance_bytes:
  "State_bytes_of (fold (\<lambda>(a, v) s. State_apply s (SetBalance a v)) snap st) a = State_bytes_of st a"
  by (induction snap arbitrary: st) auto

lemma fold_set_balance_invar:
  "State_invar st \<Longrightarrow> State_invar (fold (\<lambda>(a, v) s. State_apply s (SetBalance a v)) snap st)"
  by (induction snap arbitrary: st) auto

lemma restore_snapshot_bal:
  "snapshot_of st A snap \<Longrightarrow> bal (restore_snapshot st' snap) a = (if a \<in> A then bal st a else bal st' a)"
  using fold_set_balance [of snap st' a]
  by (auto simp: restore_snapshot_def snapshot_of_def hm_invar_distinct)

lemma restore_snapshot_bytes: "State_bytes_of (restore_snapshot st snap) a = State_bytes_of st a"
  by (simp add: restore_snapshot_def fold_set_balance_bytes)

lemma restore_snapshot_invar: "State_invar st \<Longrightarrow> State_invar (restore_snapshot st snap)"
  by (simp add: restore_snapshot_def fold_set_balance_invar)

text \<open>A submitted step changes no balance outside the addresses it mentions.\<close>

lemma submit_frame:
  "step_to_intent s = Some i \<Longrightarrow> a \<notin> step_addrs s \<Longrightarrow> bal (snd (Bridge_submit st i)) a = bal st a"
  by (cases s) (auto simp: submit_transfer_cases EvmTx_to_canonical_def MoveTx_to_canonical_def)

lemma execute_steps_reverted:
  assumes "execute_steps snap idx ss outs cur = (r, st')" "outcome r = Reverted k"
    and "snapshot_of st A snap" "\<Union> (step_addrs ` set ss) \<subseteq> A"
    and "\<forall>a. a \<notin> A \<longrightarrow> bal cur a = bal st a" "\<forall>a. State_bytes_of cur a = State_bytes_of st a"
  shows "bal st' a = bal st a \<and> State_bytes_of st' a = State_bytes_of st a"
  using assms
proof (induction snap idx ss outs cur rule: execute_steps.induct)
  case (1 snap idx outs st)
  then show ?case by auto
next
  case (2 snap idx step rest outs cur)
  show ?case
  proof (cases "step_to_intent step")
    case None
    with 2 show ?thesis by (auto simp: restore_snapshot_bal restore_snapshot_bytes)
  next
    case (Some i)
    obtain res cur' where sub: "Bridge_submit cur i = (res, cur')" by (cases "Bridge_submit cur i")
    have outside: "a \<notin> A \<Longrightarrow> a \<notin> step_addrs step" for a using "2.prems"(4) by auto
    have frame: "\<forall>a. a \<notin> A \<longrightarrow> bal cur' a = bal st a"
      using submit_frame [OF Some outside, of _ cur] sub "2.prems"(5) by (metis snd_conv)
    have frame_bytes: "\<forall>a. State_bytes_of cur' a = State_bytes_of st a"
      using submit_bytes [of cur i] sub "2.prems"(6) by (metis snd_conv)
    show ?thesis
    proof (cases res)
      case (Inl e)
      with "2.prems"(1-3) Some sub frame frame_bytes show ?thesis
        by (auto simp: restore_snapshot_bal restore_snapshot_bytes)
    next
      case (Inr u)
      from "2.prems"(1) Some sub Inr
      have "execute_steps snap (Suc idx) rest (outs @ [Committed]) cur' = (r, st')" by simp
      from "2.IH" [OF Some sub [symmetric] Inr this "2.prems"(2,3) _ frame frame_bytes] "2.prems"(4)
      show ?thesis by simp
    qed
  qed
qed

section \<open>Atomicity of the transfer executor\<close>

lemma submit_all_Cons:
  "submit_all st (i # is) =
     (fst (Bridge_submit st i) # fst (submit_all (snd (Bridge_submit st i)) is),
      snd (submit_all (snd (Bridge_submit st i)) is))"
  by (simp add: Let_def case_prod_unfold)

text \<open>A committed bundle is the run of its intents through the bridge, none of them rejected.\<close>

lemma execute_steps_committed:
  assumes "execute_steps snap idx ss outs cur = (r, st')" "outcome r = BundleCommitted"
  shows "\<exists>is. map step_to_intent ss = map Some is \<and> submit_all cur is = (map (\<lambda>_. Inr ()) is, st') \<and>
           step_outcomes r = outs @ replicate (length ss) Committed"
  using assms
proof (induction snap idx ss outs cur rule: execute_steps.induct)
  case (1 snap idx outs st)
  then show ?case by auto
next
  case (2 snap idx step rest outs cur)
  from "2.prems" obtain i where i: "step_to_intent step = Some i" by (auto split: option.splits)
  obtain res cur' where sub: "Bridge_submit cur i = (res, cur')" by (cases "Bridge_submit cur i")
  from "2.prems" i sub obtain u where u: "res = Inr u" by (cases res) auto
  from "2.prems"(1) i sub u
  have "execute_steps snap (Suc idx) rest (outs @ [Committed]) cur' = (r, st')" by simp
  from "2.IH" [OF i sub [symmetric] u this "2.prems"(2)] obtain "is" where
    "map step_to_intent rest = map Some is" "submit_all cur' is = (map (\<lambda>_. Inr ()) is, st')"
    "step_outcomes r = (outs @ [Committed]) @ replicate (length rest) Committed" by blast
  with i sub u show ?case
    by (intro exI [of _ "i # is"]) (simp add: submit_all_Cons del: submit_all.simps)
qed

lemma execute_steps_outcomes:
  assumes "execute_steps snap idx ss outs cur = (r, st')" "outcome r = Reverted k"
  shows "idx \<le> k \<and> k < idx + length ss \<and>
         (\<exists>e. step_outcomes r = outs @ replicate (k - idx) Committed @ [Rejected e])"
  using assms
proof (induction snap idx ss outs cur rule: execute_steps.induct)
  case (1 snap idx outs st)
  then show ?case by auto
next
  case (2 snap idx step rest outs cur)
  show ?case
  proof (cases "\<exists>i u cur'. step_to_intent step = Some i \<and> Bridge_submit cur i = (Inr u, cur')")
    case True
    then obtain i u cur' where i: "step_to_intent step = Some i" "Bridge_submit cur i = (Inr u, cur')"
      by blast
    with "2.prems"(1)
    have "execute_steps snap (Suc idx) rest (outs @ [Committed]) cur' = (r, st')" by simp
    from "2.IH" [OF i(1) i(2) [symmetric] refl this "2.prems"(2)] obtain e where
      k: "Suc idx \<le> k" "k < Suc idx + length rest" and
      outs: "step_outcomes r = (outs @ [Committed]) @ replicate (k - Suc idx) Committed @ [Rejected e]"
      by blast
    from k have "k - idx = Suc (k - Suc idx)" by linarith
    with k outs show ?thesis by simp
  next
    case False
    with "2.prems" show ?thesis by (auto split: option.splits prod.splits sum.splits)
  qed
qed

lemma execute_steps_invar: "State_invar cur \<Longrightarrow> State_invar (snd (execute_steps snap idx ss outs cur))"
proof (induction snap idx ss outs cur rule: execute_steps.induct)
  case (2 snap idx step rest outs cur)
  then show ?case
    using submit_invar [OF "2.prems"]
    by (auto split: option.splits prod.splits sum.splits intro!: restore_snapshot_invar)
      (metis snd_conv)+
qed simp

text \<open>
  C7: a reverted bundle leaves every balance and every bytes blob of the state exactly as it was
  before the call, whichever step failed and whatever the earlier steps had moved.
\<close>

theorem bundle_revert_restores:
  assumes "BundleExecutor_execute st b = (r, st')" "outcome r = Reverted k"
  shows "bal st' a = bal st a \<and> State_bytes_of st' a = State_bytes_of st a"
proof -
  from assms have "execute_steps (collect_snapshot st b) 0 (steps b) [] st = (r, st')"
    by (auto simp: BundleExecutor_execute_def Bundle_is_empty_def split: if_splits)
  from execute_steps_reverted [OF this assms(2) collect_snapshot_of] show ?thesis by blast
qed

text \<open>
  C19: a committed bundle is exactly the run of its steps' transfers through \<open>Bridge::submit\<close> in order,
  every one of them accepted, with one \<open>Committed\<close> outcome per step.
\<close>

theorem bundle_commit_refines:
  assumes "BundleExecutor_execute st b = (r, st')" "BundleResult_is_committed r"
  shows "\<exists>is. map step_to_intent (steps b) = map Some is \<and>
           submit_all st is = (map (\<lambda>_. Inr ()) is, st') \<and>
           step_outcomes r = replicate (length (steps b)) Committed"
proof (cases "Bundle_is_empty b")
  case True
  with assms show ?thesis by (auto simp: BundleExecutor_execute_def Bundle_is_empty_def)
next
  case False
  with assms have "execute_steps (collect_snapshot st b) 0 (steps b) [] st = (r, st')"
    "outcome r = BundleCommitted"
    by (auto simp: BundleExecutor_execute_def BundleResult_is_committed_def)
  from execute_steps_committed [OF this] show ?thesis by simp
qed

text \<open>
  A reverted bundle names the failing step: it is a step of the bundle, every earlier step is
  reported committed, the failing one rejected, and no later step is attempted.
\<close>

theorem bundle_revert_report:
  assumes "BundleExecutor_execute st b = (r, st')" "outcome r = Reverted k"
  shows "k < length (steps b) \<and> (\<exists>e. step_outcomes r = replicate k Committed @ [Rejected e])"
proof -
  from assms have "execute_steps (collect_snapshot st b) 0 (steps b) [] st = (r, st')"
    by (auto simp: BundleExecutor_execute_def Bundle_is_empty_def split: if_splits)
  from execute_steps_outcomes [OF this assms(2)] show ?thesis by simp
qed

section \<open>The Move runtime path\<close>

definition has_move_call :: "BundleStep list \<Rightarrow> bool" where
  "has_move_call ss \<longleftrightarrow> (\<exists>c. StepMoveCall c \<in> set ss)"

lemma runtime_step_frame:
  assumes "runtime_step ex ms view s st q = (r, st', q')" "\<not> has_move_call [s]" "a \<notin> step_addrs s"
  shows "bal st' a = bal st a"
proof (cases "step_to_intent s")
  case None
  with assms show ?thesis
    by (cases s) (auto simp: has_move_call_def Let_def split: if_splits)
next
  case (Some i)
  then have "st' = snd (Bridge_submit st i)"
    using assms(1) by (cases s) (auto simp: case_prod_unfold Let_def)
  then show ?thesis using submit_frame [OF Some assms(3)] by simp
qed

lemma runtime_steps_reverted:
  assumes "runtime_steps ex view snap idx ss outs cur ms q = (r, st', ms')" "outcome r = Reverted k"
    and "snapshot_of st A snap" "\<Union> (step_addrs ` set ss) \<subseteq> A"
    and "\<not> mc \<Longrightarrow> \<not> has_move_call ss \<and> (\<forall>a. a \<notin> A \<longrightarrow> bal cur a = bal st a)"
  shows "ms' = ms \<and> (a \<in> A \<or> \<not> mc \<longrightarrow> bal st' a = bal st a)"
  using assms
proof (induction ss arbitrary: idx outs cur q)
  case Nil
  then show ?case by auto
next
  case (Cons s ss)
  obtain res cur' q' where step: "runtime_step ex ms view s cur q = (res, cur', q')"
    by (cases "runtime_step ex ms view s cur q")
  have frame: "\<not> mc \<Longrightarrow> \<not> has_move_call ss \<and> (\<forall>a. a \<notin> A \<longrightarrow> bal cur' a = bal st a)"
  proof -
    assume "\<not> mc"
    with Cons.prems(5) have nomc: "\<not> has_move_call [s]" "\<not> has_move_call ss"
      and cur: "\<forall>a. a \<notin> A \<longrightarrow> bal cur a = bal st a" by (auto simp: has_move_call_def)
    have "a \<notin> A \<Longrightarrow> a \<notin> step_addrs s" for a using Cons.prems(4) by auto
    with nomc cur show ?thesis using runtime_step_frame [OF step nomc(1)] by metis
  qed
  show ?case
  proof (cases res)
    case (Inl e)
    with Cons.prems(1,3) step frame show ?thesis by (auto simp: restore_snapshot_bal)
  next
    case (Inr u)
    with Cons.prems(1) step have
      "runtime_steps ex view snap (Suc idx) ss (outs @ [Committed]) cur' ms q' = (r, st', ms')" by simp
    from Cons.IH [OF this Cons.prems(2,3) _ frame] Cons.prems(4) show ?thesis by auto
  qed
qed

text \<open>
  When a bundle run with a Move runtime reverts, the module store is untouched and the balance of
  every address that some step names is back to its value before the call; if no step is a
  \<open>MoveCall\<close>, every balance is.
\<close>

theorem runtime_revert_restores:
  assumes "BundleExecutor_execute_with_move_runtime st b ex ms view = (r, st', ms')"
    and "outcome r = Reverted k"
  shows "ms' = ms \<and> (\<forall>s \<in> set (steps b). \<forall>a \<in> step_addrs s. bal st' a = bal st a) \<and>
         (\<not> has_move_call (steps b) \<longrightarrow> bal st' = bal st)"
proof -
  let ?A = "\<Union> (step_addrs ` set (steps b))"
  from assms have run: "runtime_steps ex view (collect_snapshot st b) 0 (steps b) [] st ms [] = (r, st', ms')"
    by (auto simp: BundleExecutor_execute_with_move_runtime_def Bundle_is_empty_def split: if_splits)
  note rev = runtime_steps_reverted [OF run assms(2) collect_snapshot_of subset_refl]
  from rev [of True] have "ms' = ms" "a \<in> ?A \<Longrightarrow> bal st' a = bal st a" for a by auto
  moreover have "bal st' = bal st" if "\<not> has_move_call (steps b)"
    using rev [of False] that by (auto simp: fun_eq_iff)
  ultimately show ?thesis by auto
qed

text \<open>The queue of a run: new ids only, none deployed, none twice.\<close>

definition queue_ok :: "InMemoryModuleStore \<Rightarrow> deploy_queue \<Rightarrow> bool" where
  "queue_ok ms q \<longleftrightarrow> distinct (map fst q) \<and> (\<forall>i \<in> fst ` set q. \<not> ModuleStore_contains ms i)"

fun deploys :: "BundleStep list \<Rightarrow> deploy_queue" where
  "deploys [] = []"
| "deploys (StepDeployModule a n bs # ss) = (\<lparr>mod_address = a, mod_name = n\<rparr>, \<lparr>cm_bytes = bs\<rparr>) # deploys ss"
| "deploys (_ # ss) = deploys ss"

lemma runtime_step_queue:
  assumes "runtime_step ex ms view s st q = (Inr u, st', q')" "queue_ok ms q"
  shows "q' = q @ deploys [s] \<and> queue_ok ms q'"
  using assms
  by (cases s) (auto simp: queue_ok_def Let_def split: if_splits sum.splits prod.splits, metis fst_conv)

lemma deploys_Cons: "deploys (s # ss) = deploys [s] @ deploys ss"
  by (cases s) auto

lemma runtime_steps_committed:
  assumes "runtime_steps ex view snap idx ss outs cur ms q = (r, st', ms')" "outcome r = BundleCommitted"
    and "queue_ok ms q"
  shows "ms' = flush_deploys ms (q @ deploys ss) \<and> queue_ok ms (q @ deploys ss)"
  using assms
proof (induction ss arbitrary: idx outs cur q)
  case Nil
  then show ?case by auto
next
  case (Cons s ss)
  obtain res cur' q' where step: "runtime_step ex ms view s cur q = (res, cur', q')"
    by (cases "runtime_step ex ms view s cur q")
  with Cons.prems(1,2) obtain u where u: "res = Inr u" by (cases res) auto
  with step runtime_step_queue Cons.prems(3) have q': "q' = q @ deploys [s]" "queue_ok ms q'" by blast+
  from Cons.prems(1) step u have
    "runtime_steps ex view snap (Suc idx) ss (outs @ [Committed]) cur' ms q' = (r, st', ms')" by simp
  from Cons.IH [OF this Cons.prems(2) q'(2)] q'(1) show ?case by (simp add: deploys_Cons [of s ss])
qed

lemma flush_deploys_fold: "flush_deploys ms q = fold (\<lambda>e s. ms.put_or_keep s e) q ms"
  by (simp add: flush_deploys_def ms.put_or_keep_def)

text \<open>
  When such a bundle commits, every module one of its steps deploys is found in the module store
  with exactly the deployed bytes, and every other module is as before: no deferred deploy is lost
  although the flush ignores the result of \<open>put\<close>.
\<close>

theorem runtime_commit_deploys:
  assumes "BundleExecutor_execute_with_move_runtime st b ex ms view = (r, st', ms')"
    and "BundleResult_is_committed r"
  shows "ModuleStore_get ms' i =
    (case map_of (deploys (steps b)) i of Some m \<Rightarrow> Some m | None \<Rightarrow> ModuleStore_get ms i)"
proof (cases "Bundle_is_empty b")
  case True
  with assms show ?thesis
    by (auto simp: BundleExecutor_execute_with_move_runtime_def Bundle_is_empty_def)
next
  case False
  with assms have run: "runtime_steps ex view (collect_snapshot st b) 0 (steps b) [] st ms [] = (r, st', ms')"
    and "outcome r = BundleCommitted"
    by (auto simp: BundleExecutor_execute_with_move_runtime_def BundleResult_is_committed_def)
  from runtime_steps_committed [OF this]
  have ms': "ms' = flush_deploys ms (deploys (steps b))" and q: "queue_ok ms (deploys (steps b))"
    by (auto simp: queue_ok_def)
  show ?thesis
    using q unfolding ms' flush_deploys_fold queue_ok_def by (intro ms.fold_put_all) auto
qed

section \<open>Concrete bundles\<close>

text \<open>
  One funded account and three bundles: one that commits, one whose second step fails after the first
  has moved money, and one whose second step fails after a Move call. The balance view handed to the
  Move runtime reads the state the bundle starts from.
\<close>

definition funded :: State where
  "funded = State_apply State_default (SetBalance (addr_of 1) (Balance 10))"

definition evm_step :: "u8 \<Rightarrow> u8 \<Rightarrow> u128 \<Rightarrow> BundleStep" where
  "evm_step a b n = Evm \<lparr>etx_from = addr_of a, etx_to = addr_of b, etx_value = n\<rparr>"

definition good_bundle :: Bundle where
  "good_bundle = Bundle_with (Bundle_single (evm_step 1 2 4)) (evm_step 2 3 1)"

definition bad_bundle :: Bundle where
  "bad_bundle = Bundle_with (Bundle_single (evm_step 1 2 4)) (evm_step 2 3 7)"

definition funded_view :: MoveBalanceView where
  "funded_view = \<lparr>view_coin_value = (\<lambda>m. MoveCoinValue (bal funded (MoveAddress_to_evm m))),
                  view_nonce = (\<lambda>_. AccountNonce_default)\<rparr>"

definition coin_transfer :: "u8 \<Rightarrow> u8 \<Rightarrow> u64 \<Rightarrow> BundleStep" where
  "coin_transfer a b n = StepMoveCall
     \<lparr>mc_caller = MoveAddress_from_evm (addr_of a),
      mc_module = \<lparr>mod_address = CANONICAL_COIN_ADDRESS, mod_name = Identifier (ascii ''coin'')\<rparr>,
      mc_function = Identifier (ascii ''transfer''), mc_type_arguments = [],
      mc_arguments = [move_bytes (MoveAddress_from_evm (addr_of b)), to_le_bytes n]\<rparr>"

definition deploy_step :: BundleStep where
  "deploy_step = StepDeployModule (MoveAddress_from_evm (addr_of 1)) (Identifier (ascii ''m'')) [1, 2, 3]"

definition run_mock :: "BundleStep list \<Rightarrow> BundleResult \<times> State \<times> InMemoryModuleStore" where
  "run_mock ss = BundleExecutor_execute_with_move_runtime funded \<lparr>steps = ss\<rparr>
     MockMoveExecutor_execute InMemoryModuleStore_new funded_view"

theorem bundle_revert_restores_witness:
  "outcome (fst (BundleExecutor_execute funded bad_bundle)) = Reverted 1 \<and>
   bal (snd (BundleExecutor_execute funded bad_bundle)) (addr_of 1) = bal funded (addr_of 1)"
proof -
  have rev: "outcome (fst (BundleExecutor_execute funded bad_bundle)) = Reverted 1" by code_simp
  with bundle_revert_restores [OF prod.collapse [symmetric] rev, of "addr_of 1"] show ?thesis by blast
qed

theorem bundle_revert_report_witness:
  "1 < length (steps bad_bundle) \<and>
   (\<exists>e. step_outcomes (fst (BundleExecutor_execute funded bad_bundle)) = replicate 1 Committed @ [Rejected e])"
proof -
  have rev: "outcome (fst (BundleExecutor_execute funded bad_bundle)) = Reverted 1" by code_simp
  show ?thesis by (rule bundle_revert_report [OF prod.collapse [symmetric] rev])
qed

theorem bundle_commit_refines_witness:
  "\<exists>is. map step_to_intent (steps good_bundle) = map Some is \<and>
     submit_all funded is = (map (\<lambda>_. Inr ()) is, snd (BundleExecutor_execute funded good_bundle)) \<and>
     step_outcomes (fst (BundleExecutor_execute funded good_bundle)) = replicate (length (steps good_bundle)) Committed"
proof -
  have com: "BundleResult_is_committed (fst (BundleExecutor_execute funded good_bundle))" by code_simp
  show ?thesis by (rule bundle_commit_refines [OF prod.collapse [symmetric] com])
qed

theorem runtime_revert_restores_witness:
  "outcome (fst (run_mock [deploy_step, evm_step 1 2 4, evm_step 2 3 7])) = Reverted 2 \<and>
   snd (snd (run_mock [deploy_step, evm_step 1 2 4, evm_step 2 3 7])) = InMemoryModuleStore_new \<and>
   bal (fst (snd (run_mock [deploy_step, evm_step 1 2 4, evm_step 2 3 7]))) = bal funded"
proof -
  let ?ss = "[deploy_step, evm_step 1 2 4, evm_step 2 3 7]"
  have rev: "outcome (fst (run_mock ?ss)) = Reverted 2" by code_simp
  have run: "BundleExecutor_execute_with_move_runtime funded \<lparr>steps = ?ss\<rparr> MockMoveExecutor_execute
    InMemoryModuleStore_new funded_view = (fst (run_mock ?ss), fst (snd (run_mock ?ss)), snd (snd (run_mock ?ss)))"
    by (simp only: run_mock_def prod.collapse)
  have "\<not> has_move_call ?ss" by (auto simp: has_move_call_def deploy_step_def evm_step_def)
  with runtime_revert_restores [OF run rev] rev show ?thesis by simp
qed

theorem runtime_commit_deploys_witness:
  "ModuleStore_get (snd (snd (run_mock [deploy_step, evm_step 1 2 4])))
     \<lparr>mod_address = MoveAddress_from_evm (addr_of 1), mod_name = Identifier (ascii ''m'')\<rparr> = Some \<lparr>cm_bytes = [1, 2, 3]\<rparr>"
proof -
  let ?ss = "[deploy_step, evm_step 1 2 4]"
  have com: "BundleResult_is_committed (fst (run_mock ?ss))" by code_simp
  have run: "BundleExecutor_execute_with_move_runtime funded \<lparr>steps = ?ss\<rparr> MockMoveExecutor_execute
    InMemoryModuleStore_new funded_view = (fst (run_mock ?ss), fst (snd (run_mock ?ss)), snd (snd (run_mock ?ss)))"
    by (simp only: run_mock_def prod.collapse)
  show ?thesis
    using runtime_commit_deploys [OF run com, of "\<lparr>mod_address = MoveAddress_from_evm (addr_of 1), mod_name = Identifier (ascii ''m'')\<rparr>"]
    by (simp add: deploy_step_def)
qed

section \<open>Supply\<close>

text \<open>
  A bundle of transfers conserves the sum of all balances, committed or reverted, and keeps the
  representation invariant of the state.
\<close>

theorem bundle_conserves_supply:
  assumes "State_invar st" "BundleExecutor_execute st b = (r, st')"
  shows "State_invar st' \<and> State_supply st' = State_supply st"
proof (cases "Bundle_is_empty b")
  case True
  with assms show ?thesis by (simp add: BundleExecutor_execute_def)
next
  case False
  with assms(2) have run: "execute_steps (collect_snapshot st b) 0 (steps b) [] st = (r, st')"
    by (simp add: BundleExecutor_execute_def)
  have inv: "State_invar st'"
    using execute_steps_invar [OF assms(1), of "collect_snapshot st b" 0 "steps b" "[]"] run by simp
  show ?thesis
  proof (cases "outcome r")
    case BundleCommitted
    from execute_steps_committed [OF run this] obtain "is" where "submit_all st is = (map (\<lambda>_. Inr ()) is, st')" by blast
    with submit_all_supply [OF assms(1), of "is"] inv show ?thesis by simp
  next
    case (Reverted k)
    from execute_steps_reverted [OF run this collect_snapshot_of] have "\<And>a. bal st' a = bal st a" by blast
    with supply_cong [OF inv assms(1)] inv show ?thesis by blast
  qed
qed

theorem bundle_conserves_supply_witness:
  "State_supply (snd (BundleExecutor_execute funded good_bundle)) = 10 \<and>
   State_supply (snd (BundleExecutor_execute funded bad_bundle)) = 10"
proof -
  have "State_invar funded" by (simp add: funded_def)
  from bundle_conserves_supply [OF this prod.collapse [symmetric], of good_bundle]
    bundle_conserves_supply [OF this prod.collapse [symmetric], of bad_bundle]
  have "State_supply (snd (BundleExecutor_execute funded good_bundle)) = State_supply funded"
    "State_supply (snd (BundleExecutor_execute funded bad_bundle)) = State_supply funded" by blast+
  moreover have "State_supply funded = 10" by code_simp
  ultimately show ?thesis by simp
qed

section \<open>Where the rollback does not reach\<close>

lemma apply_writes_invar: "State_invar st \<Longrightarrow> State_invar (apply_resource_writes st ws)"
  unfolding apply_resource_writes_def by (induction ws arbitrary: st) auto

text \<open>A call of \<open>0x1::coin::transfer\<close> as the mock executor expects it, and what the mock answers.\<close>

definition mock_transfer :: "MoveAddress \<Rightarrow> MoveAddress \<Rightarrow> u64 \<Rightarrow> MoveCall" where
  "mock_transfer p q n =
     \<lparr>mc_caller = p, mc_module = \<lparr>mod_address = CANONICAL_COIN_ADDRESS, mod_name = Identifier (ascii ''coin'')\<rparr>,
      mc_function = Identifier (ascii ''transfer''), mc_type_arguments = [], mc_arguments = [move_bytes q, to_le_bytes n]\<rparr>"

lemma mock_transfer_writes:
  assumes "wf_move_addr q" "view_coin_value view p = MoveCoinValue v" "view_coin_value view q = MoveCoinValue w" "ucast n \<le> v"
  shows "\<exists>out. fst (MockMoveExecutor_execute (mock_transfer p q n) ms (MoveSessionState_new view)) = Inr out \<and>
    map (\<lambda>x. (rw_addr x, MoveCoinValue_to_u128 (rw_coin_value x))) (resource_writes out) = [(p, v - ucast n), (q, w + ucast n)]"
proof -
  have "from_le_bytes (to_le_bytes n) = n" "length (to_le_bytes n) = 8"
    by (simp_all add: from_to_le_bytes byte_width_def)
  with assms show ?thesis
    by (simp add: MockMoveExecutor_execute_def mock_transfer_def MoveSessionState_new_def wf_move_addr_def
        MoveCoinValue_from_u128_def Let_def not_less)
qed

lemma supply_one_credit:
  assumes "State_invar st" "State_invar st'" "\<And>x. bal st' x = (if x = b then bal st b + n else bal st x)"
    "unat (bal st b) + unat n < 2 ^ 128"
  shows "State_supply st' = State_supply st + unat n"
proof -
  let ?s = "State_apply st (SetBalance b (Balance (bal st b + n)))"
  have "State_supply st' = State_supply ?s" using assms(1-3) by (intro supply_cong) simp_all
  moreover have "unat (bal st b + n) = unat (bal st b) + unat n" using assms(4) by (simp add: unat_word_ariths)
  ultimately show ?thesis using supply_set_balance [OF assms(1), of b "Balance (bal st b + n)"] by simp
qed

text \<open>The balance writes that an executed step makes as a Move call, and balances after a list of writes.\<close>

definition step_writes :: "MoveExecutor \<Rightarrow> InMemoryModuleStore \<Rightarrow> MoveBalanceView \<Rightarrow> BundleStep \<Rightarrow> (Address \<times> u128) list" where
  "step_writes ex ms view s = (case s of
     StepMoveCall call \<Rightarrow> (case fst (ex call ms (MoveSessionState_new view)) of
       Inr out \<Rightarrow> map (\<lambda>w. (move_addr_to_evm (rw_addr w), MoveCoinValue_to_u128 (rw_coin_value w))) (resource_writes out)
     | Inl e \<Rightarrow> [])
   | _ \<Rightarrow> [])"

definition written :: "(Address \<times> u128) list \<Rightarrow> (Address \<Rightarrow> u128) \<Rightarrow> Address \<Rightarrow> u128" where
  "written ws f = fold (\<lambda>(a, v) g. g(a := v)) ws f"

lemma written_simps [simp]:
  "written [] f = f" "written ((a, v) # ws) f = written ws (f(a := v))" "written (xs @ ys) f = written ys (written xs f)"
  by (simp_all add: written_def)

lemma written_cong: "f a = g a \<Longrightarrow> written ws f a = written ws g a"
proof (induction ws arbitrary: f g)
  case (Cons w ws)
  obtain x v where w: "w = (x, v)" by (cases w)
  show ?case unfolding w written_simps by (rule Cons.IH) (simp add: Cons.prems)
qed simp

lemma bal_resource_writes:
  "bal (apply_resource_writes st ws) a =
     written (map (\<lambda>w. (move_addr_to_evm (rw_addr w), MoveCoinValue_to_u128 (rw_coin_value w))) ws) (bal st) a"
proof (induction ws arbitrary: st)
  case (Cons w ws)
  let ?x = "move_addr_to_evm (rw_addr w)" and ?v = "MoveCoinValue_to_u128 (rw_coin_value w)"
  have "bal (apply_resource_writes st (w # ws)) a = bal (apply_resource_writes (State_apply st (SetBalance ?x (Balance ?v))) ws) a"
    by (simp add: apply_resource_writes_def)
  also have "\<dots> = written (map (\<lambda>w. (move_addr_to_evm (rw_addr w), MoveCoinValue_to_u128 (rw_coin_value w))) ws)
      (bal (State_apply st (SetBalance ?x (Balance ?v)))) a" by (rule Cons.IH)
  also have "\<dots> = written (map (\<lambda>w. (move_addr_to_evm (rw_addr w), MoveCoinValue_to_u128 (rw_coin_value w))) ws)
      ((bal st)(?x := ?v)) a" by (rule written_cong) simp
  finally show ?case by simp
qed (simp add: apply_resource_writes_def)

text \<open>Outside the addresses that a step names, it changes a balance only by the writes of its call.\<close>

lemma runtime_step_outside:
  assumes "runtime_step ex ms view s cur q = (res, cur', q')" "a \<notin> step_addrs s"
  shows "bal cur' a = (if res = Inr () then written (step_writes ex ms view s) (bal cur) a else bal cur a)"
proof (cases "has_move_call [s]")
  case True
  then obtain call where "s = StepMoveCall call" by (auto simp: has_move_call_def)
  with assms(1) show ?thesis by (auto simp: step_writes_def bal_resource_writes split: sum.splits)
next
  case False
  then have "step_writes ex ms view s = []" by (cases s) (auto simp: step_writes_def has_move_call_def)
  with runtime_step_frame [OF assms(1) False assms(2)] show ?thesis by simp
qed

lemma runtime_steps_outside:
  assumes "runtime_steps ex view snap idx ss outs cur ms q = (r, st', ms')" "outcome r = Reverted k"
    and "snapshot_of st A snap" "\<Union> (step_addrs ` set ss) \<subseteq> A" "a \<notin> A"
  shows "idx \<le> k \<and> k < idx + length ss \<and>
    bal st' a = written (concat (map (step_writes ex ms view) (take (k - idx) ss))) (bal cur) a"
  using assms(1,4)
proof (induction ss arbitrary: idx outs cur q)
  case Nil
  then show ?case using assms(2) by auto
next
  case (Cons s ss)
  obtain res cur' q' where step: "runtime_step ex ms view s cur q = (res, cur', q')" by (cases "runtime_step ex ms view s cur q")
  have out: "bal cur' a = (if res = Inr () then written (step_writes ex ms view s) (bal cur) a else bal cur a)"
    by (rule runtime_step_outside [OF step]) (use Cons.prems(2) assms(5) in auto)
  show ?case
  proof (cases res)
    case (Inl e)
    with Cons.prems(1) step have "r = \<lparr>step_outcomes = outs @ [Rejected e], outcome = Reverted idx\<rparr>" "st' = restore_snapshot cur' snap"
      by auto
    with out Inl assms(2,5) show ?thesis by (simp add: restore_snapshot_bal [OF assms(3)])
  next
    case (Inr u)
    with Cons.prems(1) step have "runtime_steps ex view snap (Suc idx) ss (outs @ [Committed]) cur' ms q' = (r, st', ms')" by simp
    from Cons.IH [OF this] Cons.prems(2) have IH: "Suc idx \<le> k" "k < Suc idx + length ss"
      "bal st' a = written (concat (map (step_writes ex ms view) (take (k - Suc idx) ss))) (bal cur') a" by auto
    have "take (k - idx) (s # ss) = s # take (k - Suc idx) ss" using IH(1) by (cases "k - idx") (auto simp: Suc_diff_le diff_Suc)
    then have "bal st' a = written (concat (map (step_writes ex ms view) (take (k - idx) (s # ss)))) (bal cur) a"
      using IH(3) out Inr written_cong [of "bal cur'" a "written (step_writes ex ms view s) (bal cur)"] by simp
    with IH(1,2) show ?thesis by simp
  qed
qed

lemma runtime_steps_index:
  "runtime_steps ex view snap idx ss outs cur ms q = (r, st', ms') \<Longrightarrow> outcome r = Reverted k \<Longrightarrow> k < idx + length ss"
proof (induction ss arbitrary: idx outs cur q)
  case (Cons s ss)
  then show ?case by (fastforce split: prod.splits sum.splits)
qed auto

lemma runtime_steps_invar:
  "runtime_steps ex view snap idx ss outs cur ms q = (r, st', ms') \<Longrightarrow> State_invar cur \<Longrightarrow> State_invar st'"
proof (induction ss arbitrary: idx outs cur q)
  case (Cons s ss)
  obtain res cur' q' where step: "runtime_step ex ms view s cur q = (res, cur', q')" by (cases "runtime_step ex ms view s cur q")
  then have "State_invar cur'" using Cons.prems(2) submit_invar [of cur]
    by (cases s) (auto simp: case_prod_unfold Let_def apply_writes_invar split: sum.splits if_splits)
  with Cons.IH Cons.prems(1) step show ?case by (auto simp: restore_snapshot_invar split: sum.splits)
qed auto

text \<open>
  A bundle that was reverted at step \<open>k\<close>, where one Move call before \<open>k\<close> was a coin transfer from \<open>p\<close> to \<open>q\<close> that the
  view covers, no other executed step was a Move call, and no step names \<open>q\<close>.
\<close>

definition leaking_transfer ::
  "State \<Rightarrow> Bundle \<Rightarrow> MoveBalanceView \<Rightarrow> usize \<Rightarrow> MoveAddress \<Rightarrow> MoveAddress \<Rightarrow> u64 \<Rightarrow> bool" where
  "leaking_transfer st b view k p q n \<longleftrightarrow>
     (\<exists>i < k. steps b ! i = StepMoveCall (mock_transfer p q n) \<and> (\<forall>j < k. j \<noteq> i \<longrightarrow> \<not> has_move_call [steps b ! j])) \<and>
     wf_move_addr q \<and> move_addr_to_evm q \<notin> \<Union> (step_addrs ` set (steps b)) \<and>
     (\<exists>v. view_coin_value view p = MoveCoinValue v \<and> ucast n \<le> v) \<and>
     view_coin_value view q = MoveCoinValue (bal st (move_addr_to_evm q)) \<and>
     unat (bal st (move_addr_to_evm q)) + unat (ucast n :: u128) < 2 ^ 128"

lemma concat_only:
  assumes "i < k" "k \<le> length xs" "\<forall>j < k. j \<noteq> i \<longrightarrow> f (xs ! j) = []"
  shows "concat (map f (take k xs)) = f (xs ! i)"
proof -
  have "take k xs = take i xs @ xs ! i # drop (Suc i) (take k xs)" using id_take_nth_drop [of i "take k xs"] assms(1,2) by (simp add: min_def)
  moreover have "concat (map f (take i xs)) = []" using assms by (auto simp: in_set_conv_nth)
  moreover have "concat (map f (drop (Suc i) (take k xs))) = []" using assms by (auto simp: in_set_conv_nth)
  ultimately show ?thesis by (metis append.right_neutral concat.simps(2) concat_append list.simps(9) map_append self_append_conv2)
qed

lemma leaking_transfer_writes:
  assumes "leaking_transfer st b view k p q n" "k < length (steps b)"
  shows "\<exists>v. concat (map (step_writes MockMoveExecutor_execute ms view) (take k (steps b))) =
    [(move_addr_to_evm p, v), (move_addr_to_evm q, bal st (move_addr_to_evm q) + ucast n)]"
    and "move_addr_to_evm p \<in> \<Union> (step_addrs ` set (steps b))"
proof -
  from assms(1) obtain i v where i: "i < k" "steps b ! i = StepMoveCall (mock_transfer p q n)"
    "\<forall>j < k. j \<noteq> i \<longrightarrow> \<not> has_move_call [steps b ! j]"
    and v: "view_coin_value view p = MoveCoinValue v" "ucast n \<le> v" by (auto simp: leaking_transfer_def)
  have quiet: "step_writes ex ms view s = []" if "\<not> has_move_call [s]" for ex s
    using that by (cases s) (auto simp: step_writes_def has_move_call_def)
  have q: "wf_move_addr q" "view_coin_value view q = MoveCoinValue (bal st (move_addr_to_evm q))"
    using assms(1) by (auto simp: leaking_transfer_def)
  from mock_transfer_writes [OF q(1) v(1) q(2) v(2), of ms]
  have "step_writes MockMoveExecutor_execute ms view (steps b ! i) =
      [(move_addr_to_evm p, v - ucast n), (move_addr_to_evm q, bal st (move_addr_to_evm q) + ucast n)]"
    by (auto simp: step_writes_def i(2) map_eq_Cons_conv)
  moreover have "concat (map (step_writes MockMoveExecutor_execute ms view) (take k (steps b))) =
      step_writes MockMoveExecutor_execute ms view (steps b ! i)"
    using i assms(2) by (intro concat_only) (auto intro: quiet)
  ultimately show "\<exists>v. concat (map (step_writes MockMoveExecutor_execute ms view) (take k (steps b))) =
      [(move_addr_to_evm p, v), (move_addr_to_evm q, bal st (move_addr_to_evm q) + ucast n)]" by simp
  have "steps b ! i \<in> set (steps b)" using i(1) assms(2) by simp
  then show "move_addr_to_evm p \<in> \<Union> (step_addrs ` set (steps b))" using i(2) by (force simp: mock_transfer_def)
qed

lemma revert_outside:
  assumes "BundleExecutor_execute_with_move_runtime st b ex ms view = (r, st', ms')" "outcome r = Reverted k"
  shows "k < length (steps b)" "ms' = ms" "State_invar st \<Longrightarrow> State_invar st'"
    "bal st' a = (if a \<in> \<Union> (step_addrs ` set (steps b)) then bal st a
       else written (concat (map (step_writes ex ms view) (take k (steps b)))) (bal st) a)"
proof -
  from assms have run: "runtime_steps ex view (collect_snapshot st b) 0 (steps b) [] st ms [] = (r, st', ms')"
    by (auto simp: BundleExecutor_execute_with_move_runtime_def Bundle_is_empty_def split: if_splits)
  note named = runtime_steps_reverted [OF run assms(2) collect_snapshot_of subset_refl, of True]
  note outside = runtime_steps_outside [OF run assms(2) collect_snapshot_of subset_refl]
  show "k < length (steps b)" using runtime_steps_index [OF run assms(2)] by simp
  show "State_invar st'" if "State_invar st" by (rule runtime_steps_invar [OF run that])
  show "ms' = ms" using named by simp
  show "bal st' a = (if a \<in> \<Union> (step_addrs ` set (steps b)) then bal st a
       else written (concat (map (step_writes ex ms view) (take k (steps b)))) (bal st) a)"
    using named [of a] outside [of a] by simp
qed

text \<open>
  C36: with a Move runtime a revert does not undo the writes of Move calls. For every bundle and every Move
  executor: when the bundle is reverted at step \<open>k\<close>, the module store is untouched, every address that some step
  names (sender, recipient, caller, deploying account) has its old balance, and every other address has the
  last value that a Move call before step \<open>k\<close> wrote to it, or its old balance if none did. In particular, with
  the mock executor, if exactly one of the steps before \<open>k\<close> is a Move call, that call is a coin transfer covered
  by the view, and its recipient is named by no step of the bundle, then the recipient keeps the amount, every
  other balance is as before the bundle, and the total supply has grown by the amount.
\<close>

theorem move_call_revert_leaks:
  assumes "BundleExecutor_execute_with_move_runtime st b ex ms view = (r, st', ms')" "outcome r = Reverted k"
  shows "k < length (steps b) \<and> ms' = ms \<and>
    (\<forall>a. bal st' a = (if a \<in> \<Union> (step_addrs ` set (steps b)) then bal st a
       else written (concat (map (step_writes ex ms view) (take k (steps b)))) (bal st) a)) \<and>
    (State_invar st \<and> ex = MockMoveExecutor_execute \<and> leaking_transfer st b view k p q n \<longrightarrow>
       (\<forall>a. bal st' a = (if a = move_addr_to_evm q then bal st a + ucast n else bal st a)) \<and>
       State_supply st' = State_supply st + unat (ucast n :: u128))"
proof -
  note rev = revert_outside [OF assms]
  have "(\<forall>a. bal st' a = (if a = move_addr_to_evm q then bal st a + ucast n else bal st a)) \<and>
      State_supply st' = State_supply st + unat (ucast n :: u128)"
    if inv: "State_invar st" and mock: "ex = MockMoveExecutor_execute" and leak: "leaking_transfer st b view k p q n"
  proof -
    note ws = leaking_transfer_writes [OF leak rev(1)]
    from ws(1) [of ms] obtain v where v: "concat (map (step_writes ex ms view) (take k (steps b))) =
      [(move_addr_to_evm p, v), (move_addr_to_evm q, bal st (move_addr_to_evm q) + ucast n)]" using mock by blast
    have q: "move_addr_to_evm q \<notin> \<Union> (step_addrs ` set (steps b))"
      "unat (bal st (move_addr_to_evm q)) + unat (ucast n :: u128) < 2 ^ 128" using leak by (auto simp: leaking_transfer_def)
    have new: "bal st' a = (if a = move_addr_to_evm q then bal st (move_addr_to_evm q) + ucast n else bal st a)" for a
      using rev(4) [of a] ws(2) q(1) unfolding v by auto
    from supply_one_credit [OF inv rev(3) [OF inv] new q(2)] new show ?thesis by simp
  qed
  with rev(1,2,4) show ?thesis by blast
qed

lemma move_of_addr: "move_addr_to_evm (MoveAddress_from_evm a) = a" "wf_move_addr (MoveAddress_from_evm a)" if "wf_addr a"
  using that by (simp_all add: move_addr_to_evm_def MoveAddress_from_evm_def wf_move_addr_def wf_addr_def)

text \<open>A transfer, a coin transfer by a Move call to an account named nowhere, and a step that fails.\<close>

theorem move_call_revert_leaks_witness:
  "\<exists>r st' ms'. run_mock [evm_step 1 3 2, coin_transfer 1 2 5, evm_step 4 1 1] = (r, st', ms') \<and> outcome r = Reverted 2 \<and>
     bal st' (addr_of 1) = 10 \<and> bal st' (addr_of 2) = 5 \<and> bal st' (addr_of 3) = 0 \<and> State_supply st' = State_supply funded + 5"
proof -
  let ?ss = "[evm_step 1 3 2, coin_transfer 1 2 5, evm_step 4 1 1]"
  let ?p = "MoveAddress_from_evm (addr_of 1)" and ?q = "MoveAddress_from_evm (addr_of 2)"
  have step: "coin_transfer 1 2 5 = StepMoveCall (mock_transfer ?p ?q 5)" by (simp add: coin_transfer_def mock_transfer_def)
  have bals: "bal funded (addr_of 1) = 10" "bal funded (addr_of 2) = 0" "bal funded (addr_of 3) = 0" by (simp_all add: funded_def)
  have inv: "State_invar funded" by (simp add: funded_def)
  have evm: "MoveAddress_to_evm (MoveAddress_from_evm (addr_of k)) = addr_of k" for k
    using move_of_addr(1) [of "addr_of k"] by (simp add: MoveAddress_to_evm_def move_addr_to_evm_def)
  have "outcome (fst (run_mock ?ss)) = Reverted 2" by code_simp
  then obtain r st' ms' where run: "run_mock ?ss = (r, st', ms')" "outcome r = Reverted 2" by (cases "run_mock ?ss") auto
  have one: "\<exists>i < 2. ?ss ! i = StepMoveCall (mock_transfer ?p ?q 5) \<and> (\<forall>j < 2. j \<noteq> i \<longrightarrow> \<not> has_move_call [?ss ! j])"
    by (rule exI [of _ 1]) (simp add: step evm_step_def has_move_call_def less_2_cases_iff)
  have "addr_of 2 \<notin> \<Union> (step_addrs ` set ?ss)"
    by (simp add: step evm_step_def mock_transfer_def move_of_addr(1))
  with one bals have "leaking_transfer funded \<lparr>steps = ?ss\<rparr> funded_view 2 ?p ?q 5"
    unfolding leaking_transfer_def by (simp add: funded_view_def evm move_of_addr)
  with inv have "State_invar funded \<and> MockMoveExecutor_execute = MockMoveExecutor_execute \<and>
      leaking_transfer funded \<lparr>steps = ?ss\<rparr> funded_view 2 ?p ?q 5" by simp
  note leaks = move_call_revert_leaks [OF run(1) [unfolded run_mock_def] run(2), THEN conjunct2, THEN conjunct2, THEN conjunct2, THEN mp, OF this]
  then have "bal st' a = (if a = addr_of 2 then bal funded a + 5 else bal funded a)" "State_supply st' = State_supply funded + 5" for a
    by (simp_all add: move_of_addr(1))
  with run bals show ?thesis by simp
qed

text \<open>
  A coin transfer to oneself through the mock Move executor creates money: the two resource
  writes name the same address and the credit, computed from the balance before the debit, wins.
\<close>

theorem move_self_transfer_mints:
  "let (r, st', ms) = run_mock [coin_transfer 1 1 5] in
   BundleResult_is_committed r \<and> bal funded (addr_of 1) = 10 \<and> bal st' (addr_of 1) = 15"
  by code_simp

end
