(* ===== verification/Occ.thy ===== *)
theory Occ
  imports Mv_Store Bundle State_Tree
begin

text \<open>
  The parallel block executor of \<open>suwappudb-bridge/src/occ/block_executor.rs\<close>. The speculative
  execution of an intent is a program over the atomic operations of the multi-version store
  (\<open>occ_prog\<close>); a parallel pass interleaves the programs of all pending transactions under an arbitrary
  schedule, given as the list of the workers that move, one operation at a time. A schedule that
  stops early is completed by running the remaining operations in order, so that every list of
  workers is a schedule and every complete interleaving is the run of some list. The loop's
  \<open>assert!\<close> on the number of iterations is the result \<open>None\<close>.
\<close>

section \<open>Programs of one transaction\<close>

datatype occ_prog =
    Done Txn
  | ReadOp Address "BalanceSlot \<times> ReadSource \<Rightarrow> occ_prog"
  | WriteOp Address BalanceSlot occ_prog
  | ClearOp occ_prog

definition mk_txn :: "TxnIdx \<Rightarrow> ReadEntry list \<Rightarrow> WriteEntry list \<Rightarrow> RejectReason option \<Rightarrow> Txn" where
  "mk_txn idx rs ws rej = \<lparr>txn_idx = idx, read_set = rs, write_set = ws, rejected = rej\<rparr>"

definition mk_read :: "Address \<Rightarrow> ReadSource \<Rightarrow> ReadEntry" where
  "mk_read a src = \<lparr>re_addr = a, re_source = src\<rparr>"

definition mk_write :: "Address \<Rightarrow> BalanceSlot \<Rightarrow> WriteEntry" where
  "mk_write a slot = \<lparr>we_addr = a, we_value = slot\<rparr>"

definition execute_transfer_into :: "Address \<Rightarrow> Address \<Rightarrow> u128 \<Rightarrow> TxnIdx \<Rightarrow> occ_prog" where
  "execute_transfer_into from to_addr amount idx =
     ReadOp from (\<lambda>(from_slot, from_src). ReadOp to_addr (\<lambda>(to_slot, to_src).
       let reads = [mk_read from from_src, mk_read to_addr to_src];
           from_balance = canonical from_slot;
           to_balance = canonical to_slot
       in if from_balance < amount then Done (mk_txn idx reads [] (Some InsufficientBalance))
          else case checked_add to_balance amount of
            None \<Rightarrow> Done (mk_txn idx reads [] (Some AmountOverflow))
          | Some new_to \<Rightarrow>
              let new_from = from_balance - amount in
              if from = to_addr then
                let v = BalanceSlot_new from_balance
                in WriteOp from v (Done (mk_txn idx reads [mk_write from v] None))
              else
                let nf = BalanceSlot_new new_from; nt = BalanceSlot_new new_to
                in WriteOp from nf (WriteOp to_addr nt
                     (Done (mk_txn idx reads [mk_write from nf, mk_write to_addr nt] None)))))"

text \<open>
  The local accumulator of a bundle is consulted first; only reads that reach the store are logged.
\<close>

definition local_or_mv ::
  "Address \<Rightarrow> (Address, BalanceSlot) hash_map \<Rightarrow> ReadEntry list \<Rightarrow>
   (BalanceSlot \<Rightarrow> ReadEntry list \<Rightarrow> occ_prog) \<Rightarrow> occ_prog" where
  "local_or_mv addr loc reads k =
     (case map_get loc addr of
        Some slot \<Rightarrow> k slot reads
      | None \<Rightarrow> ReadOp addr (\<lambda>(slot, src). k slot (reads @ [mk_read addr src])))"

fun step_transfer :: "BundleStep \<Rightarrow> (Address \<times> Address \<times> u128) option" where
  "step_transfer (Evm tx) = Some (etx_from tx, etx_to tx, etx_value tx)"
| "step_transfer (Move tx) = Some (mtx_signer tx, mtx_recipient tx, mtx_amount tx)"
| "step_transfer (StepMoveCall _) = None"
| "step_transfer (StepDeployModule _ _ _) = None"

fun publish ::
  "TxnIdx \<Rightarrow> ReadEntry list \<Rightarrow> (Address \<times> BalanceSlot) list \<Rightarrow> WriteEntry list \<Rightarrow> occ_prog" where
  "publish idx reads [] ws = Done (mk_txn idx reads ws None)"
| "publish idx reads ((addr, slot) # rest) ws =
     WriteOp addr slot (publish idx reads rest (ws @ [mk_write addr slot]))"

fun call_steps ::
  "TxnIdx \<Rightarrow> BundleStep list \<Rightarrow> ReadEntry list \<Rightarrow> (Address, BalanceSlot) hash_map \<Rightarrow> occ_prog" where
  "call_steps idx [] reads loc = publish idx reads loc []"
| "call_steps idx (step # rest) reads loc =
     (case step_transfer step of
        None \<Rightarrow> call_steps idx rest reads loc
      | Some (from, to_addr, amount) \<Rightarrow>
          local_or_mv from loc reads (\<lambda>from_slot reads1.
          local_or_mv to_addr loc reads1 (\<lambda>to_slot reads2.
            let from_balance = canonical from_slot; to_balance = canonical to_slot in
            if from_balance < amount
            then ClearOp (Done (mk_txn idx reads2 [] (Some InsufficientBalance)))
            else case checked_add to_balance amount of
              None \<Rightarrow> ClearOp (Done (mk_txn idx reads2 [] (Some AmountOverflow)))
            | Some new_to \<Rightarrow>
                if from = to_addr
                then call_steps idx rest reads2 (hm_insert from (BalanceSlot_new from_balance) loc)
                else call_steps idx rest reads2
                  (hm_insert to_addr (BalanceSlot_new new_to)
                    (hm_insert from (BalanceSlot_new (from_balance - amount)) loc)))))"

definition execute_call ::
  "Address \<Rightarrow> Address \<Rightarrow> u128 \<Rightarrow> bytes \<Rightarrow> TxnIdx \<Rightarrow> State \<Rightarrow> ContractRegistry \<Rightarrow> occ_prog" where
  "execute_call caller target value calldata idx st registry =
     (case ContractRegistry_get registry target of
        None \<Rightarrow> execute_transfer_into caller target value idx
      | Some generator \<Rightarrow>
          let bundle = generator \<lparr>ctx_caller = caller, ctx_target = target, ctx_value = value,
                                  ctx_calldata = calldata, ctx_state = st, ctx_depth = 0\<rparr>
          in call_steps idx (steps bundle) [] [])"

fun execute_one :: "Intent \<Rightarrow> TxnIdx \<Rightarrow> State \<Rightarrow> ContractRegistry \<Rightarrow> occ_prog" where
  "execute_one (Call caller target value calldata) idx st registry =
     execute_call caller target value calldata idx st registry"
| "execute_one (DeployModule _ _ _) idx st registry = Done (mk_txn idx [] [] None)"
| "execute_one (Transfer from to_addr amount) idx st registry =
     ReadOp from (\<lambda>(from_slot, from_src). ReadOp to_addr (\<lambda>(to_slot, to_src).
       let reads = [mk_read from from_src, mk_read to_addr to_src];
           from_balance = canonical from_slot;
           to_balance = canonical to_slot
       in if from_balance < amount then Done (mk_txn idx reads [] (Some InsufficientBalance))
          else case checked_add to_balance amount of
            None \<Rightarrow> Done (mk_txn idx reads [] (Some AmountOverflow))
          | Some new_to \<Rightarrow>
              let new_from = from_balance - amount in
              if from = to_addr then
                let new_value = BalanceSlot_new from_balance
                in WriteOp from new_value (Done (mk_txn idx reads [mk_write from new_value] None))
              else
                let new_from_slot = BalanceSlot_new new_from; new_to_slot = BalanceSlot_new new_to
                in WriteOp from new_from_slot (WriteOp to_addr new_to_slot
                     (Done (mk_txn idx reads
                        [mk_write from new_from_slot, mk_write to_addr new_to_slot] None)))))"

section \<open>A parallel pass\<close>

fun prog_step :: "State \<Rightarrow> TxnIdx \<Rightarrow> occ_prog \<Rightarrow> MvStore \<Rightarrow> occ_prog \<times> MvStore" where
  "prog_step st idx (Done t) mv = (Done t, mv)"
| "prog_step st idx (ReadOp a k) mv = (k (MvStore_read mv st a idx), mv)"
| "prog_step st idx (WriteOp a slot p) mv = (p, MvStore_write mv a slot idx)"
| "prog_step st idx (ClearOp p) mv = (p, MvStore_clear_writes mv idx)"

type_synonym workers = "(TxnIdx \<times> occ_prog) list"

definition step_worker :: "State \<Rightarrow> nat \<Rightarrow> workers \<times> MvStore \<Rightarrow> workers \<times> MvStore" where
  "step_worker st k cfg =
     (let (ws, mv) = cfg in
      if k < length ws
      then let (idx, p) = ws ! k; (p', mv') = prog_step st idx p mv in (ws[k := (idx, p')], mv')
      else (ws, mv))"

primrec run_alone :: "State \<Rightarrow> TxnIdx \<Rightarrow> occ_prog \<Rightarrow> MvStore \<Rightarrow> Txn \<times> MvStore" where
  "run_alone st idx (Done t) mv = (t, mv)"
| "run_alone st idx (ReadOp a k) mv = run_alone st idx (k (MvStore_read mv st a idx)) mv"
| "run_alone st idx (WriteOp a slot p) mv = run_alone st idx p (MvStore_write mv a slot idx)"
| "run_alone st idx (ClearOp p) mv = run_alone st idx p (MvStore_clear_writes mv idx)"

fun drain :: "State \<Rightarrow> workers \<Rightarrow> MvStore \<Rightarrow> (TxnIdx \<times> Txn) list \<times> MvStore" where
  "drain st [] mv = ([], mv)"
| "drain st ((idx, p) # ws) mv =
     (let (t, mv1) = run_alone st idx p mv; (runs, mv2) = drain st ws mv1 in ((idx, t) # runs, mv2))"

definition parallel_pass ::
  "State \<Rightarrow> Intent list \<Rightarrow> ContractRegistry \<Rightarrow> nat list \<Rightarrow> TxnIdx list \<Rightarrow> MvStore \<Rightarrow>
   (TxnIdx \<times> Txn) list \<times> MvStore" where
  "parallel_pass st block registry sched pending mv =
     (let ws = map (\<lambda>idx. (idx, execute_one (block ! idx) idx st registry)) pending;
          (ws', mv') = fold (step_worker st) sched (ws, mv)
      in drain st ws' mv')"

section \<open>Validation and the block loop\<close>

definition COLLAPSE_THRESHOLD_NUM :: usize where
  "COLLAPSE_THRESHOLD_NUM = 1"

definition COLLAPSE_THRESHOLD_DEN :: usize where
  "COLLAPSE_THRESHOLD_DEN = 4"

definition tally_writes :: "Txn \<Rightarrow> (Address, usize) btree_map \<Rightarrow> (Address, usize) btree_map" where
  "tally_writes txn tally =
     fold (\<lambda>w t. bt_insert (we_addr w) ((case map_get t (we_addr w) of Some c \<Rightarrow> c | None \<Rightarrow> 0) + 1) t)
       (write_set txn) tally"

record Validation =
  val_mv :: MvStore
  next_pending :: "TxnIdx list"
  val_aborts :: usize
  aborts_by_addr :: "(Address, usize) btree_map"

definition validate_one :: "TxnIdx \<times> Txn \<Rightarrow> Validation \<Rightarrow> Validation" where
  "validate_one e v =
     (let (idx, txn) = e in
      if Validator_is_valid txn (val_mv v) then v
      else \<lparr>val_mv = MvStore_clear_writes (val_mv v) idx,
            next_pending = next_pending v @ [idx],
            val_aborts = val_aborts v + 1,
            aborts_by_addr = tally_writes txn (aborts_by_addr v)\<rparr>)"

definition validation_pass :: "Txn list \<Rightarrow> MvStore \<Rightarrow> usize \<Rightarrow> Validation" where
  "validation_pass txns mv aborts =
     fold validate_one (enumerate 0 txns)
       \<lparr>val_mv = mv, next_pending = [], val_aborts = aborts, aborts_by_addr = []\<rparr>"

definition hot_addr :: "usize \<Rightarrow> (Address, usize) btree_map \<Rightarrow> Address option" where
  "hot_addr prev_pending_count tally =
     map_option fst (find (\<lambda>(addr, count).
       count * COLLAPSE_THRESHOLD_DEN \<ge> prev_pending_count * COLLAPSE_THRESHOLD_NUM \<and> count \<ge> 2) tally)"

record LoopState =
  lp_mv :: MvStore
  lp_txns :: "Txn list"
  lp_pending :: "TxnIdx list"
  lp_iterations :: usize
  lp_aborts :: usize
  lp_collapsed :: "Address option"

definition loop_init :: "usize \<Rightarrow> LoopState" where
  "loop_init n = \<lparr>lp_mv = MvStore_new, lp_txns = map Txn_default [0..<n], lp_pending = [0..<n],
                  lp_iterations = 0, lp_aborts = 0, lp_collapsed = None\<rparr>"

text \<open>One iteration up to the breaker: parallel pass, validation pass, hot-slot detection.\<close>

definition loop_body ::
  "State \<Rightarrow> Intent list \<Rightarrow> ContractRegistry \<Rightarrow> (nat \<Rightarrow> nat list) \<Rightarrow> LoopState \<Rightarrow> LoopState" where
  "loop_body st block registry sched ls =
     (let it = lp_iterations ls + 1;
          (runs, mv1) = parallel_pass st block registry (sched it) (lp_pending ls) (lp_mv ls);
          txns = fold (\<lambda>(idx, txn) ts. ts[idx := txn]) runs (lp_txns ls);
          v = validation_pass txns mv1 (lp_aborts ls);
          prev_pending_count = length (lp_pending ls);
          collapsed = (if lp_collapsed ls = None \<and> prev_pending_count > 0
                       then hot_addr prev_pending_count (aborts_by_addr v) else lp_collapsed ls)
      in \<lparr>lp_mv = val_mv v, lp_txns = txns, lp_pending = next_pending v, lp_iterations = it,
          lp_aborts = val_aborts v, lp_collapsed = collapsed\<rparr>)"

text \<open>The circuit breaker: clear every index, then run the whole block in order.\<close>

definition sequential_rerun ::
  "State \<Rightarrow> Intent list \<Rightarrow> ContractRegistry \<Rightarrow> LoopState \<Rightarrow> LoopState" where
  "sequential_rerun st block registry ls =
     (let n = length block;
          mv = fold (\<lambda>idx mv. MvStore_clear_writes mv idx) [0..<n] (lp_mv ls);
          (mv', txns) = fold (\<lambda>idx (mv, txns).
             let (txn, mv1) = run_alone st idx (execute_one (block ! idx) idx st registry) mv
             in (mv1, txns[idx := txn])) [0..<n] (mv, lp_txns ls)
      in ls\<lparr>lp_mv := mv', lp_txns := txns\<rparr>)"

text \<open>The loop; the fuel is the number of iterations left before the assertion fails.\<close>

fun occ_loop ::
  "State \<Rightarrow> Intent list \<Rightarrow> ContractRegistry \<Rightarrow> (nat \<Rightarrow> nat list) \<Rightarrow> nat \<Rightarrow> LoopState \<Rightarrow> LoopState option" where
  "occ_loop st block registry sched 0 ls = (if lp_pending ls = [] then Some ls else None)"
| "occ_loop st block registry sched (Suc fuel) ls =
     (if lp_pending ls = [] then Some ls
      else let ls1 = loop_body st block registry sched ls in
           if lp_collapsed ls1 \<noteq> None then Some (sequential_rerun st block registry ls1)
           else occ_loop st block registry sched fuel ls1)"

section \<open>Block execution\<close>

record BlockReport =
  outcomes :: "TxOutcome list"
  iterations :: usize
  aborts :: usize
  state_root :: Commitment
  collapsed_to_sequential :: "Address option"

definition txn_outcome :: "Txn \<Rightarrow> TxOutcome" where
  "txn_outcome t = (case rejected t of None \<Rightarrow> Committed | Some reason \<Rightarrow> Rejected reason)"

definition consolidate :: "State \<Rightarrow> (Address \<times> BalanceSlot) list \<Rightarrow> State" where
  "consolidate st ws = fold (\<lambda>(addr, slot) s. State_apply s (SetBalance addr (Balance (canonical slot)))) ws st"

definition BlockExecutor_execute_with_registry ::
  "(bytes \<Rightarrow> bytes) \<Rightarrow> (nat \<Rightarrow> nat list) \<Rightarrow> State \<Rightarrow> Intent list \<Rightarrow> ContractRegistry \<Rightarrow> (BlockReport \<times> State) option" where
  "BlockExecutor_execute_with_registry H sched st block registry =
     (let n = length block in
      if n = 0 then
        Some (\<lparr>outcomes = [], iterations = 0, aborts = 0,
               state_root = StateTree_root H (StateTree_from_state st), collapsed_to_sequential = None\<rparr>, st)
      else
        let cap = 2 * n + 4 in
        case occ_loop st block registry sched cap (loop_init n) of
          None \<Rightarrow> None
        | Some ls \<Rightarrow>
            let st' = consolidate st (MvStore_finalise (lp_mv ls)) in
            Some (\<lparr>outcomes = map txn_outcome (lp_txns ls), iterations = lp_iterations ls,
                   aborts = lp_aborts ls, state_root = StateTree_root H (StateTree_from_state st'),
                   collapsed_to_sequential = lp_collapsed ls\<rparr>, st'))"

definition BlockExecutor_execute ::
  "(bytes \<Rightarrow> bytes) \<Rightarrow> (nat \<Rightarrow> nat list) \<Rightarrow> State \<Rightarrow> Intent list \<Rightarrow> (BlockReport \<times> State) option" where
  "BlockExecutor_execute H sched st block =
     BlockExecutor_execute_with_registry H sched st block ContractRegistry_new"

end
