(* ===== verification/Occ_Pass.thy ===== *)
theory Occ_Pass
  imports Occ
begin

text \<open>
  One parallel pass of the block executor of \<open>suwappudb-bridge/src/occ/block_executor.rs\<close>: what the
  program of a transaction does under a fixed view of the store, the interleaving of the programs as
  the step relation \<open>pass_step\<close>, and its invariant, by rule induction: whatever the schedule, the
  record a worker leaves behind is the result of its program on the values it observed, and what it
  observed is still in the store.
\<close>

section \<open>One program under a fixed view\<close>

type_synonym view = "Address \<Rightarrow> BalanceSlot \<times> ReadSource"
type_synonym table = "Address \<Rightarrow> TxnIdx \<Rightarrow> BalanceSlot option"

primrec run_view :: "view \<Rightarrow> occ_prog \<Rightarrow> Txn" where
  "run_view V (Done t) = t"
| "run_view V (ReadOp a k) = run_view V (k (V a))"
| "run_view V (WriteOp a s p) = run_view V p"
| "run_view V (ClearOp p) = run_view V p"

primrec run_writes :: "view \<Rightarrow> occ_prog \<Rightarrow> (Address \<Rightarrow> BalanceSlot option) \<Rightarrow> (Address \<Rightarrow> BalanceSlot option)" where
  "run_writes V (Done t) w = w"
| "run_writes V (ReadOp a k) w = run_writes V (k (V a)) w"
| "run_writes V (WriteOp a s p) w = run_writes V p (w(a \<mapsto> s))"
| "run_writes V (ClearOp p) w = run_writes V p Map.empty"

definition write_map :: "WriteEntry list \<Rightarrow> Address \<Rightarrow> BalanceSlot option" where
  "write_map ws = map_of (map (\<lambda>w. (we_addr w, we_value w)) ws)"

text \<open>
  What the programs of the executor guarantee: the final read set is the log of the reads in order,
  the final write set is what was written, no address is written twice, and a clear finds nothing.
\<close>

primrec prog_ok :: "TxnIdx \<Rightarrow> occ_prog \<Rightarrow> ReadEntry list \<Rightarrow> (Address \<Rightarrow> BalanceSlot option) \<Rightarrow> bool" where
  "prog_ok i (Done t) reads w \<longleftrightarrow> txn_idx t = i \<and> read_set t = reads \<and> write_map (write_set t) = w"
| "prog_ok i (ReadOp a k) reads w \<longleftrightarrow> (\<forall>r. prog_ok i (k r) (reads @ [mk_read a (snd r)]) w)"
| "prog_ok i (WriteOp a s p) reads w \<longleftrightarrow> w a = None \<and> prog_ok i p reads (w(a \<mapsto> s))"
| "prog_ok i (ClearOp p) reads w \<longleftrightarrow> w = Map.empty \<and> prog_ok i p reads Map.empty"

lemma write_map_Nil [simp]: "write_map [] = Map.empty"
  by (simp add: write_map_def)

lemma write_map_snoc: "write_map ws a = None \<Longrightarrow> write_map (ws @ [mk_write a s]) = (write_map ws)(a \<mapsto> s)"
  by (auto simp: write_map_def mk_write_def fun_eq_iff map_add_def split: option.splits)

lemma write_map_Cons: "write_map (mk_write a s # ws) = (write_map ws)(a \<mapsto> s)"
  by (simp add: write_map_def mk_write_def)

lemma mk_txn_simps [simp]:
  "txn_idx (mk_txn i rs ws rej) = i" "read_set (mk_txn i rs ws rej) = rs"
  "write_set (mk_txn i rs ws rej) = ws" "rejected (mk_txn i rs ws rej) = rej"
  by (simp_all add: mk_txn_def)

lemma prog_ok_transfer: "prog_ok i (execute_transfer_into a b n i) [] Map.empty"
  by (auto simp: execute_transfer_into_def Let_def write_map_Cons fun_upd_twist split: option.splits prod.splits)

lemma prog_ok_publish:
  assumes "distinct (map fst rest)" "\<And>a. a \<in> fst ` set rest \<Longrightarrow> write_map ws a = None"
  shows "prog_ok i (publish i reads rest ws) reads (write_map ws)"
  using assms
proof (induction i reads rest ws rule: publish.induct)
  case (1 idx reads ws)
  then show ?case by simp
next
  case (2 idx reads addr slot rest ws)
  have step: "write_map (ws @ [mk_write addr slot]) = (write_map ws)(addr \<mapsto> slot)"
    using "2.prems"(2) by (simp add: write_map_snoc)
  have "prog_ok idx (publish idx reads rest (ws @ [mk_write addr slot])) reads (write_map (ws @ [mk_write addr slot]))"
    by (rule "2.IH") (use "2.prems" step in auto)
  then show ?case using "2.prems"(2) [of addr] by (simp add: step)
qed

lemma prog_ok_local_or_mv:
  "(\<And>slot reads'. prog_ok i (k slot reads') reads' w) \<Longrightarrow> prog_ok i (local_or_mv a loc reads k) reads w"
  by (auto simp: local_or_mv_def split: option.splits prod.splits)

lemma prog_ok_call_steps: "hm_invar loc \<Longrightarrow> prog_ok i (call_steps i ss reads loc) reads Map.empty"
proof (induction ss arbitrary: reads loc)
  case Nil
  then show ?case using prog_ok_publish [of loc "[]" i reads] by (simp add: hm_invar_distinct)
next
  case (Cons s ss)
  show ?case
  proof (cases "step_transfer s")
    case None
    with Cons show ?thesis by simp
  next
    case (Some t)
    obtain a b n where "t = (a, b, n)" by (cases t)
    with Some Cons show ?thesis
      by (auto intro!: prog_ok_local_or_mv simp: Let_def split: option.splits)
  qed
qed

lemma execute_one_transfer: "execute_one (Transfer a b n) i st reg = execute_transfer_into a b n i"
  by (simp add: execute_transfer_into_def)

declare execute_one.simps(3) [simp del]
declare execute_one_transfer [simp]

lemma prog_ok_execute_one: "prog_ok i (execute_one intent i st reg) [] Map.empty"
  by (cases intent) (auto simp: execute_call_def Let_def prog_ok_transfer prog_ok_call_steps split: option.splits)

section \<open>A parallel pass\<close>

inductive pass_step :: "State \<Rightarrow> workers \<times> MvStore \<Rightarrow> workers \<times> MvStore \<Rightarrow> bool" for st where
  move: "k < length ws \<Longrightarrow> ws ! k = (idx, p) \<Longrightarrow> prog_step st idx p mv = (p', mv') \<Longrightarrow>
         pass_step st (ws, mv) (ws[k := (idx, p')], mv')"

inductive_cases pass_stepE: "pass_step st cfg cfg'"

lemma step_worker_steps: "(pass_step st)\<^sup>*\<^sup>* cfg (step_worker st k cfg)"
proof -
  obtain ws mv where cfg: "cfg = (ws, mv)" by (cases cfg)
  show ?thesis
  proof (cases "k < length ws")
    case True
    obtain idx p where w: "ws ! k = (idx, p)" by (cases "ws ! k")
    obtain p' mv' where s: "prog_step st idx p mv = (p', mv')" by (cases "prog_step st idx p mv")
    from pass_step.move [OF True w s] True w s show ?thesis
      by (simp add: cfg step_worker_def r_into_rtranclp)
  qed (simp add: cfg step_worker_def)
qed

lemma schedule_steps: "(pass_step st)\<^sup>*\<^sup>* cfg (fold (step_worker st) sched cfg)"
proof (induction sched arbitrary: cfg)
  case (Cons k sched)
  from step_worker_steps [of st cfg k] Cons show ?case by (simp add: rtranclp_trans)
qed simp

lemma run_alone_steps:
  assumes "run_alone st i p mv = (t, mv')"
  shows "(pass_step st)\<^sup>*\<^sup>* (pre @ (i, p) # post, mv) (pre @ (i, Done t) # post, mv')"
  using assms
proof (induction p arbitrary: mv)
  case (Done x)
  then show ?case by simp
next
  case (ReadOp a k)
  have "pass_step st (pre @ (i, ReadOp a k) # post, mv) (pre @ (i, k (MvStore_read mv st a i)) # post, mv)"
    using pass_step.move [of "length pre" "pre @ (i, ReadOp a k) # post" i "ReadOp a k" st mv] by simp
  moreover from ReadOp have "(pass_step st)\<^sup>*\<^sup>* (pre @ (i, k (MvStore_read mv st a i)) # post, mv) (pre @ (i, Done t) # post, mv')"
    by simp
  ultimately show ?case by (rule converse_rtranclp_into_rtranclp)
next
  case (WriteOp a s p)
  have "pass_step st (pre @ (i, WriteOp a s p) # post, mv) (pre @ (i, p) # post, MvStore_write mv a s i)"
    using pass_step.move [of "length pre" "pre @ (i, WriteOp a s p) # post" i "WriteOp a s p" st mv] by simp
  moreover from WriteOp have "(pass_step st)\<^sup>*\<^sup>* (pre @ (i, p) # post, MvStore_write mv a s i) (pre @ (i, Done t) # post, mv')"
    by simp
  ultimately show ?case by (rule converse_rtranclp_into_rtranclp)
next
  case (ClearOp p)
  have "pass_step st (pre @ (i, ClearOp p) # post, mv) (pre @ (i, p) # post, MvStore_clear_writes mv i)"
    using pass_step.move [of "length pre" "pre @ (i, ClearOp p) # post" i "ClearOp p" st mv] by simp
  moreover from ClearOp have "(pass_step st)\<^sup>*\<^sup>* (pre @ (i, p) # post, MvStore_clear_writes mv i) (pre @ (i, Done t) # post, mv')"
    by simp
  ultimately show ?case by (rule converse_rtranclp_into_rtranclp)
qed

definition done_workers :: "(TxnIdx \<times> Txn) list \<Rightarrow> workers" where
  "done_workers runs = map (\<lambda>(i, t). (i, Done t)) runs"

lemma drain_steps:
  "drain st ws mv = (runs, mv') \<Longrightarrow> (pass_step st)\<^sup>*\<^sup>* (pre @ ws, mv) (pre @ done_workers runs, mv')"
proof (induction st ws mv arbitrary: runs mv' pre rule: drain.induct)
  case (1 st mv)
  then show ?case by (simp add: done_workers_def)
next
  case (2 st idx p ws mv)
  obtain t mv1 where one: "run_alone st idx p mv = (t, mv1)" by (cases "run_alone st idx p mv")
  obtain runs2 mv2 where rest: "drain st ws mv1 = (runs2, mv2)" by (cases "drain st ws mv1")
  from "2.prems" one rest have eq: "runs = (idx, t) # runs2" "mv' = mv2" by auto
  from run_alone_steps [OF one, of pre ws] "2.IH" [OF one [symmetric] refl rest, of "pre @ [(idx, Done t)]"]
  show ?case by (simp add: eq done_workers_def)
qed

text \<open>The pass is a run of the step relation that ends with every worker done.\<close>

lemma parallel_pass_steps:
  assumes "parallel_pass st block reg sched pending mv = (runs, mv')"
  shows "(pass_step st)\<^sup>*\<^sup>* (map (\<lambda>i. (i, execute_one (block ! i) i st reg)) pending, mv) (done_workers runs, mv')"
proof -
  let ?ws = "map (\<lambda>i. (i, execute_one (block ! i) i st reg)) pending"
  obtain ws1 mv1 where s: "fold (step_worker st) sched (?ws, mv) = (ws1, mv1)"
    by (cases "fold (step_worker st) sched (?ws, mv)")
  with assms have "drain st ws1 mv1 = (runs, mv')" by (simp add: parallel_pass_def)
  from drain_steps [OF this, of "[]"] schedule_steps [of st "(?ws, mv)" sched] s show ?thesis by simp
qed

subsection \<open>The invariant of one worker\<close>

text \<open>
  \<open>h\<close> is the history of the worker's reads. Under every view that agrees with the history, what is
  left of the program gives the result of the whole program; every observation is still backed by the
  table; and when no earlier transaction is running, every observation is the current view.
\<close>

definition agrees :: "view \<Rightarrow> (Address \<times> BalanceSlot \<times> ReadSource) list \<Rightarrow> bool" where
  "agrees V h \<longleftrightarrow> (\<forall>(a, r) \<in> set h. V a = r)"

definition log :: "(Address \<times> BalanceSlot \<times> ReadSource) list \<Rightarrow> ReadEntry list" where
  "log h = map (\<lambda>(a, r). mk_read a (snd r)) h"

definition same_result :: "occ_prog \<Rightarrow> table \<Rightarrow> TxnIdx \<Rightarrow> occ_prog \<Rightarrow> (Address \<times> BalanceSlot \<times> ReadSource) list \<Rightarrow> bool" where
  "same_result P L i p h \<longleftrightarrow>
     (\<forall>V. agrees V h \<longrightarrow> run_view V p = run_view V P \<and> run_writes V p (\<lambda>a. L a i) = run_writes V P Map.empty)"

definition backed :: "State \<Rightarrow> table \<Rightarrow> TxnIdx \<Rightarrow> (Address \<times> BalanceSlot \<times> ReadSource) list \<Rightarrow> bool" where
  "backed st L i h \<longleftrightarrow> (\<forall>(a, r) \<in> set h. obs_ok st L i a r)"

definition current :: "State \<Rightarrow> table \<Rightarrow> TxnIdx \<Rightarrow> (Address \<times> BalanceSlot \<times> ReadSource) list \<Rightarrow> bool" where
  "current st L i h \<longleftrightarrow> (\<forall>(a, r) \<in> set h. r = mv_view st L i a)"

definition worker_ok ::
  "State \<Rightarrow> occ_prog \<Rightarrow> table \<Rightarrow> TxnIdx set \<Rightarrow> TxnIdx \<Rightarrow> occ_prog \<Rightarrow> (Address \<times> BalanceSlot \<times> ReadSource) list \<Rightarrow> bool" where
  "worker_ok st P L pend i p h \<longleftrightarrow>
     prog_ok i p (log h) (\<lambda>a. L a i) \<and> same_result P L i p h \<and> backed st L i h \<and>
     ((\<forall>j < i. j \<notin> pend) \<longrightarrow> current st L i h)"

lemma log_snoc: "log (h @ [(a, r)]) = log h @ [mk_read a (snd r)]"
  by (simp add: log_def)

lemma worker_ok_start:
  "(\<And>a. L a i = None) \<Longrightarrow> prog_ok i P [] Map.empty \<Longrightarrow> worker_ok st P L pend i P []"
  by (simp add: worker_ok_def log_def same_result_def backed_def current_def)

text \<open>How the table may change under a worker: extended, and only at running indices.\<close>

definition extends :: "TxnIdx set \<Rightarrow> table \<Rightarrow> table \<Rightarrow> bool" where
  "extends pend L L' \<longleftrightarrow>
     (\<forall>a j s. L a j = Some s \<longrightarrow> L' a j = Some s) \<and> (\<forall>a j. j \<notin> pend \<longrightarrow> L' a j = L a j)"

lemma extends_refl [simp]: "extends pend L L"
  by (simp add: extends_def)

lemma extends_view: "extends pend L L' \<Longrightarrow> (\<forall>j < i. j \<notin> pend) \<Longrightarrow> mv_view st L' i a = mv_view st L i a"
  by (rule mv_view_cong) (simp add: extends_def)

lemma backed_extends: "extends pend L L' \<Longrightarrow> backed st L i h \<Longrightarrow> backed st L' i h"
  unfolding backed_def extends_def by (auto intro: obs_ok_mono)

lemma current_extends:
  "extends pend L L' \<Longrightarrow> (\<forall>j < i. j \<notin> pend) \<Longrightarrow> current st L' i h \<longleftrightarrow> current st L i h"
  by (simp add: current_def extends_view)

lemma worker_ok_other:
  assumes "worker_ok st P L pend i p h" "extends pend L L'" "\<And>a. L' a i = L a i"
  shows "worker_ok st P L' pend i p h"
  using assms backed_extends current_extends
  unfolding worker_ok_def same_result_def by (simp; blast)

text \<open>One operation of the worker itself.\<close>

lemma worker_ok_read:
  assumes "worker_ok st P L pend i (ReadOp a k) h" "r = mv_view st L i a"
  shows "worker_ok st P L pend i (k r) (h @ [(a, r)])"
proof -
  from assms(1) have ok: "prog_ok i (ReadOp a k) (log h) (\<lambda>a. L a i)" "same_result P L i (ReadOp a k) h"
    "backed st L i h" "(\<forall>j < i. j \<notin> pend) \<longrightarrow> current st L i h" by (simp_all add: worker_ok_def)
  have "same_result P L i (k r) (h @ [(a, r)])"
    unfolding same_result_def
  proof (intro allI impI)
    fix V assume "agrees V (h @ [(a, r)])"
    then have "agrees V h" "V a = r" by (auto simp: agrees_def)
    with ok(2) show "run_view V (k r) = run_view V P \<and> run_writes V (k r) (\<lambda>a. L a i) = run_writes V P Map.empty"
      by (auto simp: same_result_def)
  qed
  moreover have "prog_ok i (k r) (log (h @ [(a, r)])) (\<lambda>a. L a i)"
    using ok(1) by (simp add: log_snoc del: split_paired_All)
  moreover have "backed st L i (h @ [(a, r)])" using ok(3) by (simp add: backed_def assms(2) obs_ok_view)
  moreover have "(\<forall>j < i. j \<notin> pend) \<longrightarrow> current st L i (h @ [(a, r)])"
    using ok(4) by (simp add: current_def assms(2))
  ultimately show ?thesis by (simp add: worker_ok_def)
qed

lemma worker_ok_own:
  assumes "worker_ok st P L pend i p h" "i \<in> pend" "prog_ok i p' (log h) (\<lambda>a. L' a i)"
    and "\<And>V. run_view V p' = run_view V p \<and> run_writes V p' (\<lambda>a. L' a i) = run_writes V p (\<lambda>a. L a i)"
    and "extends pend L L'"
  shows "worker_ok st P L' pend i p' h"
  using assms backed_extends current_extends unfolding worker_ok_def same_result_def by (simp; blast)

lemma worker_step:
  assumes "worker_ok st P (mv_lookup mv) pend i p h" "mv_invar mv" "i \<in> pend"
    and "prog_step st i p mv = (p', mv')"
  shows "(\<exists>h'. worker_ok st P (mv_lookup mv') pend i p' h') \<and> extends pend (mv_lookup mv) (mv_lookup mv') \<and>
         (\<forall>a j. j \<noteq> i \<longrightarrow> mv_lookup mv' a j = mv_lookup mv a j) \<and> mv_invar mv'"
proof (cases p)
  case (Done t)
  with assms show ?thesis by auto
next
  case (ReadOp a k)
  with assms(4) have "p' = k (mv_view st (mv_lookup mv) i a)" "mv' = mv"
    by (auto simp: mvs.read_view [OF assms(2)])
  with worker_ok_read [OF assms(1) [unfolded ReadOp] refl] assms(2) show ?thesis by auto
next
  case (WriteOp a s q)
  with assms(4) have eq: "p' = q" "mv' = MvStore_write mv a s i" by auto
  have lk: "mv_lookup mv' b j = (if b = a \<and> j = i then Some s else mv_lookup mv b j)" for b j
    by (simp add: eq mvs.lk_write)
  from assms(1) WriteOp have ok: "mv_lookup mv a i = None" "prog_ok i q (log h) ((\<lambda>b. mv_lookup mv b i)(a \<mapsto> s))"
    by (auto simp: worker_ok_def)
  have own: "(\<lambda>b. mv_lookup mv' b i) = (\<lambda>b. mv_lookup mv b i)(a \<mapsto> s)" by (auto simp: lk)
  have ext: "extends pend (mv_lookup mv) (mv_lookup mv')" using ok(1) assms(3) by (auto simp: extends_def lk)
  have "worker_ok st P (mv_lookup mv') pend i p' h"
    by (rule worker_ok_own [OF assms(1,3) _ _ ext]) (use ok(2) own in \<open>auto simp: eq WriteOp\<close>)
  moreover have "\<forall>b j. j \<noteq> i \<longrightarrow> mv_lookup mv' b j = mv_lookup mv b j" by (simp add: lk)
  moreover have "mv_invar mv'" using assms(2) by (simp add: eq mvs.inv_write)
  ultimately show ?thesis using ext by blast
next
  case (ClearOp q)
  with assms(4) have eq: "p' = q" "mv' = MvStore_clear_writes mv i" by auto
  from assms(1) ClearOp have ok: "(\<lambda>b. mv_lookup mv b i) = Map.empty" "prog_ok i q (log h) Map.empty"
    by (auto simp: worker_ok_def)
  have lk: "mv_lookup mv' b j = mv_lookup mv b j" for b j
    using fun_cong [OF ok(1), of b] by (simp add: eq mvs.lk_clear [OF assms(2)])
  have ext: "extends pend (mv_lookup mv) (mv_lookup mv')" by (simp add: extends_def lk)
  have "worker_ok st P (mv_lookup mv') pend i p' h"
    by (rule worker_ok_own [OF assms(1,3) _ _ ext]) (use ok in \<open>simp_all add: lk eq(1) ClearOp\<close>)
  moreover have "mv_invar mv'" using assms(2) by (simp add: eq mvs.inv_clear)
  ultimately show ?thesis using ext lk by blast
qed

subsection \<open>The invariant of the pass\<close>

definition pass_inv ::
  "State \<Rightarrow> (TxnIdx \<Rightarrow> occ_prog) \<Rightarrow> TxnIdx list \<Rightarrow> table \<Rightarrow> workers \<times> MvStore \<Rightarrow> bool" where
  "pass_inv st P pend L0 cfg \<longleftrightarrow>
     (let (ws, mv) = cfg in
      mv_invar mv \<and> map fst ws = pend \<and> extends (set pend) L0 (mv_lookup mv) \<and>
      (\<forall>(i, p) \<in> set ws. \<exists>h. worker_ok st (P i) (mv_lookup mv) (set pend) i p h))"

lemma extends_trans: "extends pend L L' \<Longrightarrow> extends pend L' L'' \<Longrightarrow> extends pend L L''"
  by (simp add: extends_def)

lemma pass_inv_step:
  assumes "pass_step st cfg cfg'" "pass_inv st P pend L0 cfg" "distinct pend"
  shows "pass_inv st P pend L0 cfg'"
  using assms(1)
proof cases
  case (move k ws idx p mv p' mv')
  from assms(2) have inv: "mv_invar mv" "map fst ws = pend" "extends (set pend) L0 (mv_lookup mv)"
    and all: "\<forall>(i, p) \<in> set ws. \<exists>h. worker_ok st (P i) (mv_lookup mv) (set pend) i p h"
    by (auto simp: move(1) pass_inv_def)
  have mem: "(idx, p) \<in> set ws" using move(3,4) by (metis nth_mem)
  with all obtain h where h: "worker_ok st (P idx) (mv_lookup mv) (set pend) idx p h" by auto
  have idx: "idx \<in> set pend" using mem inv(2) by force
  from worker_step [OF h inv(1) idx move(5)] obtain h' where
    own: "worker_ok st (P idx) (mv_lookup mv') (set pend) idx p' h'" and
    ext: "extends (set pend) (mv_lookup mv) (mv_lookup mv')" and
    others: "\<And>a j. j \<noteq> idx \<Longrightarrow> mv_lookup mv' a j = mv_lookup mv a j" and "mv_invar mv'" by blast
  have "\<exists>h. worker_ok st (P i) (mv_lookup mv') (set pend) i q h" if "(i, q) \<in> set (ws[k := (idx, p')])" for i q
  proof -
    from that obtain m where m: "m < length ws" "ws[k := (idx, p')] ! m = (i, q)"
      by (metis in_set_conv_nth length_list_update)
    show ?thesis
    proof (cases "m = k")
      case True
      with m move(3) own show ?thesis by auto
    next
      case False
      with m have wm: "ws ! m = (i, q)" by simp
      have "i \<noteq> idx"
        using False m(1) move(3,4) wm assms(3) inv(2) by (metis distinct_conv_nth length_map nth_map fst_conv)
      moreover from wm m(1) all have "\<exists>h. worker_ok st (P i) (mv_lookup mv) (set pend) i q h"
        using nth_mem by fastforce
      ultimately show ?thesis using worker_ok_other [OF _ ext] others by metis
    qed
  qed
  moreover have "map fst (ws[k := (idx, p')]) = pend"
    using inv(2) move(3,4) by (metis fst_conv list_update_id map_update nth_map)
  ultimately show ?thesis
    using \<open>mv_invar mv'\<close> extends_trans [OF inv(3) ext] by (auto simp: move(2) pass_inv_def)
qed

lemma pass_inv_steps:
  "(pass_step st)\<^sup>*\<^sup>* cfg cfg' \<Longrightarrow> pass_inv st P pend L0 cfg \<Longrightarrow> distinct pend \<Longrightarrow> pass_inv st P pend L0 cfg'"
  by (induction rule: rtranclp_induct) (auto intro: pass_inv_step)

end
