(* ===== verification/Occ_Serial.thy ===== *)
theory Occ_Serial
  imports Occ_Pass
begin

text \<open>
  Correctness of the parallel block executor of \<open>suwappudb-bridge/src/occ/block_executor.rs\<close>: for
  every schedule it terminates within its iteration bound, and its outcomes and balances are those of
  executing the block one intent at a time (\<open>serial_block\<close>).
\<close>

section \<open>Settled transactions\<close>

text \<open>A recorded run that is the result of its program on observations the table still backs.\<close>

definition settled :: "State \<Rightarrow> occ_prog \<Rightarrow> table \<Rightarrow> TxnIdx \<Rightarrow> Txn \<Rightarrow> bool" where
  "settled st P L i t \<longleftrightarrow>
     (\<exists>h. txn_idx t = i \<and> read_set t = log h \<and> backed st L i h \<and>
        (\<forall>V. agrees V h \<longrightarrow> t = run_view V P \<and> (\<lambda>a. L a i) = run_writes V P Map.empty))"

definition valid_in :: "table \<Rightarrow> Txn \<Rightarrow> bool" where
  "valid_in L t \<longleftrightarrow>
     (\<forall>e \<in> set (read_set t). still_consistent (re_source e) (highest_below (L (re_addr e)) (txn_idx t)))"

lemma is_valid_in: "mv_invar mv \<Longrightarrow> Validator_is_valid t mv \<longleftrightarrow> valid_in (mv_lookup mv) t"
  by (simp add: Validator_is_valid_def valid_in_def mvs.highest_search)

lemma valid_in_cong: "(\<And>a j. j < txn_idx t \<Longrightarrow> L a j = L' a j) \<Longrightarrow> valid_in L t \<longleftrightarrow> valid_in L' t"
proof -
  assume eq: "\<And>a j. j < txn_idx t \<Longrightarrow> L a j = L' a j"
  have "highest_below (L a) (txn_idx t) = highest_below (L' a) (txn_idx t)" for a
    by (rule highest_below_cong) (rule eq)
  then show ?thesis by (simp add: valid_in_def)
qed

lemma valid_log:
  assumes "backed st L i h" "txn_idx t = i" "read_set t = log h"
  shows "valid_in L t \<longleftrightarrow> current st L i h"
  using assms obs_consistent_view
  by (fastforce simp: valid_in_def current_def backed_def log_def mk_read_def)

lemma settled_valid:
  assumes "settled st P L i t" "valid_in L t"
  shows "t = run_view (mv_view st L i) P \<and> (\<lambda>a. L a i) = run_writes (mv_view st L i) P Map.empty"
proof -
  from assms(1) obtain h where h: "txn_idx t = i" "read_set t = log h" "backed st L i h"
    "\<forall>V. agrees V h \<longrightarrow> t = run_view V P \<and> (\<lambda>a. L a i) = run_writes V P Map.empty"
    by (auto simp: settled_def)
  have "current st L i h" using valid_log [OF h(3,1,2)] assms(2) by simp
  then have "agrees (mv_view st L i) h" by (auto simp: current_def agrees_def)
  with h(4) show ?thesis by blast
qed

lemma settled_extends:
  assumes "settled st P L i t" "extends pend L L'" "\<And>a. L' a i = L a i"
  shows "settled st P L' i t"
  using assms backed_extends unfolding settled_def by (simp; blast)

lemma settled_cleared:
  assumes "settled st P L i t" "valid_in L' t" "i \<notin> D" "\<And>a j. L' a j = (if j \<in> D then None else L a j)"
  shows "settled st P L' i t"
proof -
  from assms(1) obtain h where h: "txn_idx t = i" "read_set t = log h" "backed st L i h"
    "\<forall>V. agrees V h \<longrightarrow> t = run_view V P \<and> (\<lambda>a. L a i) = run_writes V P Map.empty"
    by (auto simp: settled_def)
  have "obs_ok st L' i a r" if "(a, r) \<in> set h" for a r
  proof (cases "snd r")
    case (Version v)
    have "mk_read a (snd r) \<in> set (read_set t)" using that h(2) by (force simp: log_def)
    with assms(2) Version have "highest_below (L' a) i = Some v"
      by (cases "highest_below (L' a) i") (force simp: valid_in_def mk_read_def h(1))+
    then have "L' a v \<noteq> None" by (simp add: highest_below_Some)
    with assms(4) [of a v] have "L' a v = L a v" by (simp split: if_splits)
    with h(3) that Version show ?thesis by (force simp: backed_def obs_ok_def)
  next
    case Snapshot
    with h(3) that show ?thesis by (force simp: backed_def obs_ok_def)
  qed
  moreover have "(\<lambda>a. L' a i) = (\<lambda>a. L a i)" using assms(3,4) by simp
  ultimately show ?thesis using h by (auto simp: settled_def backed_def)
qed

lemma worker_done:
  assumes "worker_ok st P L pend i (Done t) h"
  shows "settled st P L i t \<and> ((\<forall>j < i. j \<notin> pend) \<longrightarrow> valid_in L t)"
proof -
  from assms have h: "txn_idx t = i" "read_set t = log h" "backed st L i h"
    "same_result P L i (Done t) h" "(\<forall>j < i. j \<notin> pend) \<longrightarrow> current st L i h"
    by (auto simp: worker_ok_def)
  from h show ?thesis
    using valid_log [OF h(3,1,2)] by (auto simp: settled_def same_result_def)
qed

text \<open>What a parallel pass leaves behind, whatever its schedule.\<close>

lemma parallel_pass_post:
  assumes "parallel_pass st block reg sched pend mv = (runs, mv')" "distinct pend" "mv_invar mv"
    and "\<And>a j. j \<in> set pend \<Longrightarrow> mv_lookup mv a j = None"
  shows "map fst runs = pend \<and> mv_invar mv' \<and> extends (set pend) (mv_lookup mv) (mv_lookup mv') \<and>
    (\<forall>(i, t) \<in> set runs. settled st (execute_one (block ! i) i st reg) (mv_lookup mv') i t \<and>
       ((\<forall>j < i. j \<notin> set pend) \<longrightarrow> valid_in (mv_lookup mv') t))"
proof -
  let ?P = "\<lambda>i. execute_one (block ! i) i st reg"
  have "\<exists>h. worker_ok st (?P i) (mv_lookup mv) (set pend) i (?P i) h" if "i \<in> set pend" for i
    using worker_ok_start [of "mv_lookup mv" i "?P i"] assms(4) [OF that] prog_ok_execute_one by blast
  then have "pass_inv st ?P pend (mv_lookup mv) (map (\<lambda>i. (i, ?P i)) pend, mv)"
    using assms(3) by (auto simp: pass_inv_def comp_def)
  from pass_inv_steps [OF parallel_pass_steps [OF assms(1)] this assms(2)]
  have post: "mv_invar mv'" "map fst (done_workers runs) = pend" "extends (set pend) (mv_lookup mv) (mv_lookup mv')"
    and all: "\<forall>(i, p) \<in> set (done_workers runs). \<exists>h. worker_ok st (?P i) (mv_lookup mv') (set pend) i p h"
    by (auto simp: pass_inv_def)
  have "settled st (?P i) (mv_lookup mv') i t \<and> ((\<forall>j < i. j \<notin> set pend) \<longrightarrow> valid_in (mv_lookup mv') t)"
    if "(i, t) \<in> set runs" for i t
  proof -
    from that have "(i, Done t) \<in> set (done_workers runs)" by (force simp: done_workers_def)
    with all obtain h where "worker_ok st (?P i) (mv_lookup mv') (set pend) i (Done t) h" by blast
    then show ?thesis by (rule worker_done)
  qed
  moreover have "map fst (done_workers runs) = map fst runs"
    by (auto simp: done_workers_def)
  ultimately show ?thesis using post by auto
qed

section \<open>Validation\<close>

lemma nth_fold_update:
  "distinct (map fst runs) \<Longrightarrow> (\<And>j. j \<in> fst ` set runs \<Longrightarrow> j < length ts) \<Longrightarrow> i < length ts \<Longrightarrow>
   fold (\<lambda>(idx, t) ts. ts[idx := t]) runs ts ! i = (case map_of runs i of Some t \<Rightarrow> t | None \<Rightarrow> ts ! i)"
proof (induction runs arbitrary: ts)
  case (Cons e runs)
  obtain j t where e: "e = (j, t)" by (cases e)
  with Cons.prems have "map_of runs j = None" by (auto simp: map_of_eq_None_iff)
  with Cons e show ?case by (auto split: option.splits)
qed simp

lemma length_fold_update [simp]: "length (fold (\<lambda>(idx, t) ts. ts[idx := t]) runs ts) = length ts"
  by (induction runs arbitrary: ts) (auto split: prod.splits)

text \<open>
  The pass in ascending order: the set \<open>D\<close> of cleared indices, the remaining transactions valid in the
  resulting store, and no index of a valid prefix cleared.
\<close>

definition validated :: "nat \<Rightarrow> Txn list \<Rightarrow> Validation \<Rightarrow> Validation \<Rightarrow> nat list \<Rightarrow> bool" where
  "validated k ts v0 v D \<longleftrightarrow>
     next_pending v = next_pending v0 @ D \<and> distinct D \<and> set D \<subseteq> {k..<k + length ts} \<and> mv_invar (val_mv v) \<and>
     (\<forall>a j. mv_lookup (val_mv v) a j = (if j \<in> set D then None else mv_lookup (val_mv v0) a j)) \<and>
     (\<forall>m < length ts. k + m \<notin> set D \<longrightarrow> valid_in (mv_lookup (val_mv v)) (ts ! m)) \<and>
     (\<forall>p \<le> length ts. (\<forall>m < p. valid_in (mv_lookup (val_mv v0)) (ts ! m)) \<longrightarrow> set D \<inter> {..<k + p} = {})"

text \<open>A valid record stays valid: what is cleared later has a larger index.\<close>

lemma validated_keep:
  assumes "validated (Suc k) ts v0 v D" "txn_idx t = k" "valid_in (mv_lookup (val_mv v0)) t"
  shows "validated k (t # ts) v0 v D"
proof -
  note D = assms(1) [unfolded validated_def]
  have "valid_in (mv_lookup (val_mv v)) t"
    using D assms(2,3) valid_in_cong [of t "mv_lookup (val_mv v0)" "mv_lookup (val_mv v)"] by force
  then have "\<forall>m < length (t # ts). k + m \<notin> set D \<longrightarrow> valid_in (mv_lookup (val_mv v)) ((t # ts) ! m)"
    using D by (auto simp: nth_Cons split: nat.split)
  moreover have "set D \<inter> {..<k + p} = {}"
    if "p \<le> length (t # ts)" "\<forall>m < p. valid_in (mv_lookup (val_mv v0)) ((t # ts) ! m)" for p
  proof (cases p)
    case (Suc q)
    with that have "q \<le> length ts" "\<forall>m < q. valid_in (mv_lookup (val_mv v0)) (ts ! m)" by auto
    with D Suc show ?thesis by simp
  qed (use D in force)
  ultimately show ?thesis using D by (auto simp: validated_def)
qed

lemma validated_clear:
  assumes "validated (Suc k) ts v1 v D" "\<not> valid_in (mv_lookup (val_mv v0)) t" "mv_invar (val_mv v0)"
    and "val_mv v1 = MvStore_clear_writes (val_mv v0) k" "next_pending v1 = next_pending v0 @ [k]"
  shows "validated k (t # ts) v0 v (k # D)"
proof -
  note D = assms(1) [unfolded validated_def]
  have "p = 0" if "\<forall>m < p. valid_in (mv_lookup (val_mv v0)) ((t # ts) ! m)" for p
    using assms(2) that by (cases p) auto
  then have "\<forall>p \<le> length (t # ts). (\<forall>m < p. valid_in (mv_lookup (val_mv v0)) ((t # ts) ! m)) \<longrightarrow> set (k # D) \<inter> {..<k + p} = {}"
    using D by force
  moreover have "\<forall>m < length (t # ts). k + m \<notin> set (k # D) \<longrightarrow> valid_in (mv_lookup (val_mv v)) ((t # ts) ! m)"
    using D by (auto simp: nth_Cons split: nat.split)
  ultimately show ?thesis
    using D by (auto simp: validated_def assms(4,5) mvs.lk_clear [OF assms(3)])
qed

lemma validate_fold:
  assumes "mv_invar (val_mv v0)" "\<And>m. m < length ts \<Longrightarrow> txn_idx (ts ! m) = k + m"
  shows "\<exists>D. validated k ts v0 (fold validate_one (enumerate k ts) v0) D"
  using assms
proof (induction ts arbitrary: k v0)
  case Nil
  then show ?case by (auto simp: validated_def)
next
  case (Cons t ts)
  have idx: "txn_idx t = k" "\<And>m. m < length ts \<Longrightarrow> txn_idx (ts ! m) = Suc k + m"
    using Cons.prems(2) [of 0] Cons.prems(2) [of "Suc m" for m] by auto
  let ?v1 = "validate_one (k, t) v0"
  have "mv_invar (val_mv ?v1)" using Cons.prems(1) by (simp add: validate_one_def mvs.inv_clear)
  from Cons.IH [OF this idx(2)] obtain D where
    D: "validated (Suc k) ts ?v1 (fold validate_one (enumerate (Suc k) ts) ?v1) D" by blast
  show ?case
  proof (cases "Validator_is_valid t (val_mv v0)")
    case True
    then have "?v1 = v0" and valid: "valid_in (mv_lookup (val_mv v0)) t"
      using is_valid_in [OF Cons.prems(1)] by (simp_all add: validate_one_def)
    with validated_keep [OF _ idx(1) valid] D show ?thesis by (intro exI [of _ D]) simp
  next
    case False
    then have "val_mv ?v1 = MvStore_clear_writes (val_mv v0) k" "next_pending ?v1 = next_pending v0 @ [k]"
      "\<not> valid_in (mv_lookup (val_mv v0)) t" using is_valid_in [OF Cons.prems(1)] by (simp_all add: validate_one_def)
    with validated_clear [OF D _ Cons.prems(1)] show ?thesis by auto
  qed
qed

section \<open>The loop\<close>

definition loop_inv :: "State \<Rightarrow> Intent list \<Rightarrow> ContractRegistry \<Rightarrow> LoopState \<Rightarrow> bool" where
  "loop_inv st block reg ls \<longleftrightarrow>
     mv_invar (lp_mv ls) \<and> length (lp_txns ls) = length block \<and>
     distinct (lp_pending ls) \<and> set (lp_pending ls) \<subseteq> {..<length block} \<and>
     (\<forall>a j. j \<in> set (lp_pending ls) \<or> length block \<le> j \<longrightarrow> mv_lookup (lp_mv ls) a j = None) \<and>
     (\<forall>i < length block. i \<notin> set (lp_pending ls) \<longrightarrow>
        settled st (execute_one (block ! i) i st reg) (mv_lookup (lp_mv ls)) i (lp_txns ls ! i) \<and>
        valid_in (mv_lookup (lp_mv ls)) (lp_txns ls ! i))"

text \<open>Everything below the frontier is final.\<close>

definition frontier :: "nat \<Rightarrow> LoopState \<Rightarrow> bool" where
  "frontier k ls \<longleftrightarrow> (\<forall>i < k. i \<notin> set (lp_pending ls))"

lemma loop_inv_init: "loop_inv st block reg (loop_init (length block))"
  by (auto simp: loop_inv_def loop_init_def mvs.inv_new mvs.lk_new)

text \<open>All records after the parallel pass of one iteration.\<close>

lemma pass_all_settled:
  assumes "loop_inv st block reg ls"
    and "parallel_pass st block reg sched (lp_pending ls) (lp_mv ls) = (runs, mv1)"
    and "txns = fold (\<lambda>(idx, txn) ts. ts[idx := txn]) runs (lp_txns ls)" "i < length block"
  shows "settled st (execute_one (block ! i) i st reg) (mv_lookup mv1) i (txns ! i) \<and>
         ((\<forall>j < i. j \<notin> set (lp_pending ls)) \<longrightarrow> valid_in (mv_lookup mv1) (txns ! i))"
proof -
  let ?pend = "lp_pending ls" and ?L = "mv_lookup (lp_mv ls)" and ?L1 = "mv_lookup mv1"
  from assms(1) have inv: "mv_invar (lp_mv ls)" "length (lp_txns ls) = length block" "distinct ?pend"
    "set ?pend \<subseteq> {..<length block}" and empty: "\<And>a j. j \<in> set ?pend \<Longrightarrow> ?L a j = None"
    and old: "i \<notin> set ?pend \<Longrightarrow> settled st (execute_one (block ! i) i st reg) ?L i (lp_txns ls ! i) \<and>
        valid_in ?L (lp_txns ls ! i)" using assms(4) by (auto simp: loop_inv_def)
  from parallel_pass_post [OF assms(2) inv(3,1) empty] have
    runs: "map fst runs = ?pend" and ext: "extends (set ?pend) ?L ?L1" and
    new: "\<And>i t. (i, t) \<in> set runs \<Longrightarrow> settled st (execute_one (block ! i) i st reg) ?L1 i t \<and>
       ((\<forall>j < i. j \<notin> set ?pend) \<longrightarrow> valid_in ?L1 t)" by blast+
  have dom: "fst ` set runs = set ?pend" using runs by (metis set_map)
  have nth: "txns ! i = (case map_of runs i of Some t \<Rightarrow> t | None \<Rightarrow> lp_txns ls ! i)"
    unfolding assms(3) by (rule nth_fold_update) (use inv(2-4) assms(4) runs dom in auto)
  show ?thesis
  proof (cases "i \<in> set ?pend")
    case True
    with dom obtain t where "map_of runs i = Some t" by (metis map_of_eq_None_iff not_None_eq)
    with new [OF map_of_SomeD] nth show ?thesis by simp
  next
    case False
    with dom have "txns ! i = lp_txns ls ! i" using nth by (metis map_of_eq_None_iff option.simps(4))
    moreover from False ext have "\<And>a. ?L1 a i = ?L a i" by (simp add: extends_def)
    moreover have "txn_idx (lp_txns ls ! i) = i" using old [OF False] by (auto simp: settled_def)
    then have "valid_in ?L1 (lp_txns ls ! i)" if "\<forall>j < i. j \<notin> set ?pend"
      using old [OF False] ext that valid_in_cong [of "lp_txns ls ! i" ?L1 ?L] by (simp add: extends_def)
    ultimately show ?thesis using old [OF False] settled_extends [OF _ ext] by simp
  qed
qed

lemma loop_body_inv:
  assumes "loop_inv st block reg ls"
  shows "loop_inv st block reg (loop_body st block reg sched ls) \<and>
         (frontier k ls \<longrightarrow> k < length block \<longrightarrow> frontier (Suc k) (loop_body st block reg sched ls))"
proof -
  obtain runs mv1 where pass: "parallel_pass st block reg (sched (lp_iterations ls + 1)) (lp_pending ls) (lp_mv ls) = (runs, mv1)"
    by (cases "parallel_pass st block reg (sched (lp_iterations ls + 1)) (lp_pending ls) (lp_mv ls)")
  define txns where "txns = fold (\<lambda>(idx, txn) ts. ts[idx := txn]) runs (lp_txns ls)"
  define v where "v = validation_pass txns mv1 (lp_aborts ls)"
  let ?P = "\<lambda>i. execute_one (block ! i) i st reg" and ?n = "length block"
  note settled1 = pass_all_settled [OF assms pass txns_def]
  from assms have inv: "mv_invar (lp_mv ls)" "length (lp_txns ls) = ?n" "distinct (lp_pending ls)"
    and empty: "\<And>a j. j \<in> set (lp_pending ls) \<or> ?n \<le> j \<Longrightarrow> mv_lookup (lp_mv ls) a j = None"
    and sub: "set (lp_pending ls) \<subseteq> {..<?n}"
    by (auto simp: loop_inv_def)
  from parallel_pass_post [OF pass inv(3,1) empty] have mv1: "mv_invar mv1"
    and ext: "extends (set (lp_pending ls)) (mv_lookup (lp_mv ls)) (mv_lookup mv1)" by blast+
  have above: "mv_lookup mv1 a j = None" if "?n \<le> j" for a j
  proof -
    have "j \<notin> set (lp_pending ls)" using that sub by auto
    with empty [of j a] that ext show ?thesis by (simp add: extends_def)
  qed
  have len: "length txns = ?n" by (simp add: txns_def inv(2))
  have "txn_idx (txns ! m) = m" if "m < ?n" for m using settled1 [OF that] by (auto simp: settled_def)
  with len validate_fold [of "\<lparr>val_mv = mv1, next_pending = [], val_aborts = lp_aborts ls, aborts_by_addr = []\<rparr>" txns 0] mv1
  obtain D where D: "next_pending v = D" "distinct D" "set D \<subseteq> {..<?n}" "mv_invar (val_mv v)"
    "\<And>a j. mv_lookup (val_mv v) a j = (if j \<in> set D then None else mv_lookup mv1 a j)"
    "\<And>m. m < ?n \<Longrightarrow> m \<notin> set D \<Longrightarrow> valid_in (mv_lookup (val_mv v)) (txns ! m)"
    "\<And>p. p \<le> ?n \<Longrightarrow> \<forall>m < p. valid_in (mv_lookup mv1) (txns ! m) \<Longrightarrow> set D \<inter> {..<p} = {}"
    by (auto simp: v_def validation_pass_def validated_def lessThan_atLeast0)
  have body: "lp_mv (loop_body st block reg sched ls) = val_mv v" "lp_txns (loop_body st block reg sched ls) = txns"
    "lp_pending (loop_body st block reg sched ls) = D"
    using D(1) pass by (simp_all add: loop_body_def Let_def txns_def v_def)
  have "settled st (?P i) (mv_lookup (val_mv v)) i (txns ! i)" if "i < ?n" "i \<notin> set D" for i
    using settled_cleared [OF _ D(6) [OF that] that(2) D(5)] settled1 [OF that(1)] by blast
  then have "loop_inv st block reg (loop_body st block reg sched ls)"
    unfolding loop_inv_def body using D(2-6) len above by auto
  moreover have "frontier (Suc k) (loop_body st block reg sched ls)" if "frontier k ls" "k < ?n"
  proof -
    have "\<forall>m < Suc k. valid_in (mv_lookup mv1) (txns ! m)"
      using settled1 that by (auto simp: frontier_def less_Suc_eq)
    with D(7) [of "Suc k"] that(2) show ?thesis by (auto simp: frontier_def body)
  qed
  ultimately show ?thesis by blast
qed

section \<open>Exit states\<close>

text \<open>Every record and every row of the table is what its program gives on the rows below it.\<close>

definition serial_table :: "State \<Rightarrow> Intent list \<Rightarrow> ContractRegistry \<Rightarrow> nat \<Rightarrow> table \<Rightarrow> Txn list \<Rightarrow> bool" where
  "serial_table st block reg k L txns \<longleftrightarrow>
     (\<forall>i < k. txns ! i = run_view (mv_view st L i) (execute_one (block ! i) i st reg) \<and>
        (\<lambda>a. L a i) = run_writes (mv_view st L i) (execute_one (block ! i) i st reg) Map.empty) \<and>
     (\<forall>a j. k \<le> j \<longrightarrow> L a j = None)"

definition exit_ok :: "State \<Rightarrow> Intent list \<Rightarrow> ContractRegistry \<Rightarrow> LoopState \<Rightarrow> bool" where
  "exit_ok st block reg ls \<longleftrightarrow> mv_invar (lp_mv ls) \<and> length (lp_txns ls) = length block \<and>
     serial_table st block reg (length block) (mv_lookup (lp_mv ls)) (lp_txns ls)"

lemma exit_converged: "loop_inv st block reg ls \<Longrightarrow> lp_pending ls = [] \<Longrightarrow> exit_ok st block reg ls"
  using settled_valid [of st "execute_one (block ! i) i st reg" "mv_lookup (lp_mv ls)" i "lp_txns ls ! i" for i]
  by (simp add: loop_inv_def exit_ok_def serial_table_def)

text \<open>A program run alone sees exactly the view of the rows below its index.\<close>

lemma run_alone_view:
  assumes "run_alone st i p mv = (t, mv')" "mv_invar mv"
  shows "mv_invar mv' \<and> t = run_view (mv_view st (mv_lookup mv) i) p \<and>
    (\<lambda>a. mv_lookup mv' a i) = run_writes (mv_view st (mv_lookup mv) i) p (\<lambda>a. mv_lookup mv a i) \<and>
    (\<forall>a j. j \<noteq> i \<longrightarrow> mv_lookup mv' a j = mv_lookup mv a j)"
  using assms
proof (induction p arbitrary: mv)
  case (Done t)
  then show ?case by simp
next
  case (ReadOp a k)
  let ?r = "mv_view st (mv_lookup mv) i a"
  have "run_alone st i (k ?r) mv = (t, mv')" using ReadOp.prems by (simp add: mvs.read_view)
  from ReadOp.IH [OF rangeI this ReadOp.prems(2)] show ?case by simp
next
  case (WriteOp a s p)
  let ?mv = "MvStore_write mv a s i"
  have view: "mv_view st (mv_lookup ?mv) i = mv_view st (mv_lookup mv) i"
    by (rule ext, rule mv_view_cong) (simp add: mvs.lk_write)
  have own: "(\<lambda>b. mv_lookup ?mv b i) = (\<lambda>b. mv_lookup mv b i)(a \<mapsto> s)" by (auto simp: mvs.lk_write)
  from WriteOp.IH [of ?mv] WriteOp.prems show ?case
    by (simp add: mvs.inv_write view own) (simp add: mvs.lk_write)
next
  case (ClearOp p)
  let ?mv = "MvStore_clear_writes mv i"
  have view: "mv_view st (mv_lookup ?mv) i = mv_view st (mv_lookup mv) i"
    by (rule ext, rule mv_view_cong) (simp add: mvs.lk_clear ClearOp.prems(2))
  have own: "(\<lambda>b. mv_lookup ?mv b i) = Map.empty" by (auto simp: mvs.lk_clear ClearOp.prems(2))
  from ClearOp.IH [of ?mv] ClearOp.prems show ?case
    by (simp add: mvs.inv_clear view own) (simp add: mvs.lk_clear)
qed

definition seq_step ::
  "State \<Rightarrow> Intent list \<Rightarrow> ContractRegistry \<Rightarrow> TxnIdx \<Rightarrow> MvStore \<times> Txn list \<Rightarrow> MvStore \<times> Txn list" where
  "seq_step st block reg idx mt =
     (let (mv, txns) = mt; (txn, mv1) = run_alone st idx (execute_one (block ! idx) idx st reg) mv
      in (mv1, txns[idx := txn]))"

lemma seq_step_table:
  assumes "serial_table st block reg k (mv_lookup mv) txns" "mv_invar mv" "k < length txns"
    and "seq_step st block reg k (mv, txns) = (mv', txns')"
  shows "serial_table st block reg (Suc k) (mv_lookup mv') txns' \<and> mv_invar mv' \<and> length txns' = length txns"
proof -
  let ?P = "execute_one (block ! k) k st reg" and ?L = "mv_lookup mv" and ?L' = "mv_lookup mv'"
  obtain t mv1 where run: "run_alone st k ?P mv = (t, mv1)" by (cases "run_alone st k ?P mv")
  with assms(4) have eq: "mv1 = mv'" "txns' = txns[k := t]" by (auto simp: seq_step_def)
  from run_alone_view [OF run assms(2)] have post: "mv_invar mv'" "t = run_view (mv_view st ?L k) ?P"
    "(\<lambda>a. ?L' a k) = run_writes (mv_view st ?L k) ?P (\<lambda>a. ?L a k)" "\<And>a j. j \<noteq> k \<Longrightarrow> ?L' a j = ?L a j"
    by (auto simp: eq)
  have view: "mv_view st ?L' i = mv_view st ?L i" if "i \<le> k" for i
    by (rule ext, rule mv_view_cong) (use that post(4) in auto)
  from assms(1) have table: "\<forall>a j. k \<le> j \<longrightarrow> ?L a j = None"
    "\<And>i. i < k \<Longrightarrow> txns ! i = run_view (mv_view st ?L i) (execute_one (block ! i) i st reg) \<and>
        (\<lambda>a. ?L a i) = run_writes (mv_view st ?L i) (execute_one (block ! i) i st reg) Map.empty"
    by (auto simp: serial_table_def)
  have "txns' ! i = run_view (mv_view st ?L' i) (execute_one (block ! i) i st reg) \<and>
        (\<lambda>a. ?L' a i) = run_writes (mv_view st ?L' i) (execute_one (block ! i) i st reg) Map.empty" if "i < Suc k" for i
  proof (cases "i = k")
    case True
    have "(\<lambda>a. ?L a k) = Map.empty" using table(1) by auto
    with post(2,3) True assms(3) view [of k] show ?thesis by (simp add: eq)
  next
    case False
    with that have "i < k" by simp
    with table(2) [OF this] view [of i] post(4) False show ?thesis by (simp add: eq)
  qed
  moreover have "\<forall>a j. Suc k \<le> j \<longrightarrow> ?L' a j = None" using table(1) post(4) by simp
  ultimately show ?thesis using post(1) by (simp add: serial_table_def eq)
qed

lemma exit_collapsed:
  assumes "loop_inv st block reg ls"
  shows "exit_ok st block reg (sequential_rerun st block reg ls)"
proof -
  let ?n = "length block"
  define mv0 where "mv0 = fold (\<lambda>i mv. MvStore_clear_writes mv i) [0..<?n] (lp_mv ls)"
  from assms have inv: "mv_invar (lp_mv ls)" "length (lp_txns ls) = ?n"
    "\<And>a j. ?n \<le> j \<Longrightarrow> mv_lookup (lp_mv ls) a j = None" by (auto simp: loop_inv_def)
  from mvs.clear_all [OF inv(1), of "[0..<?n]"] inv(3) have
    mv0: "mv_invar mv0" "\<And>a j. mv_lookup mv0 a j = None" by (auto simp: mv0_def not_less)
  have fold: "case fold (seq_step st block reg) [0..<k] (mv0, lp_txns ls) of (mv, txns) \<Rightarrow>
      serial_table st block reg k (mv_lookup mv) txns \<and> mv_invar mv \<and> length txns = ?n" if "k \<le> ?n" for k
    using that
  proof (induction k)
    case 0
    then show ?case using mv0 inv(2) by (simp add: serial_table_def)
  next
    case (Suc k)
    then show ?case
      using seq_step_table [of st block reg k]
      by (auto split: prod.splits)
  qed
  have "sequential_rerun st block reg ls =
    (case fold (seq_step st block reg) [0..<?n] (mv0, lp_txns ls) of (mv, txns) \<Rightarrow> ls\<lparr>lp_mv := mv, lp_txns := txns\<rparr>)"
    by (simp add: sequential_rerun_def mv0_def seq_step_def [abs_def] Let_def case_prod_unfold)
  with fold [of ?n] show ?thesis by (auto simp: exit_ok_def split: prod.splits)
qed

text \<open>The loop returns, for every schedule: each iteration moves the frontier by one.\<close>

lemma occ_loop_returns:
  assumes "loop_inv st block reg ls" "frontier k ls" "length block \<le> k + fuel" "k \<le> length block"
  shows "\<exists>ls'. occ_loop st block reg sched fuel ls = Some ls' \<and> exit_ok st block reg ls' \<and>
           lp_iterations ls' + k \<le> lp_iterations ls + length block"
  using assms
proof (induction fuel arbitrary: ls k)
  case 0
  then have "lp_pending ls = []" by (auto simp: frontier_def loop_inv_def) (metis lessThan_iff list.set_intros(1) neq_Nil_conv subset_iff)
  with 0 show ?case by (simp add: exit_converged)
next
  case (Suc fuel)
  let ?ls1 = "loop_body st block reg sched ls"
  show ?case
  proof (cases "lp_pending ls = []")
    case True
    with Suc.prems(1,4) show ?thesis by (simp add: exit_converged)
  next
    case False
    then obtain i where i: "i \<in> set (lp_pending ls)" by (cases "lp_pending ls") auto
    with Suc.prems(1,2) have k: "k < length block"
      by (auto simp: frontier_def loop_inv_def) (meson lessThan_iff not_le order.strict_trans1 subset_iff)
    with loop_body_inv [OF Suc.prems(1)] Suc.prems(2)
    have ls1: "loop_inv st block reg ?ls1" "frontier (Suc k) ?ls1" by blast+
    have it: "lp_iterations ?ls1 = Suc (lp_iterations ls)"
      by (simp add: loop_body_def Let_def case_prod_unfold)
    show ?thesis
    proof (cases "lp_collapsed ?ls1 = None")
      case True
      from Suc.IH [OF ls1] Suc.prems(3) k True False it show ?thesis by (auto simp: Let_def)
    next
      case collapsed: False
      have "lp_iterations (sequential_rerun st block reg ?ls1) = lp_iterations ?ls1"
        by (simp add: sequential_rerun_def Let_def case_prod_unfold)
      with exit_collapsed [OF ls1(1)] collapsed False it k show ?thesis by (simp add: Let_def)
    qed
  qed
qed

end
