(* ===== verification/Occ_Spec.thy ===== *)
theory Occ_Spec
  imports Occ_Serial
begin

text \<open>
  What a block promises: \<open>serial_block\<close> executes the intents one at a time on the state, as the reference
  for the parallel executor of \<open>suwappudb-bridge/src/occ/block_executor.rs\<close>. The properties state that
  the parallel executor returns for every schedule and agrees with the reference.
\<close>

section \<open>Reference semantics\<close>

definition serial_transfer :: "State \<Rightarrow> Address \<Rightarrow> Address \<Rightarrow> u128 \<Rightarrow> RejectReason option \<times> State" where
  "serial_transfer s a b n =
     (if bal s a < n then (Some InsufficientBalance, s)
      else if 2 ^ 128 \<le> unat (bal s b) + unat n then (Some AmountOverflow, s)
      else if a = b then (None, s)
      else (None, State_apply (State_apply s (SetBalance a (Balance (bal s a - n))))
                    (SetBalance b (Balance (bal s b + n)))))"

fun serial_steps :: "State \<Rightarrow> BundleStep list \<Rightarrow> RejectReason option \<times> State" where
  "serial_steps s [] = (None, s)"
| "serial_steps s (step # rest) =
     (case step_transfer step of
        None \<Rightarrow> serial_steps s rest
      | Some (a, b, n) \<Rightarrow>
          (case serial_transfer s a b n of
             (None, s') \<Rightarrow> serial_steps s' rest
           | (Some e, s') \<Rightarrow> (Some e, s')))"

text \<open>\<open>st\<close> is the state at block start, which is what contract generators read.\<close>

fun serial_one :: "State \<Rightarrow> ContractRegistry \<Rightarrow> State \<Rightarrow> Intent \<Rightarrow> RejectReason option \<times> State" where
  "serial_one st reg s (Transfer a b n) = serial_transfer s a b n"
| "serial_one st reg s (DeployModule _ _ _) = (None, s)"
| "serial_one st reg s (Call caller target value calldata) =
     (case ContractRegistry_get reg target of
        None \<Rightarrow> serial_transfer s caller target value
      | Some g \<Rightarrow>
          (case serial_steps s (steps (g \<lparr>ctx_caller = caller, ctx_target = target, ctx_value = value,
                                         ctx_calldata = calldata, ctx_state = st, ctx_depth = 0\<rparr>)) of
             (None, s') \<Rightarrow> (None, s')
           | (Some e, _) \<Rightarrow> (Some e, s)))"

definition outcome_of :: "RejectReason option \<Rightarrow> TxOutcome" where
  "outcome_of r = (case r of None \<Rightarrow> Committed | Some e \<Rightarrow> Rejected e)"

fun serial_block :: "State \<Rightarrow> ContractRegistry \<Rightarrow> State \<Rightarrow> Intent list \<Rightarrow> TxOutcome list \<times> State" where
  "serial_block st reg s [] = ([], s)"
| "serial_block st reg s (i # is) =
     (let (r, s1) = serial_one st reg s i; (os, s2) = serial_block st reg s1 is in (outcome_of r # os, s2))"

lemma serial_block_snoc:
  "serial_block st reg s (is @ [i]) =
     (fst (serial_block st reg s is) @ [outcome_of (fst (serial_one st reg (snd (serial_block st reg s is)) i))],
      snd (serial_one st reg (snd (serial_block st reg s is)) i))"
  by (induction "is" arbitrary: s) (simp_all add: Let_def case_prod_unfold)

section \<open>Programs implement the reference\<close>

text \<open>The balances a view gives once some writes are laid over it.\<close>

definition overlay :: "view \<Rightarrow> (Address \<Rightarrow> BalanceSlot option) \<Rightarrow> Address \<Rightarrow> u128" where
  "overlay V w a = canonical (case w a of Some s \<Rightarrow> s | None \<Rightarrow> fst (V a))"

lemma overlay_empty [simp]: "overlay V Map.empty a = canonical (fst (V a))"
  by (simp add: overlay_def)

lemma overlay_upd [simp]: "overlay V (w(a \<mapsto> s)) = (overlay V w)(a := canonical s)"
  by (auto simp: overlay_def)

lemma transfer_effect:
  assumes "\<And>a. canonical (fst (V a)) = bal s a"
  shows "rejected (run_view V (execute_transfer_into a b n i)) = fst (serial_transfer s a b n)"
    and "overlay V (run_writes V (execute_transfer_into a b n i) Map.empty) c = bal (snd (serial_transfer s a b n)) c"
  using assms
  by (auto simp: execute_transfer_into_def serial_transfer_def Let_def checked_add_def case_prod_unfold
      simp del: overlay_empty simp: overlay_empty split: option.splits)

lemma publish_run:
  "rejected (run_view V (publish i reads rest ws)) = None"
  "distinct (map fst rest) \<Longrightarrow> run_writes V (publish i reads rest ws) w = w ++ map_of rest"
proof -
  show "rejected (run_view V (publish i reads rest ws)) = None"
    by (induction i reads rest ws rule: publish.induct) auto
  show "distinct (map fst rest) \<Longrightarrow> run_writes V (publish i reads rest ws) w = w ++ map_of rest"
  proof (induction i reads rest ws arbitrary: w rule: publish.induct)
    case (2 idx reads addr slot rest ws)
    then have "map_of rest addr = None" by (simp add: map_of_eq_None_iff)
    with 2 show ?case by (auto simp: fun_eq_iff map_add_def split: option.splits)
  qed simp
qed

definition local_slot :: "view \<Rightarrow> (Address, BalanceSlot) hash_map \<Rightarrow> Address \<Rightarrow> BalanceSlot" where
  "local_slot V loc a = (case map_get loc a of Some s \<Rightarrow> s | None \<Rightarrow> fst (V a))"

lemma overlay_local: "overlay V (map_get loc) a = canonical (local_slot V loc a)"
  by (simp add: overlay_def local_slot_def)

definition call_result :: "view \<Rightarrow> occ_prog \<Rightarrow> RejectReason option \<times> State \<Rightarrow> bool" where
  "call_result V p r \<longleftrightarrow> rejected (run_view V p) = fst r \<and>
     (case fst r of None \<Rightarrow> overlay V (run_writes V p Map.empty) = bal (snd r)
      | Some _ \<Rightarrow> run_writes V p Map.empty = Map.empty)"

lemma call_result_read: "call_result V (ReadOp a k) r \<longleftrightarrow> call_result V (k (V a)) r"
  by (simp add: call_result_def split: option.split)

lemma call_result_reject: "call_result V (ClearOp (Done (mk_txn i reads [] (Some e)))) (Some e, s)"
  by (simp add: call_result_def)

lemma local_or_mv_result:
  "\<exists>reads'. \<forall>r. call_result V (local_or_mv a loc reads k) r \<longleftrightarrow> call_result V (k (local_slot V loc a) reads') r"
proof (cases "map_get loc a")
  case None
  then show ?thesis
    by (intro exI [of _ "reads @ [mk_read a (snd (V a))]"])
      (simp add: local_or_mv_def local_slot_def call_result_read case_prod_unfold)
next
  case (Some s)
  then show ?thesis by (auto simp: local_or_mv_def local_slot_def)
qed

text \<open>The body of one bundle step, after both slots are known.\<close>

definition step_body ::
  "TxnIdx \<Rightarrow> Address \<Rightarrow> Address \<Rightarrow> u128 \<Rightarrow> BundleStep list \<Rightarrow> (Address, BalanceSlot) hash_map \<Rightarrow>
   BalanceSlot \<Rightarrow> BalanceSlot \<Rightarrow> ReadEntry list \<Rightarrow> occ_prog" where
  "step_body i a b n ss loc from_slot to_slot reads =
     (if canonical from_slot < n then ClearOp (Done (mk_txn i reads [] (Some InsufficientBalance)))
      else case checked_add (canonical to_slot) n of
        None \<Rightarrow> ClearOp (Done (mk_txn i reads [] (Some AmountOverflow)))
      | Some new_to \<Rightarrow>
          if a = b then call_steps i ss reads (hm_insert a (BalanceSlot_new (canonical from_slot)) loc)
          else call_steps i ss reads
            (hm_insert b (BalanceSlot_new new_to)
              (hm_insert a (BalanceSlot_new (canonical from_slot - n)) loc)))"

lemma call_steps_body:
  "step_transfer step = Some (a, b, n) \<Longrightarrow> call_steps i (step # ss) reads loc =
     local_or_mv a loc reads (\<lambda>fs reads1. local_or_mv b loc reads1 (step_body i a b n ss loc fs))"
  by (simp add: step_body_def [abs_def] Let_def)

lemma call_steps_result:
  assumes "step_transfer step = Some (a, b, n)"
  shows "\<exists>reads'. \<forall>r. call_result V (call_steps i (step # ss) reads loc) r \<longleftrightarrow>
     call_result V (step_body i a b n ss loc (local_slot V loc a) (local_slot V loc b) reads') r"
  unfolding call_steps_body [OF assms]
  using local_or_mv_result [of V a loc reads "\<lambda>fs reads1. local_or_mv b loc reads1 (step_body i a b n ss loc fs)"]
    local_or_mv_result [of V b loc _ "step_body i a b n ss loc (local_slot V loc a)"] by metis

lemma call_effect:
  assumes "hm_invar loc" "overlay V (map_get loc) = bal s"
  shows "call_result V (call_steps i ss reads loc) (serial_steps s ss)"
  using assms
proof (induction ss arbitrary: s reads loc)
  case Nil
  then show ?case by (simp add: call_result_def publish_run hm_invar_distinct map_get_def [abs_def])
next
  case (Cons step ss)
  show ?case
  proof (cases "step_transfer step")
    case None
    with Cons show ?thesis by simp
  next
    case (Some t)
    obtain a b n where t: "t = (a, b, n)" by (cases t)
    have bal: "canonical (local_slot V loc c) = bal s c" for c
      using Cons.prems(2) overlay_local [of V loc c] by simp
    from call_steps_result [of step a b n V i ss reads loc] Some t obtain reads' where
      run: "\<And>r. call_result V (call_steps i (step # ss) reads loc) r \<longleftrightarrow>
        call_result V (step_body i a b n ss loc (local_slot V loc a) (local_slot V loc b) reads') r" by blast
    have same: "overlay V (map_get (hm_insert a (BalanceSlot_new (bal s a)) loc)) = bal s"
      using Cons.prems(2) by (auto simp: fun_eq_iff)
    have moved: "overlay V (map_get (hm_insert b (BalanceSlot_new (bal s b + n))
        (hm_insert a (BalanceSlot_new (bal s a - n)) loc))) =
      bal (State_apply (State_apply s (SetBalance a (Balance (bal s a - n)))) (SetBalance b (Balance (bal s b + n))))"
      using Cons.prems(2) by (auto simp: fun_eq_iff)
    show ?thesis
      unfolding run step_body_def bal
      using Cons.IH [OF _ same, of reads'] Cons.IH [OF _ moved, of reads'] Cons.prems(1) Some t
      by (auto simp: serial_transfer_def checked_add_def call_result_reject not_le)
  qed
qed

text \<open>One intent: the recorded run and its writes against the reference on the same balances.\<close>

lemma execute_one_effect:
  assumes "\<And>a. canonical (fst (V a)) = bal s a"
  shows "rejected (run_view V (execute_one it i st reg)) = fst (serial_one st reg s it)"
    and "overlay V (run_writes V (execute_one it i st reg) Map.empty) c = bal (snd (serial_one st reg s it)) c"
proof -
  have "rejected (run_view V (execute_one it i st reg)) = fst (serial_one st reg s it) \<and>
    overlay V (run_writes V (execute_one it i st reg) Map.empty) c = bal (snd (serial_one st reg s it)) c"
  proof (cases it)
    case (Transfer a b n)
    then show ?thesis by (simp add: transfer_effect [OF assms])
  next
    case (DeployModule m x bs)
    then show ?thesis by (simp add: assms)
  next
    case (Call caller target amt calldata)
    show ?thesis
    proof (cases "ContractRegistry_get reg target")
      case None
      with Call show ?thesis by (simp add: execute_call_def transfer_effect [OF assms])
    next
      case (Some g)
      let ?ss = "steps (g \<lparr>ctx_caller = caller, ctx_target = target, ctx_value = amt,
        ctx_calldata = calldata, ctx_state = st, ctx_depth = 0\<rparr>)"
      have "overlay V (map_get []) = bal s" using assms by (auto simp: fun_eq_iff)
      from call_effect [OF hm_invar_Nil this, of i ?ss "[]"] have "call_result V (call_steps i ?ss [] []) (serial_steps s ?ss)" .
      with Call Some assms show ?thesis
        by (cases "serial_steps s ?ss") (auto simp: execute_call_def call_result_def split: option.splits)
    qed
  qed
  then show "rejected (run_view V (execute_one it i st reg)) = fst (serial_one st reg s it)"
    "overlay V (run_writes V (execute_one it i st reg) Map.empty) c = bal (snd (serial_one st reg s it)) c" by blast+
qed

section \<open>Exit states implement the reference\<close>

lemma view_Suc: "canonical (fst (mv_view st L (Suc k) a)) = overlay (mv_view st L k) (\<lambda>a. L a k) a"
  by (auto simp: mv_view_def overlay_def split: option.splits)

lemma serial_table_prefix:
  assumes "serial_table st block reg (length block) L txns" "length txns = length block" "k \<le> length block"
  shows "fst (serial_block st reg st (take k block)) = map txn_outcome (take k txns) \<and>
         (\<forall>a. canonical (fst (mv_view st L k a)) = bal (snd (serial_block st reg st (take k block))) a)"
  using assms(3)
proof (induction k)
  case 0
  then show ?case by (simp add: mv_view_def bal_slot)
next
  case (Suc k)
  let ?s = "snd (serial_block st reg st (take k block))" and ?P = "execute_one (block ! k) k st reg"
  from Suc have IH: "fst (serial_block st reg st (take k block)) = map txn_outcome (take k txns)"
    "\<And>a. canonical (fst (mv_view st L k a)) = bal ?s a" by auto
  from assms(1) Suc.prems have row: "txns ! k = run_view (mv_view st L k) ?P"
    "(\<lambda>a. L a k) = run_writes (mv_view st L k) ?P Map.empty" by (auto simp: serial_table_def)
  note eff = execute_one_effect [OF IH(2), of "block ! k" k st reg]
  have "take (Suc k) block = take k block @ [block ! k]" "take (Suc k) txns = take k txns @ [txns ! k]"
    using Suc.prems assms(2) by (auto simp: take_Suc_conv_app_nth)
  with IH(1) eff row show ?case
    by (simp add: serial_block_snoc view_Suc txn_outcome_def outcome_of_def)
qed

lemma bal_consolidate:
  "distinct (map fst ws) \<Longrightarrow>
   bal (consolidate st ws) a = (case map_of ws a of Some s \<Rightarrow> canonical s | None \<Rightarrow> bal st a)"
proof (induction ws arbitrary: st)
  case (Cons e ws)
  obtain b s where e: "e = (b, s)" by (cases e)
  with Cons.prems have "map_of ws b = None" by (simp add: map_of_eq_None_iff)
  with Cons e show ?case by (auto simp: consolidate_def split: option.splits)
qed (simp add: consolidate_def)

lemma exit_bal:
  assumes "exit_ok st block reg ls"
  shows "bal (consolidate st (MvStore_finalise (lp_mv ls))) a = bal (snd (serial_block st reg st block)) a"
proof -
  let ?L = "mv_lookup (lp_mv ls)" and ?n = "length block"
  from assms have inv: "mv_invar (lp_mv ls)" and len: "length (lp_txns ls) = ?n"
    and tab: "serial_table st block reg ?n ?L (lp_txns ls)" by (auto simp: exit_ok_def)
  have "map_of (MvStore_finalise (lp_mv ls)) a = map_option (\<lambda>v. the (?L a v)) (highest_below (?L a) ?n)"
    using tab by (intro mvs.final_view [OF inv]) (simp add: serial_table_def)
  then have "bal (consolidate st (MvStore_finalise (lp_mv ls))) a = canonical (fst (mv_view st ?L ?n a))"
    by (auto simp: bal_consolidate mvs.final_distinct [OF inv] mv_view_def bal_slot [of st] split: option.splits)
  with serial_table_prefix [OF tab len, of ?n] show ?thesis by simp
qed

lemma block_returns:
  "\<exists>rep st'. BlockExecutor_execute_with_registry H sched st block reg = Some (rep, st') \<and>
     outcomes rep = fst (serial_block st reg st block) \<and>
     bal st' = bal (snd (serial_block st reg st block)) \<and>
     state_root rep = StateTree_root H (StateTree_from_state st') \<and> iterations rep \<le> length block"
proof (cases "block = []")
  case True
  then show ?thesis by (simp add: BlockExecutor_execute_with_registry_def)
next
  case False
  have "frontier 0 (loop_init (length block))" by (simp add: frontier_def)
  from occ_loop_returns [OF loop_inv_init this, where fuel = "2 * length block + 4" and reg = reg and st = st and sched = sched]
  obtain ls where ls: "occ_loop st block reg sched (2 * length block + 4) (loop_init (length block)) = Some ls"
    and ok: "exit_ok st block reg ls" and it: "lp_iterations ls \<le> length block"
    by (auto simp: loop_init_def)
  from ok serial_table_prefix [of st block reg "mv_lookup (lp_mv ls)" "lp_txns ls" "length block"]
  have out: "map txn_outcome (lp_txns ls) = fst (serial_block st reg st block)" by (simp add: exit_ok_def)
  have "bal (consolidate st (MvStore_finalise (lp_mv ls))) = bal (snd (serial_block st reg st block))"
    by (rule ext) (rule exit_bal [OF ok])
  with ls out it False show ?thesis
    by (simp add: BlockExecutor_execute_with_registry_def Let_def)
qed

section \<open>A concrete block\<close>

text \<open>
  Two funded accounts; the second transfer needs the first one's money, the third has none. The
  interleaved schedule makes the second transaction read stale balances in the first pass.
\<close>

definition occ_state :: State where
  "occ_state = State_apply (State_apply State_default (SetBalance (addr_of 1) (Balance 10)))
     (SetBalance (addr_of 2) (Balance 10))"

definition occ_block :: "Intent list" where
  "occ_block = [Transfer (addr_of 1) (addr_of 2) 5, Transfer (addr_of 2) (addr_of 3) 12,
                Transfer (addr_of 9) (addr_of 1) 1]"

definition in_order :: "nat \<Rightarrow> nat list" where
  "in_order it = []"

definition interleaved :: "nat \<Rightarrow> nat list" where
  "interleaved it = [1, 0, 2, 0, 1, 2, 0, 1, 2, 0, 1, 2]"

definition occ_run :: "(nat \<Rightarrow> nat list) \<Rightarrow> BlockReport \<times> State" where
  "occ_run sched = the (BlockExecutor_execute (\<lambda>_. []) sched occ_state occ_block)"

lemma occ_run_returns:
  "BlockExecutor_execute_with_registry (\<lambda>_. []) sched occ_state occ_block ContractRegistry_new =
     Some (fst (occ_run sched), snd (occ_run sched))"
  using block_returns [of "\<lambda>_. []" sched occ_state occ_block ContractRegistry_new]
  by (auto simp: occ_run_def BlockExecutor_execute_def)

lemma occ_state_invar: "State_invar occ_state"
  by (simp add: occ_state_def)

lemma occ_run_addrs: "list_all (\<lambda>e. wf_addr (fst e)) (State_entries (snd (occ_run in_order)))"
  by code_simp

section \<open>Properties\<close>

text \<open>
  C1: the parallel block executor is serializable and never panics: for every schedule of the worker
  threads, every state, block and contract registry, it returns a report whose outcomes are those of
  executing the intents one after the other in block order, and a state with exactly the balances
  that serial execution gives; the reported root is the root of that state. The number of iterations
  is at most the length of the block, so the assertion on \<open>2 * n + 4\<close> never fails.
\<close>

theorem occ_serializable:
  "\<exists>rep st'. BlockExecutor_execute_with_registry H sched st block reg = Some (rep, st') \<and>
     outcomes rep = fst (serial_block st reg st block) \<and>
     bal st' = bal (snd (serial_block st reg st block)) \<and>
     state_root rep = StateTree_root H (StateTree_from_state st') \<and> iterations rep \<le> length block"
  by (rule block_returns)

section \<open>Determinism across schedules\<close>

text \<open>The table of an exit state is unique: each row is determined by the rows below it.\<close>

lemma serial_table_unique:
  assumes "serial_table st block reg n L txns" "serial_table st block reg n L' txns'"
  shows "L a i = L' a i"
proof -
  have rows: "(\<lambda>a. L a i) = (\<lambda>a. L' a i)" if "i < n" for i
    using that
  proof (induction i rule: less_induct)
    case (less i)
    have "mv_view st L i = mv_view st L' i"
      by (rule ext, rule mv_view_cong) (use less in \<open>auto dest: fun_cong\<close>)
    with assms less.prems show ?case by (simp add: serial_table_def)
  qed
  show ?thesis
    using assms fun_cong [OF rows, of i a] by (cases "i < n") (auto simp: serial_table_def)
qed

lemma consolidate_slots:
  "distinct (map fst ws) \<Longrightarrow>
   map_get (slots (store (consolidate st ws))) a =
     (case map_of ws a of Some s \<Rightarrow> Some (BalanceSlot_new (canonical s)) | None \<Rightarrow> map_get (slots (store st)) a)"
proof (induction ws arbitrary: st)
  case (Cons e ws)
  obtain b s where e: "e = (b, s)" by (cases e)
  with Cons.prems have "map_of ws b = None" by (simp add: map_of_eq_None_iff)
  with Cons e show ?case
    by (auto simp: consolidate_def State_apply.simps InMemory_set_def split: option.splits)
qed (simp add: consolidate_def)

lemma consolidate_bytes: "bytes_col (store (consolidate st ws)) = bytes_col (store st)"
  by (induction ws arbitrary: st) (auto simp: consolidate_def State_apply.simps InMemory_set_def)

lemma consolidate_invar: "State_invar st \<Longrightarrow> State_invar (consolidate st ws)"
  by (induction ws arbitrary: st) (auto simp: consolidate_def)

lemma block_exit:
  assumes "BlockExecutor_execute_with_registry H sched st block reg = Some (rep, st')"
  shows "\<exists>ws L txns. st' = consolidate st ws \<and> distinct (map fst ws) \<and>
    (\<forall>a s. (a, s) \<in> set ws \<longleftrightarrow> (\<exists>v. L a v = Some s \<and> (\<forall>j > v. L a j = None))) \<and>
    serial_table st block reg (length block) L txns \<and> length txns = length block \<and>
    outcomes rep = map txn_outcome txns"
proof (cases "block = []")
  case True
  with assms have "st' = consolidate st []" "outcomes rep = []"
    by (auto simp: BlockExecutor_execute_with_registry_def consolidate_def)
  with True show ?thesis
    by (intro exI [of _ "[]"] exI [of _ "\<lambda>a i. None"]) (simp add: serial_table_def)
next
  case False
  have "frontier 0 (loop_init (length block))" by (simp add: frontier_def)
  from occ_loop_returns [OF loop_inv_init this, where fuel = "2 * length block + 4" and reg = reg and st = st and sched = sched]
  obtain ls where ls: "occ_loop st block reg sched (2 * length block + 4) (loop_init (length block)) = Some ls"
    and ok: "exit_ok st block reg ls" by auto
  from ok have inv: "mv_invar (lp_mv ls)" and
    tab: "serial_table st block reg (length block) (mv_lookup (lp_mv ls)) (lp_txns ls)"
    and len: "length (lp_txns ls) = length block" by (auto simp: exit_ok_def)
  from ls assms False have "st' = consolidate st (MvStore_finalise (lp_mv ls))"
    "outcomes rep = map txn_outcome (lp_txns ls)"
    by (auto simp: BlockExecutor_execute_with_registry_def Let_def)
  with mvs.final_distinct [OF inv] mvs.final_iff [OF inv] tab len show ?thesis by blast
qed

subsection \<open>Observably equal start states\<close>

text \<open>
  States whose stores answer every lookup alike; hash-map iteration order may differ. Contract
  generators receive the whole state; a registry respects the relation when no generator looks at
  the iteration order.
\<close>

definition state_sim :: "State \<Rightarrow> State \<Rightarrow> bool" where
  "state_sim s t \<longleftrightarrow> map_get (slots (store s)) = map_get (slots (store t)) \<and> bytes_col (store s) = bytes_col (store t)"

definition registry_respects :: "ContractRegistry \<Rightarrow> bool" where
  "registry_respects reg \<longleftrightarrow>
     (\<forall>target g ctx s t. ContractRegistry_get reg target = Some g \<longrightarrow> state_sim s t \<longrightarrow>
        g (ctx\<lparr>ctx_state := s\<rparr>) = g (ctx\<lparr>ctx_state := t\<rparr>))"

lemma state_sim_refl [simp]: "state_sim s s"
  by (simp add: state_sim_def)

lemma registry_respects_new: "registry_respects ContractRegistry_new"
  by (simp add: registry_respects_def ContractRegistry_get_def ContractRegistry_new_def)

lemma sim_slot_of: "state_sim s t \<Longrightarrow> State_slot_of s a = State_slot_of t a"
  by (simp add: state_sim_def State_slot_of_def InMemory_get_def)

lemma sim_state_eq: "state_sim s t \<Longrightarrow> state_eq s t"
  by (simp add: state_eq_def sim_slot_of) (simp add: state_sim_def State_bytes_of_def InMemory_get_bytes_def)

lemma sim_entries: "state_sim s t \<Longrightarrow> State_invar s \<Longrightarrow> State_invar t \<Longrightarrow> set (State_entries s) = set (State_entries t)"
  by (auto simp: state_sim_def State_invar_def InMemory_invar_def State_entries_def InMemory_entries_def hm.iter_iff_get)

lemma execute_one_sim:
  assumes "registry_respects reg" "state_sim s t"
  shows "execute_one it i s reg = execute_one it i t reg"
proof (cases it)
  case (Call caller target amt calldata)
  show ?thesis
  proof (cases "ContractRegistry_get reg target")
    case (Some g)
    let ?ctx = "\<lambda>s. \<lparr>ctx_caller = caller, ctx_target = target, ctx_value = amt, ctx_calldata = calldata,
      ctx_state = s, ctx_depth = 0\<rparr>"
    have "g ((?ctx s)\<lparr>ctx_state := s\<rparr>) = g ((?ctx s)\<lparr>ctx_state := t\<rparr>)"
      using assms Some unfolding registry_respects_def by blast
    with Call Some show ?thesis by (simp add: execute_call_def)
  qed (simp add: Call execute_call_def)
qed (simp_all)

text \<open>Two start states on which every intent runs the same program.\<close>

definition same_programs :: "ContractRegistry \<Rightarrow> State \<Rightarrow> State \<Rightarrow> bool" where
  "same_programs reg s t \<longleftrightarrow> (\<forall>it i. execute_one it i s reg = execute_one it i t reg)"

lemma same_programs_sim: "registry_respects reg \<Longrightarrow> state_sim s t \<Longrightarrow> same_programs reg s t"
  by (simp add: same_programs_def execute_one_sim)

lemma serial_table_sim:
  assumes "same_programs reg s t" "state_sim s t"
  shows "serial_table s block reg n L txns \<longleftrightarrow> serial_table t block reg n L txns"
proof -
  have "mv_view s L i = mv_view t L i" for i
    by (rule ext) (simp add: mv_view_def sim_slot_of [OF assms(2)] split: option.split)
  then show ?thesis using assms(1) by (simp add: serial_table_def same_programs_def)
qed

lemma consolidate_sim:
  assumes "state_sim s t" "distinct (map fst ws)" "distinct (map fst ws')" "set ws = set ws'"
  shows "state_sim (consolidate s ws) (consolidate t ws')"
proof -
  from assms(2-4) have "map_of ws = map_of ws'" by (simp add: map_of_inject_set)
  with assms show ?thesis by (auto simp: state_sim_def consolidate_slots consolidate_bytes fun_eq_iff split: option.split)
qed

text \<open>Two executions from related states, under any two schedules.\<close>

lemma block_sim:
  assumes "BlockExecutor_execute_with_registry H sched st block reg = Some (rep, st1)"
    and "BlockExecutor_execute_with_registry H' sched' st' block reg = Some (rep', st2)"
    and "same_programs reg st st'" "state_sim st st'"
  shows "state_sim st1 st2" "outcomes rep = outcomes rep'"
proof -
  from block_exit [OF assms(1)] obtain ws L txns where one: "st1 = consolidate st ws" "distinct (map fst ws)"
    "\<forall>a s. (a, s) \<in> set ws \<longleftrightarrow> (\<exists>v. L a v = Some s \<and> (\<forall>j > v. L a j = None))"
    "serial_table st block reg (length block) L txns" "length txns = length block"
    "outcomes rep = map txn_outcome txns" by blast
  from block_exit [OF assms(2)] obtain ws' L' txns' where two: "st2 = consolidate st' ws'" "distinct (map fst ws')"
    "\<forall>a s. (a, s) \<in> set ws' \<longleftrightarrow> (\<exists>v. L' a v = Some s \<and> (\<forall>j > v. L' a j = None))"
    "serial_table st block reg (length block) L' txns'" "length txns' = length block"
    "outcomes rep' = map txn_outcome txns'" unfolding serial_table_sim [OF assms(3,4), symmetric] by blast
  have L: "L = L'" using serial_table_unique [OF one(4) two(4)] by (intro ext)
  with one(3) two(3) have "set ws = set ws'" by auto
  from consolidate_sim [OF assms(4) one(2) two(2) this] show "state_sim st1 st2" by (simp add: one(1) two(1))
  have "txns = txns'"
    using one(4,5) two(4,5) by (intro nth_equalityI) (auto simp: L serial_table_def)
  then show "outcomes rep = outcomes rep'" by (simp add: one(6) two(6))
qed

text \<open>
  C2: block execution is deterministic: two executions of one block from one state under different
  schedules report the same outcomes and the same state root, and leave observably equal states.
\<close>

theorem occ_deterministic:
  assumes "State_invar st"
    and "BlockExecutor_execute_with_registry H sched st block reg = Some (rep, st1)"
    and "BlockExecutor_execute_with_registry H sched' st block reg = Some (rep', st2)"
    and "\<forall>e \<in> set (State_entries st1). wf_addr (fst e)"
  shows "outcomes rep = outcomes rep' \<and> state_root rep = state_root rep' \<and> state_eq st1 st2"
proof -
  note r1 = block_returns [of H sched st block reg, unfolded assms(2)]
  note r2 = block_returns [of H sched' st block reg, unfolded assms(3)]
  have sim: "state_sim st1 st2"
    by (rule block_sim(1) [OF assms(2,3)]) (simp_all add: same_programs_def)
  from block_exit [OF assms(2)] block_exit [OF assms(3)] assms(1)
  have inv: "State_invar st1" "State_invar st2" by (auto simp: consolidate_invar)
  from from_state_cong [OF inv sim_entries [OF sim inv] assms(4)] have "state_root rep = state_root rep'"
    using r1 r2 by auto
  then show ?thesis using r1 r2 sim_state_eq [OF sim] by auto
qed

theorem occ_deterministic_witness:
  "iterations (fst (occ_run in_order)) \<noteq> iterations (fst (occ_run interleaved)) \<and>
   outcomes (fst (occ_run in_order)) = outcomes (fst (occ_run interleaved)) \<and>
   state_root (fst (occ_run in_order)) = state_root (fst (occ_run interleaved)) \<and>
   state_eq (snd (occ_run in_order)) (snd (occ_run interleaved))"
proof -
  have "iterations (fst (occ_run in_order)) \<noteq> iterations (fst (occ_run interleaved))" by code_simp
  moreover have "\<forall>e \<in> set (State_entries (snd (occ_run in_order))). wf_addr (fst e)"
    using occ_run_addrs by (simp add: list_all_iff)
  from occ_deterministic [OF occ_state_invar occ_run_returns occ_run_returns this]
  have "outcomes (fst (occ_run in_order)) = outcomes (fst (occ_run interleaved)) \<and>
   state_root (fst (occ_run in_order)) = state_root (fst (occ_run interleaved)) \<and>
   state_eq (snd (occ_run in_order)) (snd (occ_run interleaved))" .
  ultimately show ?thesis by blast
qed

section \<open>Addresses a block writes\<close>

primrec writes_in :: "(Address \<Rightarrow> bool) \<Rightarrow> occ_prog \<Rightarrow> bool" where
  "writes_in Q (Done t) \<longleftrightarrow> True"
| "writes_in Q (ReadOp a k) \<longleftrightarrow> (\<forall>r. writes_in Q (k r))"
| "writes_in Q (WriteOp a s p) \<longleftrightarrow> Q a \<and> writes_in Q p"
| "writes_in Q (ClearOp p) \<longleftrightarrow> writes_in Q p"

lemma run_writes_in:
  "writes_in Q p \<Longrightarrow> \<forall>a. w a \<noteq> None \<longrightarrow> Q a \<Longrightarrow> run_writes V p w a \<noteq> None \<Longrightarrow> Q a"
proof (induction p arbitrary: w)
  case (ReadOp b k)
  then show ?case by (auto simp del: split_paired_All)
next
  case (WriteOp b s p)
  have "\<forall>c. (w(b \<mapsto> s)) c \<noteq> None \<longrightarrow> Q c" using WriteOp.prems(1,2) by simp
  moreover have "writes_in Q p" "run_writes V p (w(b \<mapsto> s)) a \<noteq> None" using WriteOp.prems(1,3) by auto
  ultimately show ?case by (intro WriteOp.IH)
next
  case (ClearOp p)
  from ClearOp.IH [of Map.empty] ClearOp.prems show ?case by simp
qed auto

lemma writes_in_publish: "(\<And>a. a \<in> fst ` set rest \<Longrightarrow> Q a) \<Longrightarrow> writes_in Q (publish i reads rest ws)"
  by (induction i reads rest ws rule: publish.induct) auto

lemma writes_in_local: "(\<And>s rs. writes_in Q (k s rs)) \<Longrightarrow> writes_in Q (local_or_mv a loc reads k)"
  by (auto simp: local_or_mv_def split: option.splits)

definition steps_in :: "(Address \<Rightarrow> bool) \<Rightarrow> BundleStep list \<Rightarrow> bool" where
  "steps_in Q ss \<longleftrightarrow> (\<forall>s \<in> set ss. \<forall>a b n. step_transfer s = Some (a, b, n) \<longrightarrow> Q a \<and> Q b)"

lemma writes_in_call_steps:
  "steps_in Q ss \<Longrightarrow> \<forall>a \<in> fst ` set loc. Q a \<Longrightarrow> writes_in Q (call_steps i ss reads loc)"
proof (induction ss arbitrary: reads loc)
  case Nil
  then show ?case by (auto intro!: writes_in_publish)
next
  case (Cons step ss)
  show ?case
  proof (cases "step_transfer step")
    case None
    with Cons show ?thesis by (simp add: steps_in_def)
  next
    case (Some t)
    obtain a b n where t: "t = (a, b, n)" by (cases t)
    with Some Cons.prems(1) have ab: "Q a" "Q b" and ss: "steps_in Q ss" by (auto simp: steps_in_def)
    have "writes_in Q (step_body i a b n ss loc from_slot to_slot rs)" for from_slot to_slot rs
    proof -
      have "\<forall>c \<in> fst ` set (hm_insert a x loc). Q c" "\<forall>c \<in> fst ` set (hm_insert b y (hm_insert a x loc)). Q c" for x y
        using Cons.prems(2) ab by (simp_all add: set_hm_insert)
      from Cons.IH [OF ss this(1)] Cons.IH [OF ss this(2)] show ?thesis
        by (auto simp: step_body_def split: option.split)
    qed
    then show ?thesis
      unfolding call_steps_body [OF Some [unfolded t]] by (intro writes_in_local)
  qed
qed

definition intent_addrs_wf :: "Intent \<Rightarrow> bool" where
  "intent_addrs_wf i = (case i of Transfer a b n \<Rightarrow> wf_addr a \<and> wf_addr b
     | Call a b n d \<Rightarrow> wf_addr a \<and> wf_addr b | DeployModule _ _ _ \<Rightarrow> True)"

definition registry_addrs_wf :: "ContractRegistry \<Rightarrow> bool" where
  "registry_addrs_wf reg \<longleftrightarrow>
     (\<forall>target g ctx. ContractRegistry_get reg target = Some g \<longrightarrow> steps_in wf_addr (steps (g ctx)))"

lemma registry_addrs_wf_new: "registry_addrs_wf ContractRegistry_new"
  by (simp add: registry_addrs_wf_def ContractRegistry_get_def ContractRegistry_new_def)

lemma writes_in_execute_one:
  assumes "intent_addrs_wf it" "registry_addrs_wf reg"
  shows "writes_in wf_addr (execute_one it i st reg)"
proof -
  have tr: "writes_in wf_addr (execute_transfer_into a b n i)" if "wf_addr a" "wf_addr b" for a b n
    using that by (auto simp: execute_transfer_into_def Let_def split: option.splits)
  show ?thesis
  proof (cases it)
    case (Call caller target amt calldata)
    with assms tr show ?thesis
      by (cases "ContractRegistry_get reg target")
        (auto simp: intent_addrs_wf_def execute_call_def registry_addrs_wf_def intro!: writes_in_call_steps)
  qed (use assms tr in \<open>auto simp: intent_addrs_wf_def\<close>)
qed

lemma block_entries_wf:
  assumes "BlockExecutor_execute_with_registry H sched st block reg = Some (rep, st')" "State_invar st"
    and "\<forall>e \<in> set (State_entries st). wf_addr (fst e)" "\<forall>i \<in> set block. intent_addrs_wf i" "registry_addrs_wf reg"
  shows "\<forall>e \<in> set (State_entries st'). wf_addr (fst e)"
proof
  fix e assume e: "e \<in> set (State_entries st')"
  from block_exit [OF assms(1)] obtain ws L txns where ex: "st' = consolidate st ws" "distinct (map fst ws)"
    "\<forall>a s. (a, s) \<in> set ws \<longleftrightarrow> (\<exists>v. L a v = Some s \<and> (\<forall>j > v. L a j = None))"
    "serial_table st block reg (length block) L txns" by blast
  have row: "wf_addr a" if "L a v = Some s" for a v s
  proof -
    have v: "v < length block" using ex(4) that by (metis not_le option.distinct(1) serial_table_def)
    with ex(4) that have "run_writes (mv_view st L v) (execute_one (block ! v) v st reg) Map.empty a \<noteq> None"
      by (metis option.distinct(1) serial_table_def)
    moreover have "writes_in wf_addr (execute_one (block ! v) v st reg)"
      using writes_in_execute_one assms(4,5) v nth_mem by blast
    ultimately show ?thesis using run_writes_in [of wf_addr _ Map.empty] by simp
  qed
  have inv: "State_invar st'" using assms(2) by (simp add: ex(1) consolidate_invar)
  from e inv have "map_get (slots (store st')) (fst e) = Some (snd e)"
    by (simp add: State_invar_def InMemory_invar_def State_entries_def InMemory_entries_def flip: hm.iter_iff_get)
  then consider s where "map_of ws (fst e) = Some s" | "map_get (slots (store st)) (fst e) = Some (snd e)"
    by (auto simp: ex(1) consolidate_slots [OF ex(2)] split: option.splits)
  then show "wf_addr (fst e)"
  proof cases
    case 1
    then show ?thesis using ex(3) row map_of_SomeD by metis
  next
    case 2
    then have "e \<in> set (State_entries st)"
      using assms(2) by (simp add: State_invar_def InMemory_invar_def State_entries_def InMemory_entries_def flip: hm.iter_iff_get)
    with assms(3) show ?thesis by blast
  qed
qed

section \<open>Supply and the bridge\<close>

lemma serial_transfer_supply:
  "State_invar s \<Longrightarrow> State_invar (snd (serial_transfer s a b n)) \<and> State_supply (snd (serial_transfer s a b n)) = State_supply s"
  using sl.move_supply [of s a b n] by (auto simp: serial_transfer_def not_less not_le)

lemma serial_steps_supply:
  "State_invar s \<Longrightarrow> State_invar (snd (serial_steps s ss)) \<and> State_supply (snd (serial_steps s ss)) = State_supply s"
proof (induction ss arbitrary: s)
  case (Cons step ss)
  show ?case
  proof (cases "step_transfer step")
    case (Some t)
    obtain a b n where t: "t = (a, b, n)" by (cases t)
    from serial_transfer_supply [OF Cons.prems, of a b n] Cons.IH Some t show ?thesis
      by (cases "serial_transfer s a b n") (auto split: option.splits)
  qed (use Cons in simp)
qed simp

lemma serial_one_supply:
  "State_invar s \<Longrightarrow> State_invar (snd (serial_one st reg s i)) \<and> State_supply (snd (serial_one st reg s i)) = State_supply s"
proof (cases i)
  case (Call caller target amt calldata)
  assume inv: "State_invar s"
  show ?thesis
  proof (cases "ContractRegistry_get reg target")
    case (Some g)
    let ?ss = "steps (g \<lparr>ctx_caller = caller, ctx_target = target, ctx_value = amt,
      ctx_calldata = calldata, ctx_state = st, ctx_depth = 0\<rparr>)"
    from serial_steps_supply [OF inv, of ?ss] Call Some inv show ?thesis
      by (cases "serial_steps s ?ss") (auto split: option.splits)
  qed (use Call serial_transfer_supply [OF inv] in simp)
qed (simp_all add: serial_transfer_supply)

lemma serial_block_supply:
  "State_invar s \<Longrightarrow> State_invar (snd (serial_block st reg s is)) \<and> State_supply (snd (serial_block st reg s is)) = State_supply s"
proof (induction "is" arbitrary: s)
  case (Cons i "is")
  from Cons.IH [of "snd (serial_one st reg s i)"] serial_one_supply [OF Cons.prems, of st reg i] show ?case
    by (simp add: Let_def case_prod_unfold)
qed simp

lemma block_supply:
  assumes "State_invar st" "BlockExecutor_execute_with_registry H sched st block reg = Some (rep, st')"
  shows "State_invar st' \<and> State_supply st' = State_supply st"
proof -
  from block_exit [OF assms(2)] assms(1) have inv: "State_invar st'" by (auto simp: consolidate_invar)
  from block_returns [of H sched st block reg, unfolded assms(2)]
  have "\<And>a. bal st' a = bal (snd (serial_block st reg st block)) a" by (auto dest: fun_cong)
  with serial_block_supply [OF assms(1), of st reg block] inv show ?thesis
    by (auto dest: supply_cong)
qed

text \<open>
  C3: a block creates and destroys no value: whatever the schedule, the outcomes of its intents and
  the contracts it calls, the sum of all balances after the block is the sum before it.
\<close>

theorem occ_conserves_supply:
  assumes "State_invar st" "BlockExecutor_execute_with_registry H sched st block reg = Some (rep, st')"
  shows "State_invar st' \<and> State_supply st' = State_supply st"
  using assms by (rule block_supply)

theorem occ_conserves_supply_witness:
  "State_supply occ_state = 20 \<and> State_supply (snd (occ_run interleaved)) = State_supply occ_state"
proof -
  have "State_supply occ_state = 20" by code_simp
  with occ_conserves_supply [OF occ_state_invar occ_run_returns [of interleaved]] show ?thesis by blast
qed

definition submit_outcome :: "RejectReason + unit \<Rightarrow> TxOutcome" where
  "submit_outcome r = (case r of Inl e \<Rightarrow> Rejected e | Inr _ \<Rightarrow> Committed)"

definition plain_transfer :: "Intent \<Rightarrow> bool" where
  "plain_transfer i = (case i of Transfer a b n \<Rightarrow> a \<noteq> b | _ \<Rightarrow> False)"

lemma serial_transfer_submit:
  "a \<noteq> b \<Longrightarrow> outcome_of (fst (serial_transfer s a b n)) = submit_outcome (fst (Bridge_submit s (Transfer a b n))) \<and>
   snd (serial_transfer s a b n) = snd (Bridge_submit s (Transfer a b n))"
  by (auto simp: serial_transfer_def submit_transfer_cases outcome_of_def submit_outcome_def)

lemma serial_block_submit:
  "\<forall>i \<in> set is. plain_transfer i \<Longrightarrow>
   serial_block st reg s is = (map submit_outcome (fst (submit_all s is)), snd (submit_all s is))"
proof (induction "is" arbitrary: s)
  case (Cons i "is")
  then obtain a b n where "i = Transfer a b n" "a \<noteq> b" by (cases i) (auto simp: plain_transfer_def)
  with serial_transfer_submit [of a b s n] Cons show ?case
    by (simp add: submit_all_Cons Let_def case_prod_unfold del: submit_all.simps(2))
qed simp

text \<open>
  C18: on a block of transfers between distinct addresses the parallel executor does what submitting
  them one by one to the bridge does: the same verdict per transfer and the same balances.
\<close>

theorem occ_refines_bridge:
  assumes "\<forall>i \<in> set block. plain_transfer i"
    and "BlockExecutor_execute H sched st block = Some (rep, st')"
  shows "outcomes rep = map submit_outcome (fst (submit_all st block)) \<and> bal st' = bal (snd (submit_all st block))"
  using block_returns [of H sched st block ContractRegistry_new] assms(2)
  by (auto simp: BlockExecutor_execute_def serial_block_submit [OF assms(1)])

theorem occ_refines_bridge_witness:
  "outcomes (fst (occ_run interleaved)) = map submit_outcome (fst (submit_all occ_state occ_block)) \<and>
   bal (snd (occ_run interleaved)) = bal (snd (submit_all occ_state occ_block))"
  by (rule occ_refines_bridge [of _ "\<lambda>_. []" interleaved])
    (simp_all add: occ_block_def plain_transfer_def BlockExecutor_execute_def
      occ_run_returns [unfolded occ_block_def])

text \<open>
  On a transfer to oneself the two paths disagree: when the balance plus the amount does not fit
  128 bits, the bridge accepts the transfer as a no-op, and the block executor, which checks the sum
  before it looks for equal addresses, rejects it as an overflow.
\<close>

theorem occ_self_transfer_divergence:
  assumes "n \<le> bal st a" "2 ^ 128 \<le> unat (bal st a) + unat n"
    and "BlockExecutor_execute H sched st [Transfer a a n] = Some (rep, st')"
  shows "Bridge_submit st (Transfer a a n) = (Inr (), st) \<and> outcomes rep = [Rejected AmountOverflow]"
  using block_returns [of H sched st "[Transfer a a n]" ContractRegistry_new] assms
  by (auto simp: BlockExecutor_execute_def submit_transfer_cases serial_transfer_def outcome_of_def)

theorem occ_self_transfer_divergence_witness:
  "let st = State_apply State_default (SetBalance (addr_of 1) (Balance (2 ^ 127)));
       intent = Transfer (addr_of 1) (addr_of 1) (2 ^ 127)
   in \<exists>rep st'. BlockExecutor_execute (\<lambda>_. []) in_order st [intent] = Some (rep, st') \<and>
      Bridge_submit st intent = (Inr (), st) \<and> outcomes rep = [Rejected AmountOverflow]"
proof -
  let ?st = "State_apply State_default (SetBalance (addr_of 1) (Balance (2 ^ 127)))"
  obtain rep st' where run: "BlockExecutor_execute (\<lambda>_. []) in_order ?st
      [Transfer (addr_of 1) (addr_of 1) (2 ^ 127)] = Some (rep, st')"
    using block_returns [of "\<lambda>_. []" in_order ?st _ ContractRegistry_new]
    unfolding BlockExecutor_execute_def by blast
  have "2 ^ 127 \<le> bal ?st (addr_of 1)" "2 ^ 128 \<le> unat (bal ?st (addr_of 1)) + unat (2 ^ 127 :: u128)"
    by simp_all
  from occ_self_transfer_divergence [OF this run] run show ?thesis by (auto simp: Let_def)
qed

end
