(* ===== verification/Recovery.thy ===== *)
theory Recovery
  imports Block_Codec Occ_Spec
begin

text \<open>
  Recovery of \<open>suwappudb-bridge/src/recovery\<close>: the in-memory block store (\<open>store.rs\<close>) and deterministic
  replay (\<open>replay.rs\<close>). A panic of the block executor would be the result \<open>None\<close> of \<open>replay\<close>. The
  schedule of the executor's threads is an argument for each replayed block, so that what is proved
  holds for every schedule of the live run and of the replay.
\<close>

section \<open>Block stores\<close>

datatype BlockStoreError = Backend string

text \<open>
  \<open>&dyn BlockStore\<close>: the table of the trait's operations, closed over the store behind the reference.
\<close>

record dyn_BlockStore =
  dyn_get_by_hash :: "BlockHash \<Rightarrow> BlockStoreError + Block option"
  dyn_get_by_height :: "u64 \<Rightarrow> BlockStoreError + Block option"
  dyn_latest :: "BlockStoreError + Block option"
  dyn_len :: "BlockStoreError + usize"
  dyn_iter_from :: "u64 \<Rightarrow> BlockStoreError + Block list"

definition BlockStore_is_empty :: "dyn_BlockStore \<Rightarrow> bool" where
  "BlockStore_is_empty s = (case dyn_len s of Inl _ \<Rightarrow> True | Inr n \<Rightarrow> n = 0)"

record InMemoryBlockStore =
  by_hash :: "(BlockHash, Block) hash_map"
  by_height :: "(u64, BlockHash) btree_map"

definition BlockStore_new :: InMemoryBlockStore where
  "BlockStore_new = \<lparr>by_hash = [], by_height = []\<rparr>"

definition BlockStore_put :: "(bytes \<Rightarrow> bytes) \<Rightarrow> Block \<Rightarrow> InMemoryBlockStore \<Rightarrow> InMemoryBlockStore" where
  "BlockStore_put H b s =
     (let h = Block_hash H b
      in s\<lparr>by_height := bt_insert (blk_height b) h (by_height s), by_hash := hm_insert h b (by_hash s)\<rparr>)"

definition BlockStore_get_by_hash :: "InMemoryBlockStore \<Rightarrow> BlockHash \<Rightarrow> Block option" where
  "BlockStore_get_by_hash s h = map_get (by_hash s) h"

definition BlockStore_get_by_height :: "InMemoryBlockStore \<Rightarrow> u64 \<Rightarrow> Block option" where
  "BlockStore_get_by_height s n =
     (case map_get (by_height s) n of None \<Rightarrow> None | Some h \<Rightarrow> map_get (by_hash s) h)"

definition BlockStore_latest :: "InMemoryBlockStore \<Rightarrow> Block option" where
  "BlockStore_latest s =
     (case next_back (by_height s) of None \<Rightarrow> None | Some e \<Rightarrow> map_get (by_hash s) (snd e))"

definition BlockStore_len :: "InMemoryBlockStore \<Rightarrow> usize" where
  "BlockStore_len s = length (by_hash s)"

definition BlockStore_iter_from :: "InMemoryBlockStore \<Rightarrow> u64 \<Rightarrow> Block list" where
  "BlockStore_iter_from s from =
     List.map_filter (\<lambda>e. map_get (by_hash s) (snd e)) (filter (\<lambda>e. from \<le> fst e) (by_height s))"

text \<open>The in-memory store never fails: every operation of its table returns \<open>Ok\<close>.\<close>

definition InMemory_dyn :: "InMemoryBlockStore \<Rightarrow> dyn_BlockStore" where
  "InMemory_dyn s =
     \<lparr>dyn_get_by_hash = \<lambda>h. Inr (BlockStore_get_by_hash s h),
      dyn_get_by_height = \<lambda>n. Inr (BlockStore_get_by_height s n),
      dyn_latest = Inr (BlockStore_latest s),
      dyn_len = Inr (BlockStore_len s),
      dyn_iter_from = \<lambda>n. Inr (BlockStore_iter_from s n)\<rparr>"

subsection \<open>The contract of a block store\<close>

text \<open>
  What a client of the trait relies on, for blocks the store can hold (\<open>ok\<close>) and whose hash no other
  stored block has.
\<close>

locale block_store =
  fixes invar :: "'s \<Rightarrow> bool"
    and ok :: "Block \<Rightarrow> bool"
    and hash :: "Block \<Rightarrow> BlockHash"
    and empty :: 's
    and put :: "Block \<Rightarrow> 's \<Rightarrow> 's"
    and get_by_hash :: "'s \<Rightarrow> BlockHash \<Rightarrow> Block option"
    and get_by_height :: "'s \<Rightarrow> u64 \<Rightarrow> Block option"
    and iter_from :: "'s \<Rightarrow> u64 \<Rightarrow> Block list"
  assumes invar_empty: "invar empty"
    and invar_put: "\<lbrakk>invar s; ok b; get_by_hash s (hash b) \<in> {None, Some b}\<rbrakk> \<Longrightarrow> invar (put b s)"
    and hash_empty: "get_by_hash empty h = None"
    and height_empty: "get_by_height empty n = None"
    and hash_put: "\<lbrakk>invar s; ok b\<rbrakk> \<Longrightarrow> get_by_hash (put b s) h = (if h = hash b then Some b else get_by_hash s h)"
    and height_put: "\<lbrakk>invar s; ok b; get_by_hash s (hash b) \<in> {None, Some b}\<rbrakk> \<Longrightarrow>
      get_by_height (put b s) n = (if n = blk_height b then Some b else get_by_height s n)"
    and iter_set: "invar s \<Longrightarrow> set (iter_from s from) = {b. from \<le> blk_height b \<and> get_by_height s (blk_height b) = Some b}"
    and iter_sorted: "invar s \<Longrightarrow> sorted_wrt (<) (map blk_height (iter_from s from))"
begin

text \<open>Storing blocks of distinct hashes and increasing heights, and reading them back in order.\<close>

lemma put_all:
  assumes "\<forall>b \<in> set bs. ok b" "inj_on hash (set bs)" "sorted_wrt (<) (map blk_height bs)"
  shows "invar (fold put bs empty) \<and>
    (\<forall>h. get_by_hash (fold put bs empty) h = (if h \<in> hash ` set bs then Some (inv_into (set bs) hash h) else None)) \<and>
    (\<forall>n b. get_by_height (fold put bs empty) n = Some b \<longleftrightarrow> b \<in> set bs \<and> blk_height b = n)"
  using assms
proof (induction bs rule: rev_induct)
  case Nil
  then show ?case by (simp add: invar_empty hash_empty height_empty)
next
  case (snoc b bs)
  let ?s = "fold put bs empty"
  from snoc.prems have fresh: "b \<notin> set bs" and heights: "\<forall>c \<in> set bs. blk_height c < blk_height b"
    by (auto simp: sorted_wrt_append)
  from snoc have IH: "invar ?s" "get_by_height ?s n = Some c \<longleftrightarrow> c \<in> set bs \<and> blk_height c = n"
    and IH2: "get_by_hash ?s h = (if h \<in> hash ` set bs then Some (inv_into (set bs) hash h) else None)" for n c h
    by (auto simp: sorted_wrt_append)
  from snoc.prems(2) fresh have "hash b \<notin> hash ` set bs" by (auto simp: inj_on_def)
  then have new: "get_by_hash ?s (hash b) = None" by (simp add: IH2)
  have inj: "inv_into (set (bs @ [b])) hash (hash c) = c" if "c \<in> set (bs @ [b])" for c
    using snoc.prems(2) that by (rule inv_into_f_f)
  have inj': "inv_into (set bs) hash (hash c) = c" if "c \<in> set bs" for c
    using snoc.prems(2) that by (intro inv_into_f_f) (auto simp: inj_on_def)
  have "get_by_hash (put b ?s) h = (if h \<in> hash ` set (bs @ [b]) then Some (inv_into (set (bs @ [b])) hash h) else None)" for h
    using snoc.prems(1) inj inj' by (auto simp: hash_put IH(1) IH2)
  moreover have "get_by_height (put b ?s) n = Some c \<longleftrightarrow> c \<in> set (bs @ [b]) \<and> blk_height c = n" for n c
    using snoc.prems(1) heights by (auto simp: height_put [OF IH(1) _] new IH(2))
  moreover have "invar (put b ?s)" using snoc.prems(1) by (simp add: invar_put IH(1) new)
  ultimately show ?case by simp
qed

lemma iter_put_all:
  assumes "\<forall>b \<in> set bs. ok b" "inj_on hash (set bs)" "sorted_wrt (<) (map blk_height bs)"
  shows "iter_from (fold put bs empty) 0 = bs"
proof -
  note all = put_all [OF assms]
  from all have set: "set (iter_from (fold put bs empty) 0) = set bs" by (simp add: iter_set)
  from all have "sorted_wrt (<) (map blk_height (iter_from (fold put bs empty) 0))" by (simp add: iter_sorted)
  moreover have "inj_on blk_height (set bs)"
    using assms(3) by (simp add: strict_sorted_iff distinct_map)
  ultimately show ?thesis
    using assms(3) set
    by (intro map_sorted_distinct_set_unique [of blk_height]) (simp_all add: strict_sorted_iff)
qed

end

subsection \<open>The in-memory store keeps the contract\<close>

definition BlockStore_invar :: "(bytes \<Rightarrow> bytes) \<Rightarrow> InMemoryBlockStore \<Rightarrow> bool" where
  "BlockStore_invar H s \<longleftrightarrow> bt_invar (by_height s) \<and> hm_invar (by_hash s) \<and>
     (\<forall>h b. map_get (by_hash s) h = Some b \<longrightarrow> Block_hash H b = h) \<and>
     (\<forall>n h. map_get (by_height s) n = Some h \<longrightarrow> (\<exists>b. map_get (by_hash s) h = Some b \<and> blk_height b = n))"

lemma iter_eq_map:
  assumes "\<forall>e \<in> set es. map_get m (snd e) \<noteq> None"
  shows "List.map_filter (\<lambda>e. map_get m (snd e)) es = map (\<lambda>e. the (map_get m (snd e))) es"
  using assms by (induction es) (auto simp: List.map_filter_simps)

lemma BlockStore_iter_eq:
  assumes "BlockStore_invar H s"
  shows "BlockStore_iter_from s from =
    map (\<lambda>e. the (map_get (by_hash s) (snd e))) (filter (\<lambda>e. from \<le> fst e) (by_height s))"
proof -
  from assms have "map_get (by_hash s) (snd e) \<noteq> None" if "e \<in> set (by_height s)" for e
    using that bt.iter_iff_get [of "by_height s" "fst e" "snd e"] by (fastforce simp: BlockStore_invar_def)
  then show ?thesis unfolding BlockStore_iter_from_def by (intro iter_eq_map) auto
qed

lemma BlockStore_heights:
  assumes "BlockStore_invar H s"
  shows "map blk_height (BlockStore_iter_from s from) = filter (\<lambda>n. from \<le> n) (map fst (by_height s))"
proof -
  from assms have "blk_height (the (map_get (by_hash s) (snd e))) = fst e" if "e \<in> set (by_height s)" for e
    using that bt.iter_iff_get [of "by_height s" "fst e" "snd e"] by (fastforce simp: BlockStore_invar_def)
  then show ?thesis by (auto simp: BlockStore_iter_eq [OF assms] filter_map o_def)
qed

lemma BlockStore_iter_set:
  assumes "BlockStore_invar H s"
  shows "set (BlockStore_iter_from s from) =
    {b. from \<le> blk_height b \<and> BlockStore_get_by_height s (blk_height b) = Some b}" (is "?L = ?R")
proof -
  from assms have bt: "bt_invar (by_height s)" by (simp add: BlockStore_invar_def)
  have ptr: "\<exists>b. map_get (by_hash s) h = Some b \<and> blk_height b = n" if "map_get (by_height s) n = Some h" for n h
    using assms that by (simp add: BlockStore_invar_def)
  have "b \<in> ?L \<longleftrightarrow> b \<in> ?R" for b
  proof -
    have "b \<in> ?L \<longleftrightarrow> (\<exists>n h. map_get (by_height s) n = Some h \<and> from \<le> n \<and> map_get (by_hash s) h = Some b)"
      using bt.iter_iff_get [OF bt] ptr by (force simp: BlockStore_iter_from_def List.map_filter_def)
    also have "\<dots> \<longleftrightarrow> b \<in> ?R"
      using ptr by (fastforce simp: BlockStore_get_by_height_def split: option.splits)
    finally show ?thesis .
  qed
  then show ?thesis by blast
qed

lemma BlockStore_put_invar:
  assumes "BlockStore_invar H s" "BlockStore_get_by_hash s (Block_hash H b) \<in> {None, Some b}"
  shows "BlockStore_invar H (BlockStore_put H b s)"
proof -
  from assms(1) have inv: "bt_invar (by_height s)" "hm_invar (by_hash s)"
    and hash: "\<And>h c. map_get (by_hash s) h = Some c \<Longrightarrow> Block_hash H c = h"
    and ptr: "\<And>n h. map_get (by_height s) n = Some h \<Longrightarrow> \<exists>c. map_get (by_hash s) h = Some c \<and> blk_height c = n"
    by (simp_all add: BlockStore_invar_def)
  have "\<exists>c. map_get (by_hash (BlockStore_put H b s)) h = Some c \<and> blk_height c = n"
    if "map_get (by_height (BlockStore_put H b s)) n = Some h" for n h
  proof (cases "n = blk_height b")
    case True
    with that show ?thesis by (simp add: BlockStore_put_def Let_def)
  next
    case False
    with that have "map_get (by_height s) n = Some h" by (simp add: BlockStore_put_def Let_def)
    from ptr [OF this] obtain c where "map_get (by_hash s) h = Some c" "blk_height c = n" by blast
    with assms(2) show ?thesis by (cases "h = Block_hash H b") (simp_all add: BlockStore_put_def Let_def BlockStore_get_by_hash_def)
  qed
  moreover have "Block_hash H c = h" if "map_get (by_hash (BlockStore_put H b s)) h = Some c" for h c
    using that hash by (simp add: BlockStore_put_def Let_def split: if_splits)
  moreover have "bt_invar (by_height (BlockStore_put H b s))" "hm_invar (by_hash (BlockStore_put H b s))"
    using inv by (simp_all add: BlockStore_put_def Let_def)
  ultimately show ?thesis unfolding BlockStore_invar_def by blast
qed

interpretation mem: block_store "BlockStore_invar H" "\<lambda>_. True" "Block_hash H" BlockStore_new "BlockStore_put H"
    BlockStore_get_by_hash BlockStore_get_by_height BlockStore_iter_from for H
proof (unfold_locales, goal_cases)
  case 1
  show ?case by (simp add: BlockStore_invar_def BlockStore_new_def bt_invar_def hm_invar_def)
next
  case (2 s b)
  then show ?case by (intro BlockStore_put_invar) simp_all
next
  case (6 s b n)
  then have "BlockStore_get_by_hash s (Block_hash H b) \<in> {None, Some b}" by simp
  then show ?case
  proof (cases "map_get (by_height s) n")
    case (Some h)
    with 6(1) have "map_get (by_hash s) h \<noteq> None" unfolding BlockStore_invar_def by blast
    with 6(3) Some show ?thesis
      by (cases "h = Block_hash H b")
        (auto simp: BlockStore_put_def Let_def BlockStore_get_by_hash_def BlockStore_get_by_height_def)
  qed (simp add: BlockStore_put_def Let_def BlockStore_get_by_height_def)
next
  case (7 s lo)
  then show ?case by (rule BlockStore_iter_set)
next
  case (8 s lo)
  then have "sorted_wrt (<) (map fst (by_height s))" by (simp add: BlockStore_invar_def bt_invar_def)
  with 8 show ?case by (simp add: BlockStore_heights sorted_wrt_filter)
qed (simp_all add: BlockStore_new_def BlockStore_get_by_hash_def BlockStore_get_by_height_def BlockStore_put_def Let_def)

section \<open>Replay\<close>

datatype RecoveryError =
    Storage BlockStoreError
  | ParentHashMismatch u64 BlockHash BlockHash
  | StateRootMismatch u64 Commitment Commitment
  | HeightGap u64 u64

text \<open>The loop over \<open>(from..).zip(blocks)\<close>; \<open>k\<close> counts the executed blocks and selects the schedule.\<close>

fun replay_blocks ::
  "(bytes \<Rightarrow> bytes) \<Rightarrow> (nat \<Rightarrow> nat \<Rightarrow> nat list) \<Rightarrow> ContractRegistry \<Rightarrow> nat \<Rightarrow> u64 \<Rightarrow> BlockHash \<Rightarrow> Block list \<Rightarrow>
   State \<Rightarrow> ((RecoveryError + unit) \<times> State) option" where
  "replay_blocks H sched reg k expected prev [] st = Some (Inr (), st)"
| "replay_blocks H sched reg k expected prev (b # bs) st =
     (if blk_height b \<noteq> expected then Some (Inl (HeightGap expected (blk_height b)), st)
      else if blk_parent b \<noteq> prev then Some (Inl (ParentHashMismatch (blk_height b) (blk_parent b) prev), st)
      else case BlockExecutor_execute_with_registry H (sched k) st (blk_intents b) reg of
        None \<Rightarrow> None
      | Some (report, st1) \<Rightarrow>
          if state_root report \<noteq> blk_state_root b
          then Some (Inl (StateRootMismatch (blk_height b) (blk_state_root b) (state_root report)), st1)
          else let live_root = StateTree_root H (StateTree_from_state st1) in
            if live_root \<noteq> blk_state_root b
            then Some (Inl (StateRootMismatch (blk_height b) (blk_state_root b) live_root), st1)
            else replay_blocks H sched reg (Suc k) (expected + 1) (Block_hash H b) bs st1)"

definition replay ::
  "(bytes \<Rightarrow> bytes) \<Rightarrow> (nat \<Rightarrow> nat \<Rightarrow> nat list) \<Rightarrow> dyn_BlockStore \<Rightarrow> State \<Rightarrow> ContractRegistry \<Rightarrow> u64 \<Rightarrow>
   ((RecoveryError + unit) \<times> State) option" where
  "replay H sched s st reg from =
     (case dyn_iter_from s from of
        Inl e \<Rightarrow> Some (Inl (Storage e), st)
      | Inr blocks \<Rightarrow>
          if from = 0 then replay_blocks H sched reg 0 from GENESIS_PARENT blocks st
          else case dyn_get_by_height s (from - 1) of
                 Inl e \<Rightarrow> Some (Inl (Storage e), st)
               | Inr None \<Rightarrow> replay_blocks H sched reg 0 from GENESIS_PARENT blocks st
               | Inr (Some b) \<Rightarrow> replay_blocks H sched reg 0 from (Block_hash H b) blocks st)"

section \<open>Soundness: what a successful replay has checked\<close>

text \<open>
  A chain from a height and a parent hash: contiguous heights, each block naming the one before it.
\<close>

fun chain_ok :: "(bytes \<Rightarrow> bytes) \<Rightarrow> u64 \<Rightarrow> BlockHash \<Rightarrow> Block list \<Rightarrow> bool" where
  "chain_ok H h prev [] = True"
| "chain_ok H h prev (b # bs) \<longleftrightarrow>
     blk_height b = h \<and> blk_parent b = prev \<and> chain_ok H (h + 1) (Block_hash H b) bs"

lemma replay_blocks_chain:
  "replay_blocks H sched reg k h prev bs st = Some (Inr (), st') \<Longrightarrow> chain_ok H h prev bs"
proof (induction bs arbitrary: k h prev st)
  case (Cons b bs)
  then show ?case by (auto simp: Let_def split: if_splits option.splits prod.splits)
qed simp

lemma replay_blocks_root:
  "replay_blocks H sched reg k h prev bs st = Some (Inr (), st') \<Longrightarrow> bs \<noteq> [] \<Longrightarrow>
   StateTree_root H (StateTree_from_state st') = blk_state_root (last bs)"
proof (induction bs arbitrary: k h prev st)
  case (Cons b bs)
  show ?case
  proof (cases "bs = []")
    case True
    with Cons.prems show ?thesis by (auto simp: Let_def split: if_splits option.splits prod.splits)
  next
    case False
    with Cons show ?thesis by (auto simp: Let_def split: if_splits option.splits prod.splits)
  qed
qed simp

lemma replay_blocks_supply:
  "replay_blocks H sched reg k h prev bs st = Some (r, st') \<Longrightarrow> State_invar st \<Longrightarrow>
   State_invar st' \<and> State_supply st' = State_supply st"
proof (induction bs arbitrary: k h prev st)
  case (Cons b bs)
  obtain report st1 where ex: "BlockExecutor_execute_with_registry H (sched k) st (blk_intents b) reg = Some (report, st1)"
    using block_returns [of H "sched k" st "blk_intents b" reg] by blast
  from block_exit [OF ex] Cons.prems(2) have inv: "State_invar st1" by (auto simp: consolidate_invar)
  from block_returns [of H "sched k" st "blk_intents b" reg, unfolded ex]
  have "\<And>a. bal st1 a = bal (snd (serial_block st reg st (blk_intents b))) a" by (auto dest: fun_cong)
  with serial_block_supply [OF Cons.prems(2), of st reg "blk_intents b"] inv
  have "State_supply st1 = State_supply st" by (auto dest: supply_cong)
  with Cons inv ex show ?case by (auto simp: Let_def split: if_splits)
qed simp

lemma replay_blocks_returns: "\<exists>r st'. replay_blocks H sched reg k h prev bs st = Some (r, st')"
proof (induction bs arbitrary: k h prev st)
  case (Cons b bs)
  obtain report st1 where "BlockExecutor_execute_with_registry H (sched k) st (blk_intents b) reg = Some (report, st1)"
    using block_returns [of H "sched k" st "blk_intents b" reg] by blast
  with Cons show ?case by (auto simp: Let_def)
qed simp

text \<open>What the loop of \<open>replay\<close> starts from: the stored blocks and the hash of the block below.\<close>

definition replay_start :: "(bytes \<Rightarrow> bytes) \<Rightarrow> dyn_BlockStore \<Rightarrow> u64 \<Rightarrow> (BlockHash \<times> Block list) option" where
  "replay_start H s from =
     (case (dyn_iter_from s from, if from = 0 then Inr None else dyn_get_by_height s (from - 1)) of
        (Inr blocks, Inr below) \<Rightarrow> Some (case below of None \<Rightarrow> GENESIS_PARENT | Some b \<Rightarrow> Block_hash H b, blocks)
      | _ \<Rightarrow> None)"

lemma replay_start_None:
  "replay_start H s from = None \<Longrightarrow> \<exists>e. replay H sched s st reg from = Some (Inl (Storage e), st)"
  by (auto simp: replay_start_def replay_def split: sum.splits if_splits option.splits)

lemma replay_start_Some:
  "replay_start H s from = Some (prev, blocks) \<Longrightarrow>
   replay H sched s st reg from = replay_blocks H sched reg 0 from prev blocks st"
  by (auto simp: replay_start_def replay_def split: sum.splits if_splits option.splits)

text \<open>
  C26: over any block store, replay returns. If it succeeds it has walked a chain: the blocks at and
  above the start height are contiguous, the first names the block stored below (or the genesis
  parent), each other names the hash of the one before it, and the root of the resulting state is the
  root the last block records. Even a replay that stops with an error has neither created nor
  destroyed value.
\<close>

theorem replay_sound:
  assumes "State_invar st"
  shows "\<exists>r st'. replay H sched s st reg from = Some (r, st') \<and> State_invar st' \<and> State_supply st' = State_supply st \<and>
    (r = Inr () \<longrightarrow> (\<exists>prev blocks. replay_start H s from = Some (prev, blocks) \<and> chain_ok H from prev blocks \<and>
       (blocks \<noteq> [] \<longrightarrow> StateTree_root H (StateTree_from_state st') = blk_state_root (last blocks))))"
proof (cases "replay_start H s from")
  case None
  with replay_start_None [OF None, of sched st reg] assms show ?thesis by auto
next
  case (Some p)
  obtain prev blocks where p: "p = (prev, blocks)" by (cases p)
  obtain r st' where run: "replay_blocks H sched reg 0 from prev blocks st = Some (r, st')"
    using replay_blocks_returns by blast
  note start = replay_start_Some [OF Some [unfolded p], of sched st reg]
  have "r = Inr () \<Longrightarrow> chain_ok H from prev blocks \<and>
     (blocks \<noteq> [] \<longrightarrow> StateTree_root H (StateTree_from_state st') = blk_state_root (last blocks))"
    using run replay_blocks_chain replay_blocks_root by blast
  with Some p start run replay_blocks_supply [OF run assms] show ?thesis by auto
qed

definition stored_block :: Block where
  "stored_block = \<lparr>blk_height = 0, blk_parent = GENESIS_PARENT,
     blk_state_root = state_root (fst (occ_run interleaved)), blk_intents = occ_block\<rparr>"

definition stored :: dyn_BlockStore where
  "stored = InMemory_dyn (BlockStore_put (\<lambda>_. []) stored_block BlockStore_new)"

lemma replay_stored_ok:
  "map_option (\<lambda>(r, st). r = Inr ()) (replay (\<lambda>_. []) (\<lambda>_. in_order) stored occ_state ContractRegistry_new 0) = Some True"
  by code_simp

theorem replay_sound_witness:
  "\<exists>st'. replay (\<lambda>_. []) (\<lambda>_. in_order) stored occ_state ContractRegistry_new 0 = Some (Inr (), st') \<and>
     State_supply st' = State_supply occ_state \<and>
     (\<exists>prev blocks. replay_start (\<lambda>_. []) stored 0 = Some (prev, blocks) \<and> chain_ok (\<lambda>_. []) 0 prev blocks)"
  using replay_sound [OF occ_state_invar, of "\<lambda>_. []" "\<lambda>_. in_order" stored ContractRegistry_new 0] replay_stored_ok
  by auto

section \<open>Completeness: an honest chain replays\<close>

text \<open>Producing blocks live: execute, record the root, link to the previous block.\<close>

fun produce ::
  "(bytes \<Rightarrow> bytes) \<Rightarrow> (nat \<Rightarrow> nat \<Rightarrow> nat list) \<Rightarrow> ContractRegistry \<Rightarrow> nat \<Rightarrow> u64 \<Rightarrow> BlockHash \<Rightarrow> State \<Rightarrow>
   Intent list list \<Rightarrow> (Block list \<times> State) option" where
  "produce H sched reg k h prev st [] = Some ([], st)"
| "produce H sched reg k h prev st (intents # rest) =
     (case BlockExecutor_execute_with_registry H (sched k) st intents reg of
        None \<Rightarrow> None
      | Some (report, st1) \<Rightarrow>
          let b = \<lparr>blk_height = h, blk_parent = prev, blk_state_root = state_root report, blk_intents = intents\<rparr>
          in map_option (\<lambda>(bs, st'). (b # bs, st'))
               (produce H sched reg (Suc k) (h + 1) (Block_hash H b) st1 rest))"

definition wf_state :: "State \<Rightarrow> bool" where
  "wf_state st \<longleftrightarrow> State_invar st \<and> (\<forall>e \<in> set (State_entries st). wf_addr (fst e))"

lemma block_step_wf:
  assumes "BlockExecutor_execute_with_registry H sched st block reg = Some (rep, st')" "wf_state st"
    and "\<forall>i \<in> set block. intent_addrs_wf i" "registry_addrs_wf reg"
  shows "wf_state st'"
proof -
  from block_exit [OF assms(1)] assms(2) have "State_invar st'" by (auto simp: wf_state_def consolidate_invar)
  with block_entries_wf [OF assms(1) _ _ assms(3,4)] assms(2) show ?thesis by (simp add: wf_state_def)
qed

lemma replay_produced:
  assumes "produce H sched reg k h prev st intentss = Some (bs, st1)"
    and "registry_respects reg" "registry_addrs_wf reg" "\<forall>is \<in> set intentss. \<forall>i \<in> set is. intent_addrs_wf i"
    and "wf_state st" "wf_state t" "state_sim st t"
  shows "\<exists>t1. replay_blocks H sched' reg k h prev bs t = Some (Inr (), t1) \<and> state_sim st1 t1"
  using assms
proof (induction intentss arbitrary: k h prev st t bs)
  case Nil
  then show ?case by auto
next
  case (Cons intents rest)
  obtain report s1 where live: "BlockExecutor_execute_with_registry H (sched k) st intents reg = Some (report, s1)"
    using block_returns [of H "sched k" st intents reg] by blast
  obtain report' t1 where rep: "BlockExecutor_execute_with_registry H (sched' k) t intents reg = Some (report', t1)"
    using block_returns [of H "sched' k" t intents reg] by blast
  let ?b = "\<lparr>blk_height = h, blk_parent = prev, blk_state_root = state_root report, blk_intents = intents\<rparr>"
  from Cons.prems(1) live obtain bs' where bs: "bs = ?b # bs'"
    and rest: "produce H sched reg (Suc k) (h + 1) (Block_hash H ?b) s1 rest = Some (bs', st1)"
    by (auto simp: Let_def)
  have sim: "state_sim s1 t1"
    using block_sim(1) [OF live rep same_programs_sim [OF Cons.prems(2,7)] Cons.prems(7)] .
  have wf: "wf_state s1" "wf_state t1"
    using block_step_wf [OF live Cons.prems(5)] block_step_wf [OF rep Cons.prems(6)] Cons.prems(3,4) by auto
  from wf have "StateTree_from_state s1 = StateTree_from_state t1"
    using from_state_cong [of s1 t1] sim_entries [OF sim] by (simp add: wf_state_def)
  then have roots: "state_root report' = state_root report" "StateTree_root H (StateTree_from_state t1) = state_root report"
    using block_returns [of H "sched k" st intents reg] block_returns [of H "sched' k" t intents reg] live rep by auto
  from Cons.IH [OF rest Cons.prems(2,3) _ wf sim] Cons.prems(4)
  obtain t2 where "replay_blocks H sched' reg (Suc k) (h + 1) (Block_hash H ?b) bs' t1 = Some (Inr (), t2)" "state_sim st1 t2"
    by auto
  with rep roots show ?case by (auto simp: bs Let_def)
qed

lemma produce_returns: "\<exists>bs st1. produce H sched reg k h prev st intentss = Some (bs, st1) \<and> length bs = length intentss"
proof (induction intentss arbitrary: k h prev st)
  case (Cons intents rest)
  obtain report s1 where live: "BlockExecutor_execute_with_registry H (sched k) st intents reg = Some (report, s1)"
    using block_returns [of H "sched k" st intents reg] by blast
  let ?b = "\<lparr>blk_height = h, blk_parent = prev, blk_state_root = state_root report, blk_intents = intents\<rparr>"
  obtain bs st1 where "produce H sched reg (Suc k) (h + 1) (Block_hash H ?b) s1 rest = Some (bs, st1)" "length bs = length rest"
    using Cons.IH by blast
  with live show ?case by (auto simp: Let_def)
qed simp

lemma produce_chain:
  "produce H sched reg k h prev st intentss = Some (bs, st1) \<Longrightarrow> chain_ok H h prev bs"
proof (induction intentss arbitrary: k h prev st bs)
  case (Cons intents rest)
  then show ?case by (auto simp: Let_def split: option.splits prod.splits)
qed simp

lemma chain_heights:
  "chain_ok H h prev bs \<Longrightarrow> unat h + length bs \<le> 2 ^ 64 \<Longrightarrow>
   sorted_wrt (<) (map blk_height bs) \<and> (\<forall>b \<in> set bs. h \<le> blk_height b)"
proof (induction bs arbitrary: h prev)
  case (Cons b bs)
  show ?case
  proof (cases "bs = []")
    case True
    with Cons.prems show ?thesis by auto
  next
    case False
    then have "0 < length bs" by simp
    with Cons.prems(2) have "unat h + 1 < 2 ^ 64" by (simp only: list.size)
    then have inc: "unat (h + 1) = unat h + 1" by (simp add: unat_word_ariths)
    then have lt: "h < h + 1" by (simp add: word_less_nat_alt)
    from Cons.prems inc have "sorted_wrt (<) (map blk_height bs) \<and> (\<forall>c \<in> set bs. h + 1 \<le> blk_height c)"
      by (intro Cons.IH [of "h + 1" "Block_hash H b"]) auto
    with Cons.prems(1) lt show ?thesis by (auto intro: less_le_trans less_imp_le)
  qed
qed simp

lemma preimage_height:
  assumes "block_preimage b = block_preimage c"
  shows "blk_height b = blk_height c"
proof -
  from assms have "to_be_bytes (blk_height b) @ drop 28 (block_preimage b) = to_be_bytes (blk_height c) @ drop 28 (block_preimage c)"
    by (simp add: block_preimage_def ascii_def)
  with assms have "to_be_bytes (blk_height b) = to_be_bytes (blk_height c)" by simp
  then show ?thesis using be64.enc_dec [of "blk_height b" "[]"] be64.enc_dec [of "blk_height c" "[]"] by simp
qed

lemma chain_distinct:
  assumes "chain_ok H 0 prev bs" "length bs \<le> 2 ^ 64" "inj_on H (block_preimage ` set bs)"
  shows "inj_on (Block_hash H) (set bs)" "sorted_wrt (<) (map blk_height bs)"
proof -
  show sorted: "sorted_wrt (<) (map blk_height bs)" using chain_heights [OF assms(1)] assms(2) by simp
  then have "inj_on blk_height (set bs)" by (simp add: strict_sorted_iff distinct_map)
  moreover have "blk_height b = blk_height c" if "b \<in> set bs" "c \<in> set bs" "Block_hash H b = Block_hash H c" for b c
  proof (rule preimage_height, rule inj_onD [OF assms(3)])
    from that(3) show "H (block_preimage b) = H (block_preimage c)" by (simp add: Block_hash_def)
  qed (use that in simp_all)
  ultimately show "inj_on (Block_hash H) (set bs)" by (meson inj_onI inj_onD)
qed

lemma chain_stored:
  assumes "chain_ok H 0 prev bs" "length bs \<le> 2 ^ 64" "inj_on H (block_preimage ` set bs)"
  shows "BlockStore_iter_from (fold (BlockStore_put H) bs BlockStore_new) 0 = bs"
  using chain_distinct [OF assms] by (simp add: mem.iter_put_all)

lemma BlockStore_latest_eq:
  assumes "BlockStore_invar H s"
  shows "BlockStore_latest s = (if BlockStore_iter_from s 0 = [] then None else Some (last (BlockStore_iter_from s 0)))"
proof (cases "by_height s = []")
  case True
  then show ?thesis by (simp add: BlockStore_latest_def next_back_def BlockStore_iter_eq [OF assms])
next
  case False
  obtain n h where e: "last (by_height s) = (n, h)" by (cases "last (by_height s)")
  from False e have "(n, h) \<in> set (by_height s)" using last_in_set by metis
  with assms have "map_get (by_height s) n = Some h" by (simp add: BlockStore_invar_def bt.iter_iff_get)
  with assms obtain b where "map_get (by_hash s) h = Some b" unfolding BlockStore_invar_def by blast
  with False e show ?thesis
    by (simp add: BlockStore_latest_def next_back_def BlockStore_iter_eq [OF assms] last_map)
qed

lemma BlockStore_len_eq:
  assumes "BlockStore_invar H s" "\<And>h. map_get (by_hash s) h \<noteq> None \<longleftrightarrow> h \<in> A"
  shows "BlockStore_len s = card A"
proof -
  from assms(1) have "distinct (map fst (by_hash s))" by (simp add: BlockStore_invar_def hm_invar_def)
  then have "BlockStore_len s = card (fst ` set (by_hash s))"
    by (metis BlockStore_len_def distinct_card length_map set_map)
  also have "fst ` set (by_hash s) = A" using assms(2) by (force simp: map_get_def map_of_eq_None_iff)
  finally show ?thesis .
qed

text \<open>
  The block store returns what was put: after storing a chain from height 0, every block is found
  by its hash and by its height, iteration yields the blocks in height order, the latest is the last
  one and the count is their number. The digest must not collide on the stored blocks.
\<close>

theorem block_store_chain:
  assumes "chain_ok H 0 prev bs" "length bs \<le> 2 ^ 64" "inj_on H (block_preimage ` set bs)"
    and "s = fold (BlockStore_put H) bs BlockStore_new"
  shows "BlockStore_iter_from s 0 = bs \<and> BlockStore_len s = length bs \<and>
    BlockStore_latest s = (if bs = [] then None else Some (last bs)) \<and>
    (\<forall>n b. BlockStore_get_by_height s n = Some b \<longleftrightarrow> b \<in> set bs \<and> blk_height b = n) \<and>
    (\<forall>b \<in> set bs. BlockStore_get_by_hash s (Block_hash H b) = Some b)"
proof -
  note distinct = chain_distinct [OF assms(1-3)]
  note all = mem.put_all [where H = H, OF _ distinct, folded assms(4), simplified]
  note iter = chain_stored [OF assms(1-3), folded assms(4)]
  from all have "BlockStore_len s = card (Block_hash H ` set bs)"
    by (intro BlockStore_len_eq) (auto simp: BlockStore_get_by_hash_def split: if_splits)
  also have "\<dots> = card (set bs)" by (rule card_image [OF distinct(1)])
  also have "\<dots> = length bs"
    using distinct(2) by (simp add: strict_sorted_iff distinct_map distinct_card)
  finally have len: "BlockStore_len s = length bs" .
  from all have "BlockStore_latest s = (if bs = [] then None else Some (last bs))"
    using BlockStore_latest_eq [of H s] by (simp add: iter)
  with iter len all distinct(1) show ?thesis by auto
qed

theorem block_store_chain_witness:
  "BlockStore_latest (fold (BlockStore_put (\<lambda>bs. bs)) [genesis_block] BlockStore_new) = Some genesis_block"
proof -
  have "chain_ok (\<lambda>bs. bs) 0 GENESIS_PARENT [genesis_block]" by (simp add: genesis_block_def)
  from block_store_chain [OF this _ _ refl] show ?thesis by simp
qed

lemma replay_of_produced:
  assumes "produce H sched reg 0 0 GENESIS_PARENT st intentss = Some (blocks, live)"
    and "s = fold (BlockStore_put H) blocks BlockStore_new"
    and "inj_on H (block_preimage ` set blocks)" "length intentss \<le> 2 ^ 64"
    and "registry_respects reg" "registry_addrs_wf reg" "\<forall>is \<in> set intentss. \<forall>i \<in> set is. intent_addrs_wf i"
    and "wf_state st"
  shows "\<exists>recovered. replay H sched' (InMemory_dyn s) st reg 0 = Some (Inr (), recovered) \<and> state_eq live recovered \<and>
    (blocks \<noteq> [] \<longrightarrow> StateTree_root H (StateTree_from_state recovered) = blk_state_root (last blocks))"
proof -
  from produce_returns [of H sched reg 0 0 GENESIS_PARENT st intentss] assms(1)
  have len: "length blocks = length intentss" by auto
  then have iter: "BlockStore_iter_from s 0 = blocks"
    using chain_stored [OF produce_chain [OF assms(1)]] assms(2-4) by simp
  obtain t where t: "replay_blocks H sched' reg 0 0 GENESIS_PARENT blocks st = Some (Inr (), t)" "state_sim live t"
    using replay_produced [OF assms(1,5,6,7,8,8)] by auto
  then have "replay H sched' (InMemory_dyn s) st reg 0 = Some (Inr (), t)"
    by (simp add: replay_def InMemory_dyn_def iter)
  with t sim_state_eq replay_blocks_root [OF t(1)] show ?thesis by blast
qed

text \<open>
  Recovery reproduces the live run. Blocks produced one after the other from a state, under any
  schedules, and put into the store in that order, are replayed from height 0 under any other
  schedules without an error, and the recovered state agrees with the live one in every slot, blob
  and in its root. The digest must not collide on the produced blocks.
\<close>

theorem replay_reproduces:
  assumes "produce H sched reg 0 0 GENESIS_PARENT st intentss = Some (blocks, live)"
    and "s = fold (BlockStore_put H) blocks BlockStore_new"
    and "inj_on H (block_preimage ` set blocks)" "length intentss \<le> 2 ^ 64"
    and "registry_respects reg" "registry_addrs_wf reg" "\<forall>is \<in> set intentss. \<forall>i \<in> set is. intent_addrs_wf i"
    and "wf_state st"
  shows "\<exists>recovered. replay H sched' (InMemory_dyn s) st reg 0 = Some (Inr (), recovered) \<and> state_eq live recovered \<and>
    (blocks \<noteq> [] \<longrightarrow> StateTree_root H (StateTree_from_state recovered) = blk_state_root (last blocks))"
  using assms by (rule replay_of_produced)

definition replay_blocks_example :: "Intent list list" where
  "replay_blocks_example = [occ_block, [Transfer (addr_of 3) (addr_of 1) 1], []]"

definition produced :: "Block list \<times> State" where
  "produced = the (produce (\<lambda>bs. bs) (\<lambda>_. interleaved) ContractRegistry_new 0 0 GENESIS_PARENT occ_state replay_blocks_example)"

lemma produced_returns:
  "produce (\<lambda>bs. bs) (\<lambda>_. interleaved) ContractRegistry_new 0 0 GENESIS_PARENT occ_state replay_blocks_example =
     Some (fst produced, snd produced) \<and> length (fst produced) = 3"
  using produce_returns [of "\<lambda>bs. bs" "\<lambda>_. interleaved" ContractRegistry_new 0 0 GENESIS_PARENT occ_state
      replay_blocks_example]
  by (auto simp: produced_def replay_blocks_example_def)

lemma occ_state_addrs: "list_all (\<lambda>e. wf_addr (fst e)) (State_entries occ_state)"
  by code_simp

theorem replay_reproduces_witness:
  "\<exists>recovered. replay (\<lambda>bs. bs) (\<lambda>_. in_order) (InMemory_dyn (fold (BlockStore_put (\<lambda>bs. bs)) (fst produced) BlockStore_new))
     occ_state ContractRegistry_new 0 = Some (Inr (), recovered) \<and> state_eq (snd produced) recovered \<and>
     StateTree_root (\<lambda>bs. bs) (StateTree_from_state recovered) = blk_state_root (last (fst produced))"
proof -
  have "fst produced \<noteq> []" using produced_returns by (metis length_0_conv zero_neq_numeral)
  moreover have "\<forall>is \<in> set replay_blocks_example. \<forall>i \<in> set is. intent_addrs_wf i"
    by (auto simp: replay_blocks_example_def occ_block_def intent_addrs_wf_def)
  moreover have "wf_state occ_state"
    using occ_state_invar occ_state_addrs by (simp add: wf_state_def list_all_iff)
  ultimately show ?thesis
    using replay_reproduces [OF produced_returns [THEN conjunct1] refl _ _ registry_respects_new registry_addrs_wf_new,
        of "\<lambda>_. in_order"]
    by (simp add: inj_on_def replay_blocks_example_def)
qed

end
