(* ===== verification/Redb_Blocks.thy ===== *)
theory Redb_Blocks
  imports Redb Recovery
begin

text \<open>
  The durable block store (\<open>RedbBlockStore\<close> of \<open>suwappudb-bridge/src/recovery/store.rs\<close>) over the
  \<open>redb\<close> parameter of theory \<open>Redb\<close>, its refinement of the in-memory block store, and replay over it.
  Every database error is the value \<open>Backend\<close>.
\<close>

section \<open>The store\<close>

record ('db, 'txn) block_tables =
  blk_db :: "('db, 'txn) redb_db"
  BLOCKS_BY_HASH :: "('txn, bytes, bytes) redb_table"
  HEIGHT_TO_HASH :: "('txn, u64, bytes) redb_table"

definition BlockStoreError_backend :: "redb_error + 'a \<Rightarrow> BlockStoreError + 'a" where
  "BlockStoreError_backend r = (case r of Inl e \<Rightarrow> Inl (Backend e) | Inr x \<Rightarrow> Inr x)"

text \<open>\<open>open\<close>, given whether the path exists and what opening and creating the file return.\<close>

definition RedbBlockStore_open ::
  "('db, 'txn) block_tables \<Rightarrow> bool \<Rightarrow> redb_error + 'db \<Rightarrow> redb_error + 'db \<Rightarrow> BlockStoreError + 'db" where
  "RedbBlockStore_open R path_exists opened created =
     bind_res (BlockStoreError_backend (if path_exists then opened else created)) (\<lambda>db.
     bind_res (BlockStoreError_backend (begin_write (blk_db R) db)) (\<lambda>t.
     bind_res (BlockStoreError_backend (open_table (BLOCKS_BY_HASH R) t)) (\<lambda>t1.
     bind_res (BlockStoreError_backend (open_table (HEIGHT_TO_HASH R) t1)) (\<lambda>t2.
     BlockStoreError_backend (txn_commit (blk_db R) db t2)))))"

definition RedbBlockStore_put :: "(bytes \<Rightarrow> bytes) \<Rightarrow> ('db, 'txn) block_tables \<Rightarrow> 'db \<Rightarrow> Block \<Rightarrow> BlockStoreError + 'db" where
  "RedbBlockStore_put H R db block =
     (let hash = Block_hash H block; encoded = encode_block block
      in bind_res (BlockStoreError_backend (begin_write (blk_db R) db)) (\<lambda>t.
         bind_res (BlockStoreError_backend (open_table (BLOCKS_BY_HASH R) t)) (\<lambda>t1.
         bind_res (BlockStoreError_backend (tbl_insert (BLOCKS_BY_HASH R) t1 (hash_bytes hash) encoded)) (\<lambda>t2.
         bind_res (BlockStoreError_backend (open_table (HEIGHT_TO_HASH R) t2)) (\<lambda>t3.
         bind_res (BlockStoreError_backend (tbl_insert (HEIGHT_TO_HASH R) t3 (blk_height block) (hash_bytes hash))) (\<lambda>t4.
         BlockStoreError_backend (txn_commit (blk_db R) db t4)))))))"

definition RedbBlockStore_get_by_hash :: "('db, 'txn) block_tables \<Rightarrow> 'db \<Rightarrow> BlockHash \<Rightarrow> BlockStoreError + Block option" where
  "RedbBlockStore_get_by_hash R db hash =
     bind_res (BlockStoreError_backend (begin_read (blk_db R) db)) (\<lambda>t.
     bind_res (BlockStoreError_backend (open_table (BLOCKS_BY_HASH R) t)) (\<lambda>t1.
     bind_res (BlockStoreError_backend (tbl_get (BLOCKS_BY_HASH R) t1 (hash_bytes hash))) (\<lambda>v.
     Inr (Option.bind v decode_block))))"

definition RedbBlockStore_get_by_height :: "('db, 'txn) block_tables \<Rightarrow> 'db \<Rightarrow> u64 \<Rightarrow> BlockStoreError + Block option" where
  "RedbBlockStore_get_by_height R db height =
     bind_res (BlockStoreError_backend (begin_read (blk_db R) db)) (\<lambda>t.
     bind_res (BlockStoreError_backend (open_table (HEIGHT_TO_HASH R) t)) (\<lambda>t1.
     bind_res (BlockStoreError_backend (tbl_get (HEIGHT_TO_HASH R) t1 height)) (\<lambda>entry.
       case entry of
         None \<Rightarrow> Inr None
       | Some hash \<Rightarrow>
           bind_res (BlockStoreError_backend (open_table (BLOCKS_BY_HASH R) t1)) (\<lambda>t2.
           bind_res (BlockStoreError_backend (tbl_get (BLOCKS_BY_HASH R) t2 hash)) (\<lambda>v.
           Inr (Option.bind v decode_block))))))"

definition RedbBlockStore_latest :: "('db, 'txn) block_tables \<Rightarrow> 'db \<Rightarrow> BlockStoreError + Block option" where
  "RedbBlockStore_latest R db =
     bind_res (BlockStoreError_backend (begin_read (blk_db R) db)) (\<lambda>t.
     bind_res (BlockStoreError_backend (open_table (HEIGHT_TO_HASH R) t)) (\<lambda>t1.
     bind_res (BlockStoreError_backend (tbl_last (HEIGHT_TO_HASH R) t1)) (\<lambda>entry.
       case entry of
         None \<Rightarrow> Inl (Backend ''missing latest height entry'')
       | Some (_, hash) \<Rightarrow>
           bind_res (BlockStoreError_backend (open_table (BLOCKS_BY_HASH R) t1)) (\<lambda>t2.
           bind_res (BlockStoreError_backend (tbl_get (BLOCKS_BY_HASH R) t2 hash)) (\<lambda>v.
           Inr (Option.bind v decode_block))))))"

definition RedbBlockStore_len :: "('db, 'txn) block_tables \<Rightarrow> 'db \<Rightarrow> BlockStoreError + usize" where
  "RedbBlockStore_len R db =
     bind_res (BlockStoreError_backend (begin_read (blk_db R) db)) (\<lambda>t.
     bind_res (BlockStoreError_backend (open_table (BLOCKS_BY_HASH R) t)) (\<lambda>t1.
     BlockStoreError_backend (tbl_len (BLOCKS_BY_HASH R) t1)))"

text \<open>The loop over the height index: a row, or its block, may fail to read; a block that does not decode is skipped.\<close>

fun read_blocks :: "('db, 'txn) block_tables \<Rightarrow> 'txn \<Rightarrow> (redb_error + u64 \<times> bytes) list \<Rightarrow> BlockStoreError + Block list" where
  "read_blocks R t [] = Inr []"
| "read_blocks R t (row # rows) =
     bind_res (BlockStoreError_backend row) (\<lambda>(_, h).
     bind_res (BlockStoreError_backend (tbl_get (BLOCKS_BY_HASH R) t h)) (\<lambda>v.
     bind_res (read_blocks R t rows) (\<lambda>rest.
     Inr (case Option.bind v decode_block of Some b \<Rightarrow> b # rest | None \<Rightarrow> rest))))"

definition RedbBlockStore_iter_from :: "('db, 'txn) block_tables \<Rightarrow> 'db \<Rightarrow> u64 \<Rightarrow> BlockStoreError + Block list" where
  "RedbBlockStore_iter_from R db lo =
     bind_res (BlockStoreError_backend (begin_read (blk_db R) db)) (\<lambda>t.
     bind_res (BlockStoreError_backend (open_table (HEIGHT_TO_HASH R) t)) (\<lambda>t1.
     bind_res (BlockStoreError_backend (open_table (BLOCKS_BY_HASH R) t1)) (\<lambda>t2.
     bind_res (BlockStoreError_backend (tbl_range (HEIGHT_TO_HASH R) t2 (Some lo))) (\<lambda>rows.
     read_blocks R t2 rows))))"

definition RedbBlockStore_dyn :: "('db, 'txn) block_tables \<Rightarrow> 'db \<Rightarrow> dyn_BlockStore" where
  "RedbBlockStore_dyn R db =
     \<lparr>dyn_get_by_hash = RedbBlockStore_get_by_hash R db,
      dyn_get_by_height = RedbBlockStore_get_by_height R db,
      dyn_latest = RedbBlockStore_latest R db,
      dyn_len = RedbBlockStore_len R db,
      dyn_iter_from = RedbBlockStore_iter_from R db\<rparr>"

section \<open>The contract of the database\<close>

record block_contents =
  c_blocks :: "bytes \<rightharpoonup> bytes"
  c_heights :: "u64 \<rightharpoonup> bytes"

definition block_tables_serve ::
  "('db, 'txn) block_tables \<Rightarrow> ('db \<Rightarrow> block_contents) \<Rightarrow> ('txn \<Rightarrow> block_contents) \<Rightarrow> bool" where
  "block_tables_serve R content view \<longleftrightarrow> db_serves (blk_db R) content view \<and>
     table_serves (BLOCKS_BY_HASH R) view c_blocks (\<lambda>m c. c\<lparr>c_blocks := m\<rparr>) \<and>
     table_serves (HEIGHT_TO_HASH R) view c_heights (\<lambda>m c. c\<lparr>c_heights := m\<rparr>)"

lemma block_tables_serveD:
  assumes "block_tables_serve R content view"
  shows "db_serves (blk_db R) content view"
    and "table_serves (BLOCKS_BY_HASH R) view c_blocks (\<lambda>m c. c\<lparr>c_blocks := m\<rparr>)"
    and "table_serves (HEIGHT_TO_HASH R) view c_heights (\<lambda>m c. c\<lparr>c_heights := m\<rparr>)"
  using assms by (simp_all add: block_tables_serve_def)

lemma backend_simps [simp]:
  "BlockStoreError_backend (Inr x) = Inr x" "BlockStoreError_backend (Inl e) = Inl (Backend e)"
  by (simp_all add: BlockStoreError_backend_def)

text \<open>The tables hold the entries of the in-memory store, blocks in their encoding.\<close>

definition blocks_sim :: "block_contents \<Rightarrow> InMemoryBlockStore \<Rightarrow> bool" where
  "blocks_sim c s \<longleftrightarrow> bt_invar (by_height s) \<and> hm_invar (by_hash s) \<and>
     (\<forall>h b. map_get (by_hash s) h = Some b \<longrightarrow> wf_block b) \<and>
     (\<forall>k. c_blocks c k = map_option encode_block (map_get (by_hash s) (BlockHash k))) \<and>
     (\<forall>n. c_heights c n = map_option hash_bytes (map_get (by_height s) n))"

lemma BlockHash_collapse [simp]: "BlockHash (hash_bytes h) = h"
  by (cases h) simp

lemma blocks_sim_decode:
  assumes "blocks_sim c s"
  shows "Option.bind (c_blocks c (hash_bytes h)) decode_block = map_get (by_hash s) h"
  using assms decode_encode_block by (cases "map_get (by_hash s) h") (auto simp: blocks_sim_def)

lemma redb_put:
  assumes "block_tables_serve R content view" "blocks_sim (content db) s" "wf_block b"
  shows "\<exists>db'. RedbBlockStore_put H R db b = Inr db' \<and> blocks_sim (content db') (BlockStore_put H b s)"
proof -
  note S = block_tables_serveD [OF assms(1)]
  let ?h = "Block_hash H b"
  obtain t where t: "begin_write (blk_db R) db = Inr t" "view t = content db" by (rule serves_write [OF S(1)])
  obtain t1 where t1: "open_table (BLOCKS_BY_HASH R) t = Inr t1" "view t1 = view t" by (rule serves_open [OF S(2)])
  obtain t2 where t2: "tbl_insert (BLOCKS_BY_HASH R) t1 (hash_bytes ?h) (encode_block b) = Inr t2"
    "view t2 = (view t1)\<lparr>c_blocks := (c_blocks (view t1))(hash_bytes ?h \<mapsto> encode_block b)\<rparr>"
    by (rule serves_insert [OF S(2)])
  obtain t3 where t3: "open_table (HEIGHT_TO_HASH R) t2 = Inr t3" "view t3 = view t2" by (rule serves_open [OF S(3)])
  obtain t4 where t4: "tbl_insert (HEIGHT_TO_HASH R) t3 (blk_height b) (hash_bytes ?h) = Inr t4"
    "view t4 = (view t3)\<lparr>c_heights := (c_heights (view t3))(blk_height b \<mapsto> hash_bytes ?h)\<rparr>"
    by (rule serves_insert [OF S(3)])
  obtain db' where db': "txn_commit (blk_db R) db t4 = Inr db'" "content db' = view t4" by (rule serves_commit [OF S(1)])
  have "BlockHash k = ?h \<longleftrightarrow> k = hash_bytes ?h" for k by (metis BlockHash.sel BlockHash_collapse)
  then have "blocks_sim (content db') (BlockStore_put H b s)"
    using assms(2,3)
    by (auto simp: blocks_sim_def db'(2) t4(2) t3(2) t2(2) t1(2) t(2) BlockStore_put_def Let_def
        bt_invar_insert hm_invar_insert split: if_splits)
  with t t1 t2 t3 t4 db' show ?thesis by (auto simp: RedbBlockStore_put_def Let_def)
qed

lemma serves_read_both:
  assumes "block_tables_serve R content view"
  obtains t t1 t2 where "begin_read (blk_db R) db = Inr t" "open_table (HEIGHT_TO_HASH R) t = Inr t1" "view t1 = content db"
    "open_table (BLOCKS_BY_HASH R) t1 = Inr t2" "view t2 = content db"
proof -
  note S = block_tables_serveD [OF assms]
  obtain t where t: "begin_read (blk_db R) db = Inr t" "view t = content db" by (rule serves_read [OF S(1)])
  obtain t1 where t1: "open_table (HEIGHT_TO_HASH R) t = Inr t1" "view t1 = view t" by (rule serves_open [OF S(3)])
  obtain t2 where "open_table (BLOCKS_BY_HASH R) t1 = Inr t2" "view t2 = view t1" by (rule serves_open [OF S(2)])
  with t t1 that show thesis by metis
qed

section \<open>Queries\<close>

lemma redb_get_by_hash:
  assumes "block_tables_serve R content view" "blocks_sim (content db) s"
  shows "RedbBlockStore_get_by_hash R db h = Inr (BlockStore_get_by_hash s h)"
proof -
  note S = block_tables_serveD [OF assms(1)]
  obtain t where t: "begin_read (blk_db R) db = Inr t" "view t = content db" by (rule serves_read [OF S(1)])
  obtain t1 where "open_table (BLOCKS_BY_HASH R) t = Inr t1" "view t1 = view t" by (rule serves_open [OF S(2)])
  with t show ?thesis
    by (simp add: RedbBlockStore_get_by_hash_def BlockStore_get_by_hash_def serves_get [OF S(2)] blocks_sim_decode [OF assms(2)])
qed

lemma redb_get_by_height:
  assumes "block_tables_serve R content view" "blocks_sim (content db) s"
  shows "RedbBlockStore_get_by_height R db n = Inr (BlockStore_get_by_height s n)"
proof -
  note S = block_tables_serveD [OF assms(1)]
  obtain t t1 t2 where t: "begin_read (blk_db R) db = Inr t" "open_table (HEIGHT_TO_HASH R) t = Inr t1" "view t1 = content db"
    "open_table (BLOCKS_BY_HASH R) t1 = Inr t2" "view t2 = content db" by (rule serves_read_both [OF assms(1)])
  have "c_heights (content db) n = map_option hash_bytes (map_get (by_height s) n)" using assms(2) by (simp add: blocks_sim_def)
  with t show ?thesis
    by (cases "map_get (by_height s) n")
      (simp_all add: RedbBlockStore_get_by_height_def BlockStore_get_by_height_def serves_get [OF S(2)] serves_get [OF S(3)]
        blocks_sim_decode [OF assms(2)])
qed

lemma redb_block_len:
  assumes "block_tables_serve R content view" "blocks_sim (content db) s"
  shows "RedbBlockStore_len R db = Inr (BlockStore_len s)"
proof -
  note S = block_tables_serveD [OF assms(1)]
  obtain t where t: "begin_read (blk_db R) db = Inr t" "view t = content db" by (rule serves_read [OF S(1)])
  obtain t1 where t1: "open_table (BLOCKS_BY_HASH R) t = Inr t1" "view t1 = view t" by (rule serves_open [OF S(2)])
  have "dom (c_blocks (content db)) = hash_bytes ` dom (map_of (by_hash s))"
  proof (intro set_eqI iffI)
    fix k assume "k \<in> dom (c_blocks (content db))"
    with assms(2) have "BlockHash k \<in> dom (map_of (by_hash s))" by (auto simp: blocks_sim_def map_get_def)
    then show "k \<in> hash_bytes ` dom (map_of (by_hash s))" by (metis BlockHash.sel image_eqI)
  next
    fix k assume "k \<in> hash_bytes ` dom (map_of (by_hash s))"
    with assms(2) show "k \<in> dom (c_blocks (content db))" by (auto simp: blocks_sim_def map_get_def)
  qed
  moreover have "inj_on hash_bytes A" for A by (auto simp: inj_on_def intro: BlockHash.expand)
  ultimately have "card (dom (c_blocks (content db))) = card (fst ` set (by_hash s))"
    by (simp add: card_image dom_map_of_conv_image_fst)
  also have "\<dots> = length (by_hash s)"
    using assms(2) distinct_card [of "map fst (by_hash s)"] by (simp add: blocks_sim_def hm_invar_def)
  finally show ?thesis using t t1 by (simp add: RedbBlockStore_len_def BlockStore_len_def serves_len [OF S(2)])
qed

lemma read_blocks_eq:
  assumes "block_tables_serve R content view" "blocks_sim (view t) s"
  shows "read_blocks R t (map Inr (map (\<lambda>e. (fst e, hash_bytes (snd e))) es)) =
    Inr (List.map_filter (\<lambda>e. map_get (by_hash s) (snd e)) es)"
  by (induction es)
    (simp_all add: serves_get [OF block_tables_serveD(2) [OF assms(1)]] blocks_sim_decode [OF assms(2)]
      List.map_filter_simps case_prod_unfold split: option.split)

text \<open>Two sorted maps with the same lookups up to a function on the values are the same list up to it.\<close>

lemma bt_map_values:
  assumes "bt_invar es" "bt_invar m" "\<And>k. map_get es k = map_option f (map_get m k)"
  shows "es = map (\<lambda>e. (fst e, f (snd e))) m"
proof (rule bt_map_eqI [OF assms(1)])
  show "bt_invar (map (\<lambda>e. (fst e, f (snd e))) m)" using assms(2) by (simp add: bt_invar_def comp_def)
  show "map_get es = map_get (map (\<lambda>e. (fst e, f (snd e))) m)"
    using assms(3) by (simp add: fun_eq_iff map_get_map)
qed

lemma redb_iter_from:
  assumes "block_tables_serve R content view" "blocks_sim (content db) s"
  shows "RedbBlockStore_iter_from R db lo = Inr (BlockStore_iter_from s lo)"
proof -
  note S = block_tables_serveD [OF assms(1)]
  obtain t t1 t2 where t: "begin_read (blk_db R) db = Inr t" "open_table (HEIGHT_TO_HASH R) t = Inr t1" "view t1 = content db"
    "open_table (BLOCKS_BY_HASH R) t1 = Inr t2" "view t2 = content db" by (rule serves_read_both [OF assms(1)])
  obtain es where es: "tbl_range (HEIGHT_TO_HASH R) t2 (Some lo) = Inr (map Inr es)" "bt_invar es"
    "map_get es = c_heights (view t2) |` {k. \<forall>l. Some lo = Some l \<longrightarrow> l \<le> k}" by (rule serves_range [OF S(3)])
  let ?m = "filter (\<lambda>e. lo \<le> fst e) (by_height s)"
  have sim: "c_heights (content db) n = map_option hash_bytes (map_get (by_height s) n)" "bt_invar (by_height s)" for n
    using assms(2) by (simp_all add: blocks_sim_def)
  have "map_get ?m = map_get (by_height s) |` {k. lo \<le> k}" by (rule map_get_filter)
  then have "map_get es k = map_option hash_bytes (map_get ?m k)" for k
    by (simp add: es(3) t(5) sim(1) restrict_map_def)
  moreover have "bt_invar ?m"
    using sim(2) by (auto simp: bt_invar_def sorted_wrt_map intro: sorted_wrt_filter)
  ultimately have "es = map (\<lambda>e. (fst e, hash_bytes (snd e))) ?m" by (intro bt_map_values [OF es(2)])
  with t es(1) read_blocks_eq [OF assms(1), of t2 s ?m] assms(2) show ?thesis
    by (simp add: RedbBlockStore_iter_from_def BlockStore_iter_from_def)
qed

lemma redb_latest:
  assumes "block_tables_serve R content view" "blocks_sim (content db) s"
  shows "RedbBlockStore_latest R db =
    (if by_height s = [] then Inl (Backend ''missing latest height entry'') else Inr (BlockStore_latest s))"
proof -
  note S = block_tables_serveD [OF assms(1)]
  obtain t t1 t2 where t: "begin_read (blk_db R) db = Inr t" "open_table (HEIGHT_TO_HASH R) t = Inr t1" "view t1 = content db"
    "open_table (BLOCKS_BY_HASH R) t1 = Inr t2" "view t2 = content db" by (rule serves_read_both [OF assms(1)])
  obtain r where r: "tbl_last (HEIGHT_TO_HASH R) t1 = Inr r" "case r of None \<Rightarrow> dom (c_heights (view t1)) = {}
      | Some (k, v) \<Rightarrow> c_heights (view t1) k = Some v \<and> (\<forall>k' \<in> dom (c_heights (view t1)). k' \<le> k)"
    by (rule serves_last [OF S(3)])
  have sim: "c_heights (content db) n = map_option hash_bytes (map_get (by_height s) n)" "bt_invar (by_height s)" for n
    using assms(2) by (simp_all add: blocks_sim_def)
  have dom: "dom (c_heights (content db)) = fst ` set (by_height s)"
    using bt.iter_iff_get [OF sim(2)] by (force simp: sim(1) dom_def)
  show ?thesis
  proof (cases "by_height s = []")
    case True
    with dom have "r = None" using r(2) t(3) by (auto split: option.splits)
    with True t r(1) show ?thesis by (simp add: RedbBlockStore_latest_def)
  next
    case False
    with dom r(2) t(3) obtain n v where nv: "r = Some (n, v)" "c_heights (content db) n = Some v"
      "\<forall>k \<in> fst ` set (by_height s). k \<le> n" by (cases r) auto
    then obtain h where h: "map_get (by_height s) n = Some h" "v = hash_bytes h" by (auto simp: sim(1))
    have "map_get (by_height s) j = None" if "n < j" for j
      using nv(3) that bt.iter_iff_get [OF sim(2), of j] by (cases "map_get (by_height s) j") force+
    with h(1) have "\<exists>v. map_get (by_height s) v = Some h \<and> (\<forall>j > v. map_get (by_height s) j = None)" by blast
    then have "map_option snd (next_back (by_height s)) = Some h" by (rule next_back_sorted [OF sim(2), THEN iffD2])
    then obtain e where "next_back (by_height s) = Some e" "snd e = h" by auto
    with False t r(1) nv(1) h show ?thesis
      by (simp add: RedbBlockStore_latest_def BlockStore_latest_def serves_get [OF S(2)] blocks_sim_decode [OF assms(2)])
  qed
qed

section \<open>Refinement\<close>

fun put_blocks :: "(bytes \<Rightarrow> bytes) \<Rightarrow> ('db, 'txn) block_tables \<Rightarrow> 'db \<Rightarrow> Block list \<Rightarrow> BlockStoreError + 'db" where
  "put_blocks H R db [] = Inr db"
| "put_blocks H R db (b # bs) = bind_res (RedbBlockStore_put H R db b) (\<lambda>db'. put_blocks H R db' bs)"

lemma put_blocks_sim:
  assumes "block_tables_serve R content view"
  shows "blocks_sim (content db) s \<Longrightarrow> \<forall>b \<in> set bs. wf_block b \<Longrightarrow>
    \<exists>db'. put_blocks H R db bs = Inr db' \<and> blocks_sim (content db') (fold (BlockStore_put H) bs s)"
proof (induction bs arbitrary: db s)
  case (Cons b bs)
  from redb_put [OF assms Cons.prems(1), of b H] Cons.prems(2) obtain db1 where
    "RedbBlockStore_put H R db b = Inr db1" "blocks_sim (content db1) (BlockStore_put H b s)" by auto
  with Cons.IH [of db1 "BlockStore_put H b s"] Cons.prems(2) show ?case by auto
qed simp

lemma put_fold_nonempty: "bs \<noteq> [] \<Longrightarrow> by_height (fold (BlockStore_put H) bs s) \<noteq> []"
proof (induction bs rule: rev_induct)
  case (snoc b bs)
  have "map_get (bt_insert (blk_height b) (Block_hash H b) m) (blk_height b) \<noteq> None" for m :: "(u64, BlockHash) btree_map"
    by simp
  then have "bt_insert (blk_height b) (Block_hash H b) m \<noteq> []" for m :: "(u64, BlockHash) btree_map"
    by (metis map_get_Nil)
  then show ?case by (simp add: BlockStore_put_def Let_def)
qed simp

lemma redb_blocks_agree:
  assumes "block_tables_serve R content view" "c_blocks (content db0) = Map.empty" "c_heights (content db0) = Map.empty"
    and "\<forall>b \<in> set bs. wf_block b" "s = fold (BlockStore_put H) bs BlockStore_new"
  shows "\<exists>db. put_blocks H R db0 bs = Inr db \<and>
    (\<forall>h. RedbBlockStore_get_by_hash R db h = Inr (BlockStore_get_by_hash s h)) \<and>
    (\<forall>n. RedbBlockStore_get_by_height R db n = Inr (BlockStore_get_by_height s n)) \<and>
    (\<forall>n. RedbBlockStore_iter_from R db n = Inr (BlockStore_iter_from s n)) \<and>
    RedbBlockStore_len R db = Inr (BlockStore_len s) \<and>
    RedbBlockStore_latest R db =
      (if bs = [] then Inl (Backend ''missing latest height entry'') else Inr (BlockStore_latest s)) \<and>
    (\<forall>sched st reg n. replay H sched (RedbBlockStore_dyn R db) st reg n = replay H sched (InMemory_dyn s) st reg n)"
proof -
  have "blocks_sim (content db0) BlockStore_new"
    using assms(2,3) by (simp add: blocks_sim_def BlockStore_new_def)
  from put_blocks_sim [OF assms(1) this assms(4)] assms(5) obtain db where
    db: "put_blocks H R db0 bs = Inr db" "blocks_sim (content db) s" by auto
  have "by_height s = [] \<longleftrightarrow> bs = []"
    using put_fold_nonempty [of bs H BlockStore_new] by (auto simp: assms(5) BlockStore_new_def)
  with db redb_get_by_hash [OF assms(1) db(2)] redb_get_by_height [OF assms(1) db(2)] redb_iter_from [OF assms(1) db(2)]
    redb_block_len [OF assms(1) db(2)] redb_latest [OF assms(1) db(2)] show ?thesis
    by (simp add: replay_def RedbBlockStore_dyn_def InMemory_dyn_def)
qed

text \<open>
  The durable block store refines the in-memory one. Over a database that behaves as documented and
  does not fail, any well-formed blocks put into an empty database are stored without an error, every
  query then answers as the in-memory store does after the same puts, and replay over the durable store
  gives the result it gives over the in-memory store, from every height and under every schedule. The
  one difference is the latest block of an empty store, which is an error here.
\<close>

theorem redb_blocks_refine:
  assumes "block_tables_serve R content view" "c_blocks (content db0) = Map.empty" "c_heights (content db0) = Map.empty"
    and "\<forall>b \<in> set bs. wf_block b" "s = fold (BlockStore_put H) bs BlockStore_new"
  shows "\<exists>db. put_blocks H R db0 bs = Inr db \<and>
    (\<forall>h. RedbBlockStore_get_by_hash R db h = Inr (BlockStore_get_by_hash s h)) \<and>
    (\<forall>n. RedbBlockStore_get_by_height R db n = Inr (BlockStore_get_by_height s n)) \<and>
    (\<forall>n. RedbBlockStore_iter_from R db n = Inr (BlockStore_iter_from s n)) \<and>
    RedbBlockStore_len R db = Inr (BlockStore_len s) \<and>
    RedbBlockStore_latest R db =
      (if bs = [] then Inl (Backend ''missing latest height entry'') else Inr (BlockStore_latest s)) \<and>
    (\<forall>sched st reg n. replay H sched (RedbBlockStore_dyn R db) st reg n = replay H sched (InMemory_dyn s) st reg n)"
  using assms by (rule redb_blocks_agree)

section \<open>A concrete database\<close>

record fm_blocks =
  f_blocks :: "(bytes, bytes) fmap"
  f_heights :: "(u64, bytes) fmap"

definition fm_blocks_view :: "fm_blocks \<Rightarrow> block_contents" where
  "fm_blocks_view c = \<lparr>c_blocks = fmlookup (f_blocks c), c_heights = fmlookup (f_heights c)\<rparr>"

definition fm_block_tables :: "(fm_blocks, fm_blocks) block_tables" where
  "fm_block_tables =
     \<lparr>blk_db = fm_db, BLOCKS_BY_HASH = fm_table f_blocks (\<lambda>m c. c\<lparr>f_blocks := m\<rparr>),
      HEIGHT_TO_HASH = fm_table f_heights (\<lambda>m c. c\<lparr>f_heights := m\<rparr>)\<rparr>"

lemma fm_block_tables_serve: "block_tables_serve fm_block_tables fm_blocks_view fm_blocks_view"
  unfolding block_tables_serve_def fm_block_tables_def
  by (simp add: fm_db_serves) (intro conjI fm_table_serves; simp add: fm_blocks_view_def)

definition fm_no_blocks :: fm_blocks where
  "fm_no_blocks = \<lparr>f_blocks = fmempty, f_heights = fmempty\<rparr>"

theorem redb_blocks_refine_witness:
  "\<exists>db. put_blocks (\<lambda>bs. bs) fm_block_tables fm_no_blocks [genesis_block] = Inr db \<and>
     RedbBlockStore_get_by_height fm_block_tables db 0 = Inr (Some genesis_block)"
proof -
  have fresh: "c_blocks (fm_blocks_view fm_no_blocks) = Map.empty" "c_heights (fm_blocks_view fm_no_blocks) = Map.empty"
    by (auto simp: fm_blocks_view_def fm_no_blocks_def)
  have wf: "\<forall>b \<in> set [genesis_block]. wf_block b"
    by (simp add: wf_block_def genesis_block_def GENESIS_PARENT_def)
  have height: "blk_height genesis_block = 0" by (simp add: genesis_block_def)
  have "BlockStore_get_by_height (fold (BlockStore_put (\<lambda>bs. bs)) [genesis_block] BlockStore_new) 0 = Some genesis_block"
    using height by (simp add: BlockStore_get_by_height_def BlockStore_put_def BlockStore_new_def Let_def map_get_Cons)
  with redb_blocks_refine [OF fm_block_tables_serve fresh wf refl, of "\<lambda>bs. bs"] show ?thesis by metis
qed

end
