(* ===== verification/Redb_Store.thy ===== *)
theory Redb_Store
  imports Redb Store
begin

text \<open>
  The durable balance store (\<open>suwappudb-state/src/redb_store.rs\<close>) over the \<open>redb\<close> parameter of theory
  \<open>Redb\<close>, and its refinement of the in-memory store. The trait is infallible: a database error, or a
  stored value of the wrong length, is a panic, modelled as the result \<open>None\<close>.
\<close>

section \<open>The store\<close>

record ('db, 'txn) redb_tables =
  the_db :: "('db, 'txn) redb_db"
  TABLE_STATE :: "('txn, bytes, bytes) redb_table"
  TABLE_AGGREGATES :: "('txn, bytes, bytes) redb_table"
  TABLE_EVM_STORAGE :: "('txn, bytes, bytes) redb_table"
  TABLE_EVM_NONCES :: "('txn, bytes, bytes) redb_table"
  TABLE_MOVE_RESOURCES :: "('txn, bytes, bytes) redb_table"
  TABLE_BYTES :: "('txn, bytes, bytes) redb_table"

definition ALL_TABLES :: "('db, 'txn) redb_tables \<Rightarrow> ('txn, bytes, bytes) redb_table list" where
  "ALL_TABLES R = [TABLE_STATE R, TABLE_AGGREGATES R, TABLE_EVM_STORAGE R, TABLE_EVM_NONCES R,
     TABLE_MOVE_RESOURCES R, TABLE_BYTES R]"

definition VALUE_LEN :: usize where
  "VALUE_LEN = 16"

text \<open>\<open>open\<close>, given the result of \<open>Database::create\<close>: the first error, or the database with all tables.\<close>

fun open_tables :: "('txn, bytes, bytes) redb_table list \<Rightarrow> 'txn \<Rightarrow> redb_error + 'txn" where
  "open_tables [] t = Inr t"
| "open_tables (T # Ts) t = bind_res (open_table T t) (open_tables Ts)"

definition RedbBalanceStore_open :: "('db, 'txn) redb_tables \<Rightarrow> redb_error + 'db \<Rightarrow> redb_error + 'db" where
  "RedbBalanceStore_open R created =
     bind_res created (\<lambda>db.
     bind_res (begin_write (the_db R) db) (\<lambda>t.
     bind_res (open_tables (ALL_TABLES R) t) (\<lambda>t1. txn_commit (the_db R) db t1)))"

definition encode_value :: "BalanceSlot \<Rightarrow> bytes" where
  "encode_value slot = to_be_bytes (canonical slot)"

definition decode_value :: "bytes \<Rightarrow> BalanceSlot option" where
  "decode_value bs = (if length bs \<noteq> VALUE_LEN then None else Some (BalanceSlot_new (from_be_bytes bs)))"

definition RedbBalanceStore_get :: "('db, 'txn) redb_tables \<Rightarrow> 'db \<Rightarrow> Address \<Rightarrow> BalanceSlot option" where
  "RedbBalanceStore_get R db addr =
     do { t \<leftarrow> ok_of (begin_read (the_db R) db);
          t1 \<leftarrow> ok_of (open_table (TABLE_STATE R) t);
          r \<leftarrow> ok_of (tbl_get (TABLE_STATE R) t1 (addr_bytes addr));
          case r of Some v \<Rightarrow> decode_value v | None \<Rightarrow> Some BalanceSlot_default }"

definition RedbBalanceStore_set :: "('db, 'txn) redb_tables \<Rightarrow> 'db \<Rightarrow> Address \<Rightarrow> BalanceSlot \<Rightarrow> 'db option" where
  "RedbBalanceStore_set R db addr slot =
     do { t \<leftarrow> ok_of (begin_write (the_db R) db);
          t1 \<leftarrow> ok_of (open_table (TABLE_STATE R) t);
          t2 \<leftarrow> ok_of (tbl_insert (TABLE_STATE R) t1 (addr_bytes addr) (encode_value slot));
          ok_of (txn_commit (the_db R) db t2) }"

definition RedbBalanceStore_len :: "('db, 'txn) redb_tables \<Rightarrow> 'db \<Rightarrow> usize option" where
  "RedbBalanceStore_len R db =
     do { t \<leftarrow> ok_of (begin_read (the_db R) db);
          t1 \<leftarrow> ok_of (open_table (TABLE_STATE R) t);
          ok_of (tbl_len (TABLE_STATE R) t1) }"

text \<open>The loop over the rows: each row may fail to read, and the key length is asserted.\<close>

fun read_rows :: "(bytes \<Rightarrow> 'a option) \<Rightarrow> (redb_error + bytes \<times> bytes) list \<Rightarrow> (Address \<times> 'a) list option" where
  "read_rows dec [] = Some []"
| "read_rows dec (row # rows) =
     do { (k, v) \<leftarrow> ok_of row;
          if length k \<noteq> 20 then None
          else do { x \<leftarrow> dec v; rest \<leftarrow> read_rows dec rows; Some ((Address k, x) # rest) } }"

definition RedbBalanceStore_entries :: "('db, 'txn) redb_tables \<Rightarrow> 'db \<Rightarrow> (Address \<times> BalanceSlot) list option" where
  "RedbBalanceStore_entries R db =
     do { t \<leftarrow> ok_of (begin_read (the_db R) db);
          t1 \<leftarrow> ok_of (open_table (TABLE_STATE R) t);
          rows \<leftarrow> ok_of (tbl_range (TABLE_STATE R) t1 None);
          read_rows decode_value rows }"

definition RedbBalanceStore_get_bytes :: "('db, 'txn) redb_tables \<Rightarrow> 'db \<Rightarrow> Address \<Rightarrow> bytes option option" where
  "RedbBalanceStore_get_bytes R db addr =
     do { t \<leftarrow> ok_of (begin_read (the_db R) db);
          t1 \<leftarrow> ok_of (open_table (TABLE_BYTES R) t);
          ok_of (tbl_get (TABLE_BYTES R) t1 (addr_bytes addr)) }"

definition RedbBalanceStore_set_bytes :: "('db, 'txn) redb_tables \<Rightarrow> 'db \<Rightarrow> Address \<Rightarrow> bytes \<Rightarrow> 'db option" where
  "RedbBalanceStore_set_bytes R db addr bs =
     do { t \<leftarrow> ok_of (begin_write (the_db R) db);
          t1 \<leftarrow> ok_of (open_table (TABLE_BYTES R) t);
          t2 \<leftarrow> ok_of (if bs = [] then tbl_remove (TABLE_BYTES R) t1 (addr_bytes addr)
                       else tbl_insert (TABLE_BYTES R) t1 (addr_bytes addr) bs);
          ok_of (txn_commit (the_db R) db t2) }"

definition RedbBalanceStore_bytes_entries :: "('db, 'txn) redb_tables \<Rightarrow> 'db \<Rightarrow> (Address \<times> bytes) list option" where
  "RedbBalanceStore_bytes_entries R db =
     do { t \<leftarrow> ok_of (begin_read (the_db R) db);
          t1 \<leftarrow> ok_of (open_table (TABLE_BYTES R) t);
          rows \<leftarrow> ok_of (tbl_range (TABLE_BYTES R) t1 None);
          read_rows Some rows }"

definition RedbBalanceStore_set_evm_nonce :: "('db, 'txn) redb_tables \<Rightarrow> 'db \<Rightarrow> Address \<Rightarrow> u64 \<Rightarrow> 'db option" where
  "RedbBalanceStore_set_evm_nonce R db addr n =
     do { t \<leftarrow> ok_of (begin_write (the_db R) db);
          t1 \<leftarrow> ok_of (open_table (TABLE_EVM_NONCES R) t);
          t2 \<leftarrow> ok_of (tbl_insert (TABLE_EVM_NONCES R) t1 (addr_bytes addr) (to_be_bytes n));
          ok_of (txn_commit (the_db R) db t2) }"

definition RedbBalanceStore_get_evm_nonce :: "('db, 'txn) redb_tables \<Rightarrow> 'db \<Rightarrow> Address \<Rightarrow> u64 option option" where
  "RedbBalanceStore_get_evm_nonce R db addr =
     do { t \<leftarrow> ok_of (begin_read (the_db R) db);
          t1 \<leftarrow> ok_of (open_table (TABLE_EVM_NONCES R) t);
          r \<leftarrow> ok_of (tbl_get (TABLE_EVM_NONCES R) t1 (addr_bytes addr));
          case r of
            None \<Rightarrow> Some None
          | Some bs \<Rightarrow> if length bs \<noteq> 8 then None else Some (Some (from_be_bytes bs)) }"

text \<open>\<open>State::apply\<close> over this backend.\<close>

fun Redb_apply :: "('db, 'txn) redb_tables \<Rightarrow> 'db \<Rightarrow> StateChange \<Rightarrow> 'db option" where
  "Redb_apply R db (SetBalance addr to_bal) = RedbBalanceStore_set R db addr (BalanceSlot_new (balance_val to_bal))"
| "Redb_apply R db (SetBytes addr bs) = RedbBalanceStore_set_bytes R db addr bs"

section \<open>The contract of the database\<close>

record contents =
  c_state :: "bytes \<rightharpoonup> bytes"
  c_bytes :: "bytes \<rightharpoonup> bytes"
  c_nonces :: "bytes \<rightharpoonup> bytes"

text \<open>The database and the three tables in use are as documented and do not fail.\<close>

definition redb_serves :: "('db, 'txn) redb_tables \<Rightarrow> ('db \<Rightarrow> contents) \<Rightarrow> ('txn \<Rightarrow> contents) \<Rightarrow> bool" where
  "redb_serves R content view \<longleftrightarrow> db_serves (the_db R) content view \<and>
     table_serves (TABLE_STATE R) view c_state (\<lambda>m c. c\<lparr>c_state := m\<rparr>) \<and>
     table_serves (TABLE_BYTES R) view c_bytes (\<lambda>m c. c\<lparr>c_bytes := m\<rparr>) \<and>
     table_serves (TABLE_EVM_NONCES R) view c_nonces (\<lambda>m c. c\<lparr>c_nonces := m\<rparr>)"

lemma redb_servesD:
  assumes "redb_serves R content view"
  shows "db_serves (the_db R) content view"
    and "table_serves (TABLE_STATE R) view c_state (\<lambda>m c. c\<lparr>c_state := m\<rparr>)"
    and "table_serves (TABLE_BYTES R) view c_bytes (\<lambda>m c. c\<lparr>c_bytes := m\<rparr>)"
    and "table_serves (TABLE_EVM_NONCES R) view c_nonces (\<lambda>m c. c\<lparr>c_nonces := m\<rparr>)"
  using assms by (simp_all add: redb_serves_def)

lemma serves_read_open:
  assumes "db_serves D content view" "table_serves T view sel upd"
  obtains t t1 where "begin_read D db = Inr t" "open_table T t = Inr t1" "view t1 = content db"
proof -
  obtain t where t: "begin_read D db = Inr t" "view t = content db" by (rule serves_read [OF assms(1)])
  obtain t1 where "open_table T t = Inr t1" "view t1 = view t" by (rule serves_open [OF assms(2)])
  with t that show thesis by metis
qed

lemma serves_write_open:
  assumes "db_serves D content view" "table_serves T view sel upd"
  obtains t t1 where "begin_write D db = Inr t" "open_table T t = Inr t1" "view t1 = content db"
proof -
  obtain t where t: "begin_write D db = Inr t" "view t = content db" by (rule serves_write [OF assms(1)])
  obtain t1 where "open_table T t = Inr t1" "view t1 = view t" by (rule serves_open [OF assms(2)])
  with t that show thesis by metis
qed

section \<open>Refinement of the in-memory store\<close>

text \<open>
  The tables hold exactly the entries of the in-memory store, under 20-byte keys, and no slot carries
  a nonce, which the encoding does not record.
\<close>

definition redb_sim :: "contents \<Rightarrow> InMemoryBalanceStore \<Rightarrow> bool" where
  "redb_sim c m \<longleftrightarrow> InMemory_invar m \<and>
     (\<forall>a. map_get (slots m) a \<noteq> None \<longrightarrow> wf_addr a) \<and> (\<forall>a. map_get (bytes_col m) a \<noteq> None \<longrightarrow> wf_addr a) \<and>
     (\<forall>a v. map_get (slots m) a = Some v \<longrightarrow> v = BalanceSlot_new (canonical v)) \<and>
     (\<forall>k. c_state c k = map_option encode_value (map_get (slots m) (Address k))) \<and>
     (\<forall>k. c_bytes c k = map_get (bytes_col m) (Address k))"

lemma decode_encode_value: "decode_value (encode_value v) = Some (BalanceSlot_new (canonical v))"
  by (simp add: decode_value_def encode_value_def VALUE_LEN_def from_to_be_bytes)

lemma redb_get:
  assumes "redb_serves R content view" "redb_sim (content db) m"
  shows "RedbBalanceStore_get R db a = Some (InMemory_get m a)"
proof -
  note S = redb_servesD [OF assms(1)]
  obtain t t1 where t: "begin_read (the_db R) db = Inr t" "open_table (TABLE_STATE R) t = Inr t1" "view t1 = content db"
    by (rule serves_read_open [OF S(1,2)])
  from assms(2) have "c_state (content db) (addr_bytes a) = map_option encode_value (map_get (slots m) a)"
    by (simp add: redb_sim_def Address_collapse)
  with assms(2) t show ?thesis
    by (auto simp: RedbBalanceStore_get_def InMemory_get_def decode_encode_value redb_sim_def serves_get [OF S(2)]
        split: option.split)
qed

lemma redb_get_bytes:
  assumes "redb_serves R content view" "redb_sim (content db) m"
  shows "RedbBalanceStore_get_bytes R db a = Some (InMemory_get_bytes m a)"
proof -
  note S = redb_servesD [OF assms(1)]
  obtain t t1 where t: "begin_read (the_db R) db = Inr t" "open_table (TABLE_BYTES R) t = Inr t1" "view t1 = content db"
    by (rule serves_read_open [OF S(1,3)])
  with assms(2) show ?thesis
    by (simp add: RedbBalanceStore_get_bytes_def InMemory_get_bytes_def redb_sim_def Address_collapse serves_get [OF S(3)])
qed

lemma redb_set:
  assumes "redb_serves R content view" "redb_sim (content db) m" "wf_addr a"
  shows "\<exists>db'. RedbBalanceStore_set R db a (BalanceSlot_new v) = Some db' \<and>
    redb_sim (content db') (InMemory_set m a (BalanceSlot_new v)) \<and> c_nonces (content db') = c_nonces (content db)"
proof -
  note S = redb_servesD [OF assms(1)]
  obtain t t1 where t: "begin_write (the_db R) db = Inr t" "open_table (TABLE_STATE R) t = Inr t1" "view t1 = content db"
    by (rule serves_write_open [OF S(1,2)])
  obtain t2 where t2: "tbl_insert (TABLE_STATE R) t1 (addr_bytes a) (encode_value (BalanceSlot_new v)) = Inr t2"
    "view t2 = (view t1)\<lparr>c_state := (c_state (view t1))(addr_bytes a \<mapsto> encode_value (BalanceSlot_new v))\<rparr>"
    by (rule serves_insert [OF S(2)])
  obtain db' where db': "txn_commit (the_db R) db t2 = Inr db'" "content db' = view t2" by (rule serves_commit [OF S(1)])
  have "InMemory_invar (InMemory_set m a (BalanceSlot_new v))"
    using assms(2) by (simp add: redb_sim_def ims.invar_set)
  then have "redb_sim (content db') (InMemory_set m a (BalanceSlot_new v))"
    using assms(2,3) by (auto simp: redb_sim_def db'(2) t2(2) t(3) InMemory_set_def)
  with t t2 db' show ?thesis by (auto simp: RedbBalanceStore_set_def)
qed

lemma redb_set_bytes:
  assumes "redb_serves R content view" "redb_sim (content db) m" "wf_addr a"
  shows "\<exists>db'. RedbBalanceStore_set_bytes R db a data = Some db' \<and>
    redb_sim (content db') (InMemory_set_bytes m a data) \<and> c_nonces (content db') = c_nonces (content db)"
proof -
  note S = redb_servesD [OF assms(1)]
  obtain t t1 where t: "begin_write (the_db R) db = Inr t" "open_table (TABLE_BYTES R) t = Inr t1" "view t1 = content db"
    by (rule serves_write_open [OF S(1,3)])
  let ?new = "if data = [] then None else Some data"
  obtain t2 where t2: "(if data = [] then tbl_remove (TABLE_BYTES R) t1 (addr_bytes a)
      else tbl_insert (TABLE_BYTES R) t1 (addr_bytes a) data) = Inr t2"
    "view t2 = (view t1)\<lparr>c_bytes := (c_bytes (view t1))(addr_bytes a := ?new)\<rparr>"
  proof (cases "data = []")
    case True
    then show thesis using serves_remove [OF S(3), of t1 "addr_bytes a"] that by auto
  next
    case False
    then show thesis using serves_insert [OF S(3), of t1 "addr_bytes a" data] that by auto
  qed
  obtain db' where db': "txn_commit (the_db R) db t2 = Inr db'" "content db' = view t2" by (rule serves_commit [OF S(1)])
  have "InMemory_invar (InMemory_set_bytes m a data)"
    using assms(2) by (simp add: redb_sim_def ims.invar_set_bytes)
  moreover have "map_get (bytes_col (InMemory_set_bytes m a data)) b = (if b = a then ?new else map_get (bytes_col m) b)" for b
    by (simp add: InMemory_set_bytes_def)
  moreover have "slots (InMemory_set_bytes m a data) = slots m" by (simp add: InMemory_set_bytes_def)
  ultimately have "redb_sim (content db') (InMemory_set_bytes m a data)"
    using assms(2,3) by (auto simp: redb_sim_def db'(2) t2(2) t(3) split: if_splits)
  with t t2 db' show ?thesis by (auto simp: RedbBalanceStore_set_bytes_def)
qed

lemma read_rows_ok:
  assumes "\<forall>(k, v) \<in> set es. length k = 20 \<and> dec v = Some (f v)"
  shows "read_rows dec (map Inr es) = Some (map (\<lambda>(k, v). (Address k, f v)) es)"
  using assms by (induction es) auto

lemma bt_invar_addresses: "bt_invar es \<Longrightarrow> bt_invar (map (\<lambda>(k, v). (Address k, f v)) es)"
  by (auto simp: bt_invar_def sorted_wrt_map less_Address_def case_prod_unfold comp_def)

lemma map_get_addresses: "map_get (map (\<lambda>(k, v). (Address k, f v)) es) a = map_option f (map_get es (addr_bytes a))"
  by (induction es) (auto simp: map_get_Cons)

lemma redb_bytes_entries:
  assumes "redb_serves R content view" "redb_sim (content db) m"
  shows "RedbBalanceStore_bytes_entries R db = Some (InMemory_bytes_entries m)"
proof -
  note S = redb_servesD [OF assms(1)]
  have sim: "bt_invar (bytes_col m)" "\<And>k. c_bytes (content db) k = map_get (bytes_col m) (Address k)"
    "\<And>a. map_get (bytes_col m) a \<noteq> None \<Longrightarrow> wf_addr a"
    using assms(2) by (auto simp: redb_sim_def InMemory_invar_def)
  obtain t t1 where t: "begin_read (the_db R) db = Inr t" "open_table (TABLE_BYTES R) t = Inr t1" "view t1 = content db"
    by (rule serves_read_open [OF S(1,3)])
  obtain es where "tbl_range (TABLE_BYTES R) t1 None = Inr (map Inr es)" "bt_invar es"
    "map_get es = c_bytes (view t1) |` {k. \<forall>l. None = Some l \<longrightarrow> l \<le> k}" by (rule serves_range [OF S(3)])
  then have es: "tbl_range (TABLE_BYTES R) t1 None = Inr (map Inr es)" "bt_invar es" "map_get es = c_bytes (content db)"
    by (simp_all add: t(3) restrict_map_def)
  have "length k = 20" if "(k, v) \<in> set es" for k v
  proof -
    from that es(2) have "map_get es k = Some v" by (simp add: bt.iter_iff_get)
    with es(3) sim(2) have "map_get (bytes_col m) (Address k) = Some v" by simp
    with sim(3) [of "Address k"] show ?thesis by (simp add: wf_addr_def)
  qed
  then have rows: "read_rows Some (map Inr es) = Some (map (\<lambda>(k, v). (Address k, v)) es)"
    using read_rows_ok [of es Some "\<lambda>v. v"] by auto
  have "map (\<lambda>(k, v). (Address k, v)) es = bytes_col m"
  proof (rule bt_map_eqI [OF _ sim(1)])
    show "bt_invar (map (\<lambda>(k, v). (Address k, v)) es)" using bt_invar_addresses [OF es(2), of "\<lambda>v. v"] by simp
    show "map_get (map (\<lambda>(k, v). (Address k, v)) es) = map_get (bytes_col m)"
      using map_get_addresses [of "\<lambda>v. v" es] by (simp add: fun_eq_iff es(3) sim(2) Address_collapse option.map_ident)
  qed
  with t es rows show ?thesis by (simp add: RedbBalanceStore_bytes_entries_def InMemory_bytes_entries_def)
qed

lemma redb_entries:
  assumes "redb_serves R content view" "redb_sim (content db) m"
  shows "\<exists>es. RedbBalanceStore_entries R db = Some es \<and> bt_invar es \<and> set es = set (InMemory_entries m)"
proof -
  note S = redb_servesD [OF assms(1)]
  have sim: "hm_invar (slots m)" "\<And>k. c_state (content db) k = map_option encode_value (map_get (slots m) (Address k))"
    "\<And>a. map_get (slots m) a \<noteq> None \<Longrightarrow> wf_addr a"
    "\<And>a v. map_get (slots m) a = Some v \<Longrightarrow> BalanceSlot_new (canonical v) = v"
    using assms(2) by (auto simp: redb_sim_def InMemory_invar_def)
  obtain t t1 where t: "begin_read (the_db R) db = Inr t" "open_table (TABLE_STATE R) t = Inr t1" "view t1 = content db"
    by (rule serves_read_open [OF S(1,2)])
  obtain es where "tbl_range (TABLE_STATE R) t1 None = Inr (map Inr es)" "bt_invar es"
    "map_get es = c_state (view t1) |` {k. \<forall>l. None = Some l \<longrightarrow> l \<le> k}" by (rule serves_range [OF S(2)])
  then have es: "tbl_range (TABLE_STATE R) t1 None = Inr (map Inr es)" "bt_invar es" "map_get es = c_state (content db)"
    by (simp_all add: t(3) restrict_map_def)
  let ?f = "\<lambda>v. the (decode_value v)"
  let ?es = "map (\<lambda>(k, v). (Address k, ?f v)) es"
  have "length k = 20 \<and> decode_value v = Some (?f v)" if "(k, v) \<in> set es" for k v
  proof -
    from that es(2) have "map_get es k = Some v" by (simp add: bt.iter_iff_get)
    with es(3) sim(2) obtain x where "map_get (slots m) (Address k) = Some x" "v = encode_value x" by auto
    with sim(3) [of "Address k"] show ?thesis by (simp add: wf_addr_def decode_encode_value)
  qed
  then have rows: "read_rows decode_value (map Inr es) = Some ?es" by (intro read_rows_ok) auto
  have get: "map_get ?es a = map_get (slots m) a" for a
    using sim(4) [of a]
    by (cases "map_get (slots m) a") (auto simp: map_get_addresses es(3) sim(2) Address_collapse decode_encode_value)
  have bt: "bt_invar ?es" by (rule bt_invar_addresses [OF es(2)])
  have "set ?es = set (slots m)"
    using get bt.iter_iff_get [OF bt] hm.iter_iff_get [OF sim(1)] by (intro set_eqI) (metis surj_pair)
  with t es rows bt show ?thesis by (auto simp: RedbBalanceStore_entries_def InMemory_entries_def)
qed

lemma redb_len:
  assumes "redb_serves R content view" "redb_sim (content db) m"
  shows "RedbBalanceStore_len R db = Some (InMemory_len m)"
proof -
  note S = redb_servesD [OF assms(1)]
  obtain t t1 where t: "begin_read (the_db R) db = Inr t" "open_table (TABLE_STATE R) t = Inr t1" "view t1 = content db"
    by (rule serves_read_open [OF S(1,2)])
  have "dom (c_state (content db)) = addr_bytes ` dom (map_get (slots m))"
  proof (intro set_eqI iffI)
    fix k assume "k \<in> dom (c_state (content db))"
    with assms(2) have "Address k \<in> dom (map_get (slots m))" by (auto simp: redb_sim_def)
    then show "k \<in> addr_bytes ` dom (map_get (slots m))" by (metis Address.sel image_eqI)
  next
    fix k assume "k \<in> addr_bytes ` dom (map_get (slots m))"
    with assms(2) show "k \<in> dom (c_state (content db))" by (auto simp: redb_sim_def Address_collapse)
  qed
  moreover have "inj_on addr_bytes A" for A by (auto simp: inj_on_def intro: Address.expand)
  ultimately have "card (dom (c_state (content db))) = card (dom (map_get (slots m)))" by (simp add: card_image)
  also have "map_get (slots m) = map_of (slots m)" by (rule ext) (simp add: map_get_def)
  also have "dom (map_of (slots m)) = fst ` set (slots m)" by (rule dom_map_of_conv_image_fst)
  also have "card \<dots> = length (slots m)"
    using assms(2) distinct_card [of "map fst (slots m)"] by (simp add: redb_sim_def InMemory_invar_def hm_invar_def)
  finally show ?thesis using t by (simp add: RedbBalanceStore_len_def InMemory_len_def serves_len [OF S(2)])
qed

text \<open>A run of \<open>State::apply\<close>s over the durable backend.\<close>

fun Redb_apply_all :: "('db, 'txn) redb_tables \<Rightarrow> 'db \<Rightarrow> StateChange list \<Rightarrow> 'db option" where
  "Redb_apply_all R db [] = Some db"
| "Redb_apply_all R db (c # cs) = Option.bind (Redb_apply R db c) (\<lambda>db'. Redb_apply_all R db' cs)"

definition change_addr :: "StateChange \<Rightarrow> Address" where
  "change_addr c = (case c of SetBalance a _ \<Rightarrow> a | SetBytes a _ \<Rightarrow> a)"

lemma redb_apply_sim:
  assumes "redb_serves R content view" "redb_sim (content db) (store st)" "wf_addr (change_addr c)"
  shows "\<exists>db'. Redb_apply R db c = Some db' \<and> redb_sim (content db') (store (State_apply st c)) \<and>
    c_nonces (content db') = c_nonces (content db)"
proof (cases c)
  case (SetBalance a v)
  with redb_set [OF assms(1,2), of a "balance_val v"] assms(3) show ?thesis
    by (simp add: State_apply.simps change_addr_def)
next
  case (SetBytes a data)
  with redb_set_bytes [OF assms(1,2), of a data] assms(3) show ?thesis
    by (simp add: State_apply.simps change_addr_def)
qed

lemma redb_apply_all_sim:
  assumes "redb_serves R content view"
  shows "redb_sim (content db) (store st) \<Longrightarrow> \<forall>c \<in> set cs. wf_addr (change_addr c) \<Longrightarrow>
    \<exists>db'. Redb_apply_all R db cs = Some db' \<and> redb_sim (content db') (store (fold (\<lambda>c st. State_apply st c) cs st)) \<and>
      c_nonces (content db') = c_nonces (content db)"
proof (induction cs arbitrary: db st)
  case (Cons c cs)
  from redb_apply_sim [OF assms Cons.prems(1)] Cons.prems(2) obtain db1 where
    "Redb_apply R db c = Some db1" "redb_sim (content db1) (store (State_apply st c))"
    "c_nonces (content db1) = c_nonces (content db)" by auto
  with Cons.IH [of db1 "State_apply st c"] Cons.prems(2) show ?case by auto
qed simp

text \<open>
  C29: the durable store refines the in-memory one: over a database that behaves as documented and does
  not fail, any sequence of state changes applied to an empty database goes through without a panic,
  and afterwards every read agrees with the in-memory state after the same changes: slots, blobs,
  count, the bytes entries in the same order and the balance entries up to order. The nonce table is
  untouched.
\<close>

theorem redb_refines_memory:
  assumes "redb_serves R content view" "c_state (content db0) = Map.empty" "c_bytes (content db0) = Map.empty"
    and "\<forall>c \<in> set cs. wf_addr (change_addr c)" "st = fold (\<lambda>c st. State_apply st c) cs State_default"
  shows "\<exists>db. Redb_apply_all R db0 cs = Some db \<and>
    (\<forall>a. RedbBalanceStore_get R db a = Some (State_slot_of st a)) \<and>
    (\<forall>a. RedbBalanceStore_get_bytes R db a = Some (State_bytes_of st a)) \<and>
    RedbBalanceStore_len R db = Some (length (State_entries st)) \<and>
    RedbBalanceStore_bytes_entries R db = Some (State_bytes_entries st) \<and>
    (\<exists>es. RedbBalanceStore_entries R db = Some es \<and> bt_invar es \<and> set es = set (State_entries st)) \<and>
    c_nonces (content db) = c_nonces (content db0)"
proof -
  have "redb_sim (content db0) (store State_default)"
    using assms(2,3) ims.invar_fresh by (simp add: redb_sim_def State_default_def InMemory_new_def)
  from redb_apply_all_sim [OF assms(1) this assms(4)] assms(5) obtain db where
    db: "Redb_apply_all R db0 cs = Some db" "redb_sim (content db) (store st)"
    "c_nonces (content db) = c_nonces (content db0)" by auto
  note reads = redb_get [OF assms(1) db(2)] redb_get_bytes [OF assms(1) db(2)] redb_len [OF assms(1) db(2)]
    redb_bytes_entries [OF assms(1) db(2)] redb_entries [OF assms(1) db(2)]
  from db reads show ?thesis
    by (simp add: State_slot_of_def State_bytes_of_def State_entries_def State_bytes_entries_def InMemory_len_def
        InMemory_entries_def)
qed

text \<open>
  Mirrored account nonces read back: a nonce written for an address is returned for it and no other
  address's nonce, balance or blob changes.
\<close>

theorem evm_nonce_round_trip:
  assumes "redb_serves R content view"
  shows "\<exists>db'. RedbBalanceStore_set_evm_nonce R db a n = Some db' \<and>
    RedbBalanceStore_get_evm_nonce R db' a = Some (Some n) \<and>
    (\<forall>b. b \<noteq> a \<longrightarrow> RedbBalanceStore_get_evm_nonce R db' b = RedbBalanceStore_get_evm_nonce R db b) \<and>
    c_state (content db') = c_state (content db) \<and> c_bytes (content db') = c_bytes (content db)"
proof -
  note S = redb_servesD [OF assms]
  obtain t t1 where t: "begin_write (the_db R) db = Inr t" "open_table (TABLE_EVM_NONCES R) t = Inr t1" "view t1 = content db"
    by (rule serves_write_open [OF S(1,4)])
  obtain t2 where t2: "tbl_insert (TABLE_EVM_NONCES R) t1 (addr_bytes a) (to_be_bytes n) = Inr t2"
    "view t2 = (view t1)\<lparr>c_nonces := (c_nonces (view t1))(addr_bytes a \<mapsto> to_be_bytes n)\<rparr>"
    by (rule serves_insert [OF S(4)])
  obtain db' where db': "txn_commit (the_db R) db t2 = Inr db'" "content db' = view t2" by (rule serves_commit [OF S(1)])
  have read: "RedbBalanceStore_get_evm_nonce R x b = (case c_nonces (content x) (addr_bytes b) of None \<Rightarrow> Some None
      | Some bs \<Rightarrow> if length bs \<noteq> 8 then None else Some (Some (from_be_bytes bs)))" for x b
  proof -
    obtain t t1 where "begin_read (the_db R) x = Inr t" "open_table (TABLE_EVM_NONCES R) t = Inr t1" "view t1 = content x"
      by (rule serves_read_open [OF S(1,4)])
    then show ?thesis by (simp add: RedbBalanceStore_get_evm_nonce_def serves_get [OF S(4)])
  qed
  have "addr_bytes b \<noteq> addr_bytes a" if "b \<noteq> a" for b using that by (auto intro: Address.expand)
  with t t2 db' show ?thesis
    by (auto simp: RedbBalanceStore_set_evm_nonce_def read from_to_be_bytes)
qed

section \<open>A concrete database\<close>

text \<open>Three finite maps; the tables that no operation reads share the nonce table's map.\<close>

record fm_contents =
  f_state :: "(bytes, bytes) fmap"
  f_bytes :: "(bytes, bytes) fmap"
  f_nonces :: "(bytes, bytes) fmap"

definition fm_view :: "fm_contents \<Rightarrow> contents" where
  "fm_view c = \<lparr>c_state = fmlookup (f_state c), c_bytes = fmlookup (f_bytes c), c_nonces = fmlookup (f_nonces c)\<rparr>"

definition fm_tables :: "(fm_contents, fm_contents) redb_tables" where
  "fm_tables =
     (let nonces = fm_table f_nonces (\<lambda>m c. c\<lparr>f_nonces := m\<rparr>) in
      \<lparr>the_db = fm_db, TABLE_STATE = fm_table f_state (\<lambda>m c. c\<lparr>f_state := m\<rparr>), TABLE_AGGREGATES = nonces,
       TABLE_EVM_STORAGE = nonces, TABLE_EVM_NONCES = nonces, TABLE_MOVE_RESOURCES = nonces,
       TABLE_BYTES = fm_table f_bytes (\<lambda>m c. c\<lparr>f_bytes := m\<rparr>)\<rparr>)"

definition fm_fresh :: fm_contents where
  "fm_fresh = \<lparr>f_state = fmempty, f_bytes = fmempty, f_nonces = fmempty\<rparr>"

lemma fm_tables_serve: "redb_serves fm_tables fm_view fm_view"
  unfolding redb_serves_def fm_tables_def Let_def
  by (simp add: fm_db_serves) (intro conjI fm_table_serves; simp add: fm_view_def)

theorem redb_refines_memory_witness:
  "\<exists>db. Redb_apply_all fm_tables fm_fresh
      [SetBalance (Address (replicate 20 1)) (Balance 7), SetBytes (Address (replicate 20 2)) [9]] = Some db \<and>
    RedbBalanceStore_get fm_tables db (Address (replicate 20 1)) = Some (BalanceSlot_new 7) \<and>
    RedbBalanceStore_len fm_tables db = Some 1"
proof -
  let ?cs = "[SetBalance (Address (replicate 20 1)) (Balance 7), SetBytes (Address (replicate 20 2)) [9]]"
  let ?st = "fold (\<lambda>c st. State_apply st c) ?cs State_default"
  have fresh: "c_state (fm_view fm_fresh) = Map.empty" "c_bytes (fm_view fm_fresh) = Map.empty"
    by (auto simp: fm_view_def fm_fresh_def)
  have wf: "\<forall>c \<in> set ?cs. wf_addr (change_addr c)" by (simp add: change_addr_def wf_addr_def)
  have "slots (store ?st) = [(Address (replicate 20 1), BalanceSlot_new 7)]"
    by (simp add: State_apply.simps State_default_def InMemory_new_def InMemory_set_def InMemory_set_bytes_def)
  then have "State_slot_of ?st (Address (replicate 20 1)) = BalanceSlot_new 7" "length (State_entries ?st) = 1"
    by (simp_all add: State_slot_of_def InMemory_get_def map_get_def State_entries_def InMemory_entries_def)
  with redb_refines_memory [OF fm_tables_serve fresh wf refl] show ?thesis by metis
qed

theorem evm_nonce_round_trip_witness:
  "\<exists>db'. RedbBalanceStore_set_evm_nonce fm_tables fm_fresh (Address (replicate 20 1)) 5 = Some db' \<and>
    RedbBalanceStore_get_evm_nonce fm_tables db' (Address (replicate 20 1)) = Some (Some 5)"
  using evm_nonce_round_trip [OF fm_tables_serve] by blast

end
