(* ===== verification/L2_Sync.thy ===== *)
theory L2_Sync
  imports Json_Rpc Redb_Store
begin

text \<open>
  The L2 state syncer (\<open>suwappudb-bridge/src/sync/l2.rs\<close>), over the HTTP, JSON and hex parameters of
  theory \<open>Json_Rpc\<close>. A panic (slicing a string that is too short) is the result \<open>None\<close>. Calls are awaited
  one after the other, so the network state is threaded through them.
\<close>

section \<open>The syncer\<close>

record L2SyncConfig =
  rpc_url :: string
  sync_addresses :: "Address list"

record SyncedEVMState =
  syn_address :: Address
  syn_balance :: u128
  syn_nonce :: u64

definition eth_payload :: "'v json \<Rightarrow> hex_crate \<Rightarrow> string \<Rightarrow> Address \<Rightarrow> 'v" where
  "eth_payload J X meth addr =
     j_obj J [(''jsonrpc'', j_str J ''2.0''), (''method'', j_str J meth),
              (''params'', j_arr J [j_str J (''0x'' @ hex_encode X (addr_bytes addr)), j_str J ''latest'']),
              (''id'', j_int J 1)]"

text \<open>
  The part the two queries have in common, up to the decoded bytes of the quantity; \<open>what\<close> is the noun
  in the message for a quantity that does not decode.
\<close>

definition eth_quantity ::
  "'v json \<Rightarrow> hex_crate \<Rightarrow> ('n, 'v) http_post \<Rightarrow> L2SyncConfig \<Rightarrow> string \<Rightarrow> string \<Rightarrow> Address \<Rightarrow> 'n \<Rightarrow>
   ((string + bytes) \<times> 'n) option" where
  "eth_quantity J X post cfg meth what addr n =
     (case post n (rpc_url cfg) (eth_payload J X meth addr) of
        (Inl (SendFailed e), n1) \<Rightarrow> Some (Inl (meth @ '' RPC call failed: '' @ e), n1)
      | (Inl (BodyInvalid e), n1) \<Rightarrow> Some (Inl (''Failed to parse '' @ meth @ '' response: '' @ e), n1)
      | (Inr result, n1) \<Rightarrow>
          (case j_get J result ''error'' of
             Some err \<Rightarrow> Some (Inl (''RPC error: '' @ j_show J err), n1)
           | None \<Rightarrow>
               (case Option.bind (j_get J result ''result'') (j_as_str J) of
                  None \<Rightarrow> Some (Inl (''Missing result field in '' @ meth @ '' response''), n1)
                | Some text \<Rightarrow>
                    (case slice_from 2 text of
                       None \<Rightarrow> None
                     | Some ds \<Rightarrow>
                         (case hex_decode X ds of
                            Inl e \<Rightarrow> Some (Inl (''Failed to decode '' @ what @ '' hex: '' @ e), n1)
                          | Inr bs \<Rightarrow> Some (Inr bs, n1))))))"

text \<open>The left-padding of the decoded bytes into an array of the integer's width.\<close>

definition pad_left :: "nat \<Rightarrow> bytes \<Rightarrow> bytes" where
  "pad_left width bs = replicate (width - length bs) 0 @ bs"

definition L2StateSyncer_get_balance ::
  "'v json \<Rightarrow> hex_crate \<Rightarrow> ('n, 'v) http_post \<Rightarrow> L2SyncConfig \<Rightarrow> Address \<Rightarrow> 'n \<Rightarrow> ((string + u128) \<times> 'n) option" where
  "L2StateSyncer_get_balance J X post cfg addr n =
     (case eth_quantity J X post cfg ''eth_getBalance'' ''balance'' addr n of
        None \<Rightarrow> None
      | Some (Inl e, n1) \<Rightarrow> Some (Inl e, n1)
      | Some (Inr bs, n1) \<Rightarrow>
          if length bs \<le> 16 then Some (Inr (from_be_bytes (pad_left 16 bs)), n1)
          else Some (Inl ''Balance value too large (> u128)'', n1))"

definition L2StateSyncer_get_transaction_count ::
  "'v json \<Rightarrow> hex_crate \<Rightarrow> ('n, 'v) http_post \<Rightarrow> L2SyncConfig \<Rightarrow> Address \<Rightarrow> 'n \<Rightarrow> ((string + u64) \<times> 'n) option" where
  "L2StateSyncer_get_transaction_count J X post cfg addr n =
     (case eth_quantity J X post cfg ''eth_getTransactionCount'' ''nonce'' addr n of
        None \<Rightarrow> None
      | Some (Inl e, n1) \<Rightarrow> Some (Inl e, n1)
      | Some (Inr bs, n1) \<Rightarrow>
          if length bs \<le> 8 then Some (Inr (from_be_bytes (pad_left 8 bs)), n1)
          else Some (Inl ''Nonce value too large (> u64)'', n1))"

fun sync_loop ::
  "'v json \<Rightarrow> hex_crate \<Rightarrow> ('n, 'v) http_post \<Rightarrow> L2SyncConfig \<Rightarrow> Address list \<Rightarrow> SyncedEVMState list \<Rightarrow> 'n \<Rightarrow>
   ((string + SyncedEVMState list) \<times> 'n) option" where
  "sync_loop J X post cfg [] synced n = Some (Inr synced, n)"
| "sync_loop J X post cfg (a # as) synced n =
     (case L2StateSyncer_get_balance J X post cfg a n of
        None \<Rightarrow> None
      | Some (Inl e, n1) \<Rightarrow> Some (Inl e, n1)
      | Some (Inr b, n1) \<Rightarrow>
          (case L2StateSyncer_get_transaction_count J X post cfg a n1 of
             None \<Rightarrow> None
           | Some (Inl e, n2) \<Rightarrow> Some (Inl e, n2)
           | Some (Inr k, n2) \<Rightarrow>
               sync_loop J X post cfg as (synced @ [\<lparr>syn_address = a, syn_balance = b, syn_nonce = k\<rparr>]) n2))"

definition L2StateSyncer_sync ::
  "'v json \<Rightarrow> hex_crate \<Rightarrow> ('n, 'v) http_post \<Rightarrow> L2SyncConfig \<Rightarrow> 'n \<Rightarrow> ((string + SyncedEVMState list) \<times> 'n) option" where
  "L2StateSyncer_sync J X post cfg n = sync_loop J X post cfg (sync_addresses cfg) [] n"

fun write_nonces :: "('db, 'txn) redb_tables \<Rightarrow> 'db \<Rightarrow> SyncedEVMState list \<Rightarrow> 'db option" where
  "write_nonces R db [] = Some db"
| "write_nonces R db (s # ss) =
     Option.bind (RedbBalanceStore_set_evm_nonce R db (syn_address s) (syn_nonce s)) (\<lambda>db1. write_nonces R db1 ss)"

definition L2StateSyncer_sync_to_store ::
  "'v json \<Rightarrow> hex_crate \<Rightarrow> ('n, 'v) http_post \<Rightarrow> L2SyncConfig \<Rightarrow> ('db, 'txn) redb_tables \<Rightarrow> 'db \<Rightarrow> 'n \<Rightarrow>
   ((string + SyncedEVMState list) \<times> 'db \<times> 'n) option" where
  "L2StateSyncer_sync_to_store J X post cfg R db n =
     (case L2StateSyncer_sync J X post cfg n of
        None \<Rightarrow> None
      | Some (Inl e, n1) \<Rightarrow> Some (Inl e, db, n1)
      | Some (Inr synced, n1) \<Rightarrow> map_option (\<lambda>db1. (Inr synced, db1, n1)) (write_nonces R db synced))"

section \<open>What the endpoint answers\<close>

text \<open>
  An endpoint that answers a method for an address with a quantity in full bytes, whatever its state,
  and one whose quantities have an odd number of digits, as in \<open>0x0\<close>.
\<close>

definition answers ::
  "'v json \<Rightarrow> hex_crate \<Rightarrow> ('n, 'v) http_post \<Rightarrow> L2SyncConfig \<Rightarrow> string \<Rightarrow> Address \<Rightarrow> string \<Rightarrow> bool" where
  "answers J X post cfg meth addr text \<longleftrightarrow>
     (\<forall>n. \<exists>v n1. post n (rpc_url cfg) (eth_payload J X meth addr) = (Inr v, n1) \<and>
        j_get J v ''error'' = None \<and> Option.bind (j_get J v ''result'') (j_as_str J) = Some text)"

definition answers_bytes ::
  "'v json \<Rightarrow> hex_crate \<Rightarrow> ('n, 'v) http_post \<Rightarrow> L2SyncConfig \<Rightarrow> string \<Rightarrow> Address \<Rightarrow> bytes \<Rightarrow> bool" where
  "answers_bytes J X post cfg meth addr bs \<longleftrightarrow> answers J X post cfg meth addr (''0x'' @ hex_encode X bs)"

lemma eth_quantity_answer:
  assumes "answers J X post cfg meth addr text" "slice_from 2 text = Some ds"
  shows "\<exists>n1. eth_quantity J X post cfg meth what addr n =
    Some (case hex_decode X ds of Inl e \<Rightarrow> Inl (''Failed to decode '' @ what @ '' hex: '' @ e) | Inr bs \<Rightarrow> Inr bs, n1)"
proof -
  from assms(1) obtain v n1 where "post n (rpc_url cfg) (eth_payload J X meth addr) = (Inr v, n1)"
    "j_get J v ''error'' = None" "Option.bind (j_get J v ''result'') (j_as_str J) = Some text"
    unfolding answers_def by blast
  with assms(2) show ?thesis by (cases "hex_decode X ds") (simp_all add: eth_quantity_def)
qed

lemma eth_quantity_ok:
  assumes "hex_ok X" "answers_bytes J X post cfg meth addr bs"
  shows "\<exists>n1. eth_quantity J X post cfg meth what addr n = Some (Inr bs, n1)"
  using eth_quantity_answer [OF assms(2) [unfolded answers_bytes_def] slice_hex [OF hex_okD(4) [OF assms(1)]], of what n]
  by (simp add: hex_okD(1) [OF assms(1)])

lemma eth_quantity_odd:
  assumes "hex_ok X" "answers J X post cfg meth addr (''0x'' @ ds)" "hex_ascii ds" "odd (length ds)"
  shows "\<exists>e n1. eth_quantity J X post cfg meth what addr n = Some (Inl e, n1)"
proof -
  obtain e where "hex_decode X ds = Inl e" by (rule hex_odd_rejected [OF assms(1,4)])
  with eth_quantity_answer [OF assms(2) slice_hex [OF assms(3)], of what n] show ?thesis by auto
qed

section \<open>Properties\<close>

text \<open>
  The chain the endpoint reports: balances and nonces of the configured addresses, each as some bytes of
  at most the width of the integer.
\<close>

definition reports_chain ::
  "'v json \<Rightarrow> hex_crate \<Rightarrow> ('n, 'v) http_post \<Rightarrow> L2SyncConfig \<Rightarrow> (Address \<Rightarrow> u128) \<Rightarrow> (Address \<Rightarrow> u64) \<Rightarrow> bool" where
  "reports_chain J X post cfg bals counts \<longleftrightarrow>
     (\<forall>a \<in> set (sync_addresses cfg).
        (\<exists>bs. length bs \<le> 16 \<and> from_be_bytes (pad_left 16 bs) = bals a \<and>
              answers_bytes J X post cfg ''eth_getBalance'' a bs) \<and>
        (\<exists>bs. length bs \<le> 8 \<and> from_be_bytes (pad_left 8 bs) = counts a \<and>
              answers_bytes J X post cfg ''eth_getTransactionCount'' a bs))"

definition synced_of :: "(Address \<Rightarrow> u128) \<Rightarrow> (Address \<Rightarrow> u64) \<Rightarrow> Address \<Rightarrow> SyncedEVMState" where
  "synced_of bals counts a = \<lparr>syn_address = a, syn_balance = bals a, syn_nonce = counts a\<rparr>"

lemma sync_loop_ok:
  assumes "hex_ok X" "reports_chain J X post cfg bals counts"
  shows "set as \<subseteq> set (sync_addresses cfg) \<Longrightarrow>
    \<exists>n1. sync_loop J X post cfg as acc n = Some (Inr (acc @ map (synced_of bals counts) as), n1)"
proof (induction as arbitrary: acc n)
  case (Cons a as)
  from Cons.prems assms(2) obtain bs cs where
    b: "length bs \<le> 16" "from_be_bytes (pad_left 16 bs) = bals a" "answers_bytes J X post cfg ''eth_getBalance'' a bs" and
    c: "length cs \<le> 8" "from_be_bytes (pad_left 8 cs) = counts a" "answers_bytes J X post cfg ''eth_getTransactionCount'' a cs"
    unfolding reports_chain_def by (metis insert_subset list.simps(15))
  obtain n1 where "eth_quantity J X post cfg ''eth_getBalance'' ''balance'' a n = Some (Inr bs, n1)"
    using eth_quantity_ok [OF assms(1) b(3)] by blast
  moreover obtain n2 where "eth_quantity J X post cfg ''eth_getTransactionCount'' ''nonce'' a n1 = Some (Inr cs, n2)"
    using eth_quantity_ok [OF assms(1) c(3)] by blast
  moreover obtain n3 where "sync_loop J X post cfg as (acc @ [synced_of bals counts a]) n2 =
      Some (Inr ((acc @ [synced_of bals counts a]) @ map (synced_of bals counts) as), n3)"
    using Cons.IH [of "acc @ [synced_of bals counts a]" n2] Cons.prems by auto
  ultimately show ?case
    using b c by (simp add: L2StateSyncer_get_balance_def L2StateSyncer_get_transaction_count_def synced_of_def)
qed simp

lemma write_nonces_ok:
  assumes "redb_serves R content view"
  shows "\<exists>db1. write_nonces R db (map (synced_of bals counts) as) = Some db1 \<and>
    (\<forall>a. RedbBalanceStore_get_evm_nonce R db1 a =
           (if a \<in> set as then Some (Some (counts a)) else RedbBalanceStore_get_evm_nonce R db a)) \<and>
    c_state (content db1) = c_state (content db) \<and> c_bytes (content db1) = c_bytes (content db)"
proof (induction as arbitrary: db)
  case (Cons a as)
  from evm_nonce_round_trip [OF assms, of db a "counts a"] obtain db1 where db1:
    "RedbBalanceStore_set_evm_nonce R db a (counts a) = Some db1"
    "RedbBalanceStore_get_evm_nonce R db1 a = Some (Some (counts a))"
    "\<forall>b. b \<noteq> a \<longrightarrow> RedbBalanceStore_get_evm_nonce R db1 b = RedbBalanceStore_get_evm_nonce R db b"
    "c_state (content db1) = c_state (content db)" "c_bytes (content db1) = c_bytes (content db)" by blast
  from Cons.IH [of db1] db1 show ?case by (auto simp: synced_of_def)
qed simp

text \<open>
  C38: a sync against an endpoint that answers in full bytes returns the reported balance and nonce of
  every configured address, in order, and writes exactly the nonces: they read back, no other address's
  nonce changes, and no balance and no blob in the store does.
\<close>

theorem l2_sync_exact:
  assumes "hex_ok X" "reports_chain J X post cfg bals counts" "redb_serves R content view"
  shows "\<exists>db1 n1. L2StateSyncer_sync_to_store J X post cfg R db n =
      Some (Inr (map (synced_of bals counts) (sync_addresses cfg)), db1, n1) \<and>
    (\<forall>a. RedbBalanceStore_get_evm_nonce R db1 a =
      (if a \<in> set (sync_addresses cfg) then Some (Some (counts a)) else RedbBalanceStore_get_evm_nonce R db a)) \<and>
    c_state (content db1) = c_state (content db) \<and> c_bytes (content db1) = c_bytes (content db)"
proof -
  obtain n1 where "L2StateSyncer_sync J X post cfg n = Some (Inr (map (synced_of bals counts) (sync_addresses cfg)), n1)"
    using sync_loop_ok [OF assms(1,2) subset_refl, of "[]" n] by (auto simp: L2StateSyncer_sync_def)
  with write_nonces_ok [OF assms(3), of db bals counts "sync_addresses cfg"] show ?thesis
    by (auto simp: L2StateSyncer_sync_to_store_def)
qed

text \<open>
  An endpoint that reports the balance of the first address in the minimal form of the JSON-RPC
  standard, with an odd number of digits such as \<open>0x0\<close>, makes the whole sync fail, and nothing is written
  for any address.
\<close>

theorem l2_sync_rejects_minimal:
  assumes "hex_ok X" "sync_addresses cfg = a # rest"
    and "answers J X post cfg ''eth_getBalance'' a (''0x'' @ ds)" "hex_ascii ds" "odd (length ds)"
  shows "\<exists>e n1. L2StateSyncer_sync_to_store J X post cfg R db n = Some (Inl e, db, n1)"
  using eth_quantity_odd [OF assms(1,3-5), of "''balance''" n]
  by (auto simp: L2StateSyncer_sync_to_store_def L2StateSyncer_sync_def assms(2) L2StateSyncer_get_balance_def)

section \<open>A concrete endpoint\<close>

text \<open>It answers every query with one text.\<close>

definition constant_endpoint :: "string \<Rightarrow> (unit, toy_value) http_post" where
  "constant_endpoint text n url payload = (Inr (TObj [(''jsonrpc'', TStr ''2.0''), (''result'', TStr text)]), ())"

definition toy_sync :: L2SyncConfig where
  "toy_sync = \<lparr>rpc_url = ''http://localhost:8545'', sync_addresses = [Address (replicate 20 1)]\<rparr>"

lemma constant_endpoint_answers: "answers toy_json X (constant_endpoint text) cfg meth a text"
  by (simp add: answers_def constant_endpoint_def toy_json_def)

theorem l2_sync_exact_witness:
  "\<exists>db1 n1. L2StateSyncer_sync_to_store toy_json toy_hex (constant_endpoint (''0x'' @ hex_encode toy_hex [5])) toy_sync
      fm_tables fm_fresh () = Some (Inr [\<lparr>syn_address = Address (replicate 20 1), syn_balance = 5, syn_nonce = 5\<rparr>], db1, n1) \<and>
    RedbBalanceStore_get_evm_nonce fm_tables db1 (Address (replicate 20 1)) = Some (Some 5)"
proof -
  have five: "from_be_bytes (pad_left 16 [5]) = (5 :: u128)" "from_be_bytes (pad_left 8 [5]) = (5 :: u64)"
    by code_simp+
  have "reports_chain toy_json toy_hex (constant_endpoint (''0x'' @ hex_encode toy_hex [5])) toy_sync (\<lambda>_. 5) (\<lambda>_. 5)"
    unfolding reports_chain_def answers_bytes_def
    by (intro ballI conjI exI [of _ "[5]"] constant_endpoint_answers) (simp_all add: five)
  from l2_sync_exact [OF toy_hex_ok this fm_tables_serve, of fm_fresh "()"] show ?thesis
    by (auto simp: toy_sync_def synced_of_def)
qed

theorem l2_sync_rejects_minimal_witness:
  "\<exists>e n1. L2StateSyncer_sync_to_store toy_json toy_hex (constant_endpoint ''0x0'') toy_sync fm_tables fm_fresh ()
     = Some (Inl e, fm_fresh, n1)"
proof -
  have "hex_ascii ''0''" by (simp add: hex_ascii_def continuation_byte_def)
  moreover have "answers toy_json toy_hex (constant_endpoint ''0x0'') toy_sync ''eth_getBalance'' (Address (replicate 20 1)) (''0x'' @ ''0'')"
    using constant_endpoint_answers [of toy_hex "''0x0''" toy_sync "''eth_getBalance''" "Address (replicate 20 1)"] by simp
  ultimately show ?thesis
    using l2_sync_rejects_minimal [OF toy_hex_ok, of toy_sync "Address (replicate 20 1)" "[]" toy_json
        "constant_endpoint ''0x0''" "''0''" fm_tables fm_fresh "()"]
    by (simp add: toy_sync_def)
qed

end
