(* ===== verification/L1_Reader.thy ===== *)
theory L1_Reader
  imports Json_Rpc Anchor
begin

text \<open>
  The anchor reader over JSON-RPC (\<open>RpcL1AnchorReader\<close> of \<open>suwappudb-bridge/src/anchor/l1_reader.rs\<close>): the
  call to the registry contract, the decoding of its answer and the authenticator check. A panic is the
  result \<open>None\<close>.
\<close>

section \<open>The reader\<close>

record RpcL1AnchorReader =
  l1_rpc_url :: string
  registry_addr :: string

definition get_anchor_payload :: "'v json \<Rightarrow> RpcL1AnchorReader \<Rightarrow> ChainId \<Rightarrow> u64 \<Rightarrow> 'v" where
  "get_anchor_payload J r chain height =
     (let data = ''0x'' @ hex_padded 64 (unat (chain_num chain)) @ hex_padded 64 (unat height)
      in j_obj J [(''jsonrpc'', j_str J ''2.0''), (''method'', j_str J ''eth_call''),
                  (''params'', j_arr J [j_obj J [(''to'', j_str J (registry_addr r)), (''data'', j_str J data)], j_str J ''latest'']),
                  (''id'', j_int J 1)])"

definition RpcL1AnchorReader_call_get_anchor ::
  "'v json \<Rightarrow> ('n, 'v) http_post \<Rightarrow> RpcL1AnchorReader \<Rightarrow> ChainId \<Rightarrow> u64 \<Rightarrow> 'n \<Rightarrow> (string + 'v) \<times> 'n" where
  "RpcL1AnchorReader_call_get_anchor J post r chain height n =
     (case post n (l1_rpc_url r) (get_anchor_payload J r chain height) of
        (Inr result, n1) \<Rightarrow>
          (case j_get J result ''error'' of
             Some err \<Rightarrow> (Inl (''RPC error: '' @ j_show J err), n1)
           | None \<Rightarrow> (Inr result, n1))
      | (Inl (BodyInvalid e), n1) \<Rightarrow> (Inl (''Failed to parse response: '' @ e), n1)
      | (Inl (SendFailed e), n1) \<Rightarrow> (Inl (''RPC call failed: '' @ e), n1))"

definition RpcL1AnchorReader_decode_anchor ::
  "'x crypto \<Rightarrow> 'v json \<Rightarrow> hex_crate \<Rightarrow> 'v \<Rightarrow> ChainId \<Rightarrow> u64 \<Rightarrow> bytes \<Rightarrow> Anchor option option" where
  "RpcL1AnchorReader_decode_anchor C J X result chain height key =
     (case Option.bind (j_get J result ''result'') (j_as_str J) of
        None \<Rightarrow> Some None
      | Some data_hex \<Rightarrow>
          (case slice_from 2 data_hex of
             None \<Rightarrow> None
           | Some ds \<Rightarrow>
               (case hex_decode X ds of
                  Inl _ \<Rightarrow> Some None
                | Inr data \<Rightarrow>
                    if length data < 96 then Some None
                    else
                      let a = \<lparr>an_chain_id = chain, an_height = height, an_state_root = Commitment (take 32 data),
                               an_parent = AnchorHash (take 32 (drop 32 data)), an_mac = take 32 (drop 64 data),
                               an_auth_scheme = Scheme_Blake3Mac\<rparr>
                      in Some (if Anchor_verify_auth C a key then Some a else None))))"

definition RpcL1AnchorReader_read_anchor ::
  "'x crypto \<Rightarrow> 'v json \<Rightarrow> hex_crate \<Rightarrow> ('n, 'v) http_post \<Rightarrow> RpcL1AnchorReader \<Rightarrow> ChainId \<Rightarrow> u64 \<Rightarrow> 'n \<Rightarrow>
   (Anchor option \<times> 'n) option" where
  "RpcL1AnchorReader_read_anchor C J X post r chain height n =
     (let placeholder_key = replicate 32 0
      in case RpcL1AnchorReader_call_get_anchor J post r chain height n of
           (Inr result, n1) \<Rightarrow>
             map_option (\<lambda>a. (a, n1)) (RpcL1AnchorReader_decode_anchor C J X result chain height placeholder_key)
         | (Inl _, n1) \<Rightarrow> Some (None, n1))"

section \<open>What the reader returns\<close>

text \<open>The registry answers the call for an anchor with its root, parent and authenticator.\<close>

definition registry_holds ::
  "'v json \<Rightarrow> hex_crate \<Rightarrow> ('n, 'v) http_post \<Rightarrow> RpcL1AnchorReader \<Rightarrow> Anchor \<Rightarrow> bool" where
  "registry_holds J X post r a \<longleftrightarrow>
     (\<forall>n. \<exists>v n1. post n (l1_rpc_url r) (get_anchor_payload J r (an_chain_id a) (an_height a)) = (Inr v, n1) \<and>
        j_get J v ''error'' = None \<and>
        Option.bind (j_get J v ''result'') (j_as_str J) =
          Some (''0x'' @ hex_encode X (com_bytes (an_state_root a) @ anchor_hash_bytes (an_parent a) @ an_mac a)))"

text \<open>
  Reading back an anchor that the registry holds for a MAC chain returns it exactly when its
  authenticator is the one of the all-zero key, whatever key the chain was registered with: for any
  other key whose MAC differs, the reader reports no anchor.
\<close>

theorem rpc_reader_placeholder_key:
  assumes "hex_ok X" "length (com_bytes root) = 32" "length (anchor_hash_bytes par) = 32"
    and "\<And>key bs. length (blake3_keyed C key bs) = 32"
    and "a = Anchor_new C chain height root par key" "registry_holds J X post r a"
  shows "\<exists>n1. RpcL1AnchorReader_read_anchor C J X post r chain height n =
    Some (if compute_mac C chain height root par key = compute_mac C chain height root par (replicate 32 0)
          then Some a else None, n1)"
proof -
  let ?data = "com_bytes root @ anchor_hash_bytes par @ compute_mac C chain height root par key"
  have mac: "length (compute_mac C chain height root par key) = 32" by (simp add: compute_mac_def assms(4))
  have "an_chain_id a = chain" "an_height a = height"
    "com_bytes (an_state_root a) @ anchor_hash_bytes (an_parent a) @ an_mac a = ?data" by (simp_all add: assms(5) Anchor_new_def)
  with assms(6) [unfolded registry_holds_def, THEN spec, of n] obtain v n1 where v: "post n (l1_rpc_url r) (get_anchor_payload J r chain height) = (Inr v, n1)"
    "j_get J v ''error'' = None" "Option.bind (j_get J v ''result'') (j_as_str J) = Some (''0x'' @ hex_encode X ?data)"
    by auto
  have "hex_decode X (hex_encode X ?data) = Inr ?data" by (rule hex_okD(1) [OF assms(1)])
  moreover have "slice_from 2 (''0x'' @ hex_encode X ?data) = Some (hex_encode X ?data)"
    by (rule slice_hex [OF hex_okD(4) [OF assms(1)]])
  moreover have "take 32 ?data = com_bytes root" "take 32 (drop 32 ?data) = anchor_hash_bytes par"
    "take 32 (drop 64 ?data) = compute_mac C chain height root par key" "96 \<le> length ?data"
    using assms(2,3) mac by simp_all
  ultimately show ?thesis
    using v unfolding RpcL1AnchorReader_read_anchor_def RpcL1AnchorReader_call_get_anchor_def
      RpcL1AnchorReader_decode_anchor_def
    by (simp add: Let_def assms(5) Anchor_new_def Anchor_verify_auth_def Anchor_verify_auth_result_def Anchor_verify_mac_def)
qed

section \<open>A concrete registry\<close>

definition toy_anchor :: Anchor where
  "toy_anchor = Anchor_new toy_crypto (ChainId 1) 5 (Commitment (replicate 32 42)) ANCHOR_GENESIS_PARENT (replicate 32 1)"

definition toy_registry :: "(unit, toy_value) http_post" where
  "toy_registry n url payload =
     (Inr (TObj [(''result'', TStr (''0x'' @ hex_encode toy_hex
        (com_bytes (an_state_root toy_anchor) @ anchor_hash_bytes (an_parent toy_anchor) @ an_mac toy_anchor)))]), ())"

definition toy_reader :: RpcL1AnchorReader where
  "toy_reader = \<lparr>l1_rpc_url = ''http://localhost:8545'', registry_addr = ''0x00''\<rparr>"

theorem rpc_reader_placeholder_key_witness:
  "\<exists>n1. RpcL1AnchorReader_read_anchor toy_crypto toy_json toy_hex toy_registry toy_reader (ChainId 1) 5 () = Some (None, n1)"
proof -
  have holds: "registry_holds toy_json toy_hex toy_registry toy_reader toy_anchor"
    by (simp add: registry_holds_def toy_registry_def toy_json_def)
  have len: "length (blake3_keyed toy_crypto key bs) = 32" for key bs by (simp add: toy_crypto_def pad32_def)
  have "compute_mac toy_crypto (ChainId 1) 5 (Commitment (replicate 32 42)) ANCHOR_GENESIS_PARENT (replicate 32 1) \<noteq>
      compute_mac toy_crypto (ChainId 1) 5 (Commitment (replicate 32 42)) ANCHOR_GENESIS_PARENT (replicate 32 0)"
    by (simp add: compute_mac_def toy_crypto_def pad32_def)
  moreover have "length (com_bytes (Commitment (replicate 32 42))) = 32" "length (anchor_hash_bytes ANCHOR_GENESIS_PARENT) = 32"
    by (simp_all add: ANCHOR_GENESIS_PARENT_def)
  ultimately show ?thesis
    using rpc_reader_placeholder_key [OF toy_hex_ok _ _ len toy_anchor_def holds, of "()"] by simp
qed

end
