(* ===== verification/Server.thy ===== *)
theory Server
  imports Json_Rpc Dispatcher Tree_Security
begin

text \<open>
  The server (\<open>suwappudb-server/src\<close>): bearer-token authentication (\<open>auth.rs\<close>), the JSON-RPC handler of the
  library (\<open>rpc.rs\<close>) and the one of the binary (\<open>main.rs\<close>). Requests are handled one at a time under the
  state's lock, and no method changes the state. The HTTP framework is a parameter: a request is the value
  of its authorization header and what the next layer would answer.
\<close>

section \<open>Bearer tokens\<close>

record BearerAuthConfig =
  expected_token :: "string option"

definition BearerAuthConfig_default :: BearerAuthConfig where
  "BearerAuthConfig_default = \<lparr>expected_token = None\<rparr>"

definition BearerAuthConfig_with_token :: "string \<Rightarrow> BearerAuthConfig" where
  "BearerAuthConfig_with_token token = \<lparr>expected_token = Some token\<rparr>"

text \<open>The environment variable, absent or not valid Unicode as \<open>None\<close>.\<close>

definition BearerAuthConfig_from_env :: "string option \<Rightarrow> BearerAuthConfig" where
  "BearerAuthConfig_from_env var =
     (case var of
        Some t \<Rightarrow> if t \<noteq> [] then BearerAuthConfig_with_token t else BearerAuthConfig_default
      | None \<Rightarrow> BearerAuthConfig_default)"

definition BearerAuthConfig_is_enabled :: "BearerAuthConfig \<Rightarrow> bool" where
  "BearerAuthConfig_is_enabled cfg \<longleftrightarrow> expected_token cfg \<noteq> None"

definition constant_time_eq :: "bytes \<Rightarrow> bytes \<Rightarrow> bool" where
  "constant_time_eq a b =
     (if length a \<noteq> length b then False
      else fold (\<lambda>(x, y) diff. or diff (xor x y)) (zip a b) 0 = (0 :: u8))"

datatype StatusCode = UNAUTHORIZED

definition strip_prefix :: "string \<Rightarrow> string \<Rightarrow> string option" where
  "strip_prefix p s = (if take (length p) s = p then Some (drop (length p) s) else None)"

text \<open>\<open>header\<close> is the header value if it is present and readable as a string.\<close>

definition bearer_auth :: "BearerAuthConfig \<Rightarrow> string option \<Rightarrow> 'resp \<Rightarrow> StatusCode + 'resp" where
  "bearer_auth cfg header next_response =
     (case expected_token cfg of
        None \<Rightarrow> Inr next_response
      | Some expected \<Rightarrow>
          (case header of
             None \<Rightarrow> Inl UNAUTHORIZED
           | Some h \<Rightarrow>
               (case strip_prefix ''Bearer '' h of
                  None \<Rightarrow> Inl UNAUTHORIZED
                | Some token \<Rightarrow>
                    if constant_time_eq (ascii token) (ascii expected) then Inr next_response else Inl UNAUTHORIZED)))"

section \<open>The library's handler\<close>

record RpcHandler =
  rpc_state :: State
  rpc_dispatcher :: AnchorDispatcher

definition parse_address_param :: "'v json \<Rightarrow> hex_crate \<Rightarrow> 'v \<Rightarrow> Address option" where
  "parse_address_param J X v =
     (case j_as_str J v of
        None \<Rightarrow> None
      | Some raw \<Rightarrow>
          let hex_part = strip_0x raw in
          if length hex_part \<noteq> 40 then None
          else (case hex_decode X hex_part of
                  Inl _ \<Rightarrow> None
                | Inr bs \<Rightarrow> if length bs = 20 then Some (Address bs) else None))"

definition RpcHandler_get_balance :: "'v json \<Rightarrow> hex_crate \<Rightarrow> RpcHandler \<Rightarrow> 'v list \<Rightarrow> 'v" where
  "RpcHandler_get_balance J X h ps =
     (if ps = [] then j_obj J [(''error'', j_str J ''missing address parameter'')]
      else case parse_address_param J X (ps ! 0) of
        Some addr \<Rightarrow>
          let slot = State_slot_of (rpc_state h) addr
          in j_obj J [(''balance'', j_str J (to_decimal (unat (EvmBalance_to_u128 (BalanceSlot_evm_balance slot))))),
                      (''address'', j_str J (hex_encode X (addr_bytes addr)))]
      | None \<Rightarrow> j_obj J [(''error'', j_str J ''invalid address format'')])"

definition RpcHandler_get_coin_value :: "'v json \<Rightarrow> hex_crate \<Rightarrow> RpcHandler \<Rightarrow> 'v list \<Rightarrow> 'v" where
  "RpcHandler_get_coin_value J X h ps =
     (if ps = [] then j_obj J [(''error'', j_str J ''missing address parameter'')]
      else case parse_address_param J X (ps ! 0) of
        Some addr \<Rightarrow>
          let slot = State_slot_of (rpc_state h) addr
          in j_obj J [(''coin_value'', j_str J (to_decimal (unat (MoveCoinValue_to_u128 (BalanceSlot_move_coin_value slot))))),
                      (''address'', j_str J (hex_encode X (addr_bytes addr)))]
      | None \<Rightarrow> j_obj J [(''error'', j_str J ''invalid address format'')])"

definition RpcHandler_get_state_root :: "'x crypto \<Rightarrow> 'v json \<Rightarrow> RpcHandler \<Rightarrow> 'v" where
  "RpcHandler_get_state_root C J h =
     (let root = StateTree_root (blake3 C) (StateTree_from_state (rpc_state h))
      in j_obj J [(''state_root'', j_str J (hex_lower (com_bytes root)))])"

definition RpcHandler_get_block :: "'v json \<Rightarrow> 'v list \<Rightarrow> 'v" where
  "RpcHandler_get_block J ps = j_obj J [(''error'', j_str J ''not yet implemented'')]"

definition RpcHandler_submit_intent :: "'v json \<Rightarrow> 'v list \<Rightarrow> 'v" where
  "RpcHandler_submit_intent J ps = j_obj J [(''error'', j_str J ''not yet implemented'')]"

text \<open>The dispatcher's parity check panics on a chain without a configuration.\<close>

definition RpcHandler_get_parity :: "'x crypto \<Rightarrow> 'v json \<Rightarrow> RpcHandler \<Rightarrow> 'v list \<Rightarrow> 'v option" where
  "RpcHandler_get_parity C J h ps =
     (if ps = [] then Some (j_obj J [(''error'', j_str J ''missing height parameter'')])
      else case j_as_u64 J (ps ! 0) of
        None \<Rightarrow> Some (j_obj J [(''error'', j_str J ''height must be a valid u64'')])
      | Some height \<Rightarrow>
          map_option
            (\<lambda>res. case res of
               Agreed root \<Rightarrow>
                 j_obj J [(''parity'', j_str J ''agreed''), (''state_root'', j_str J (hex_lower (com_bytes root))),
                          (''height'', j_int J (uint height))]
             | Disagreed divergent missing \<Rightarrow>
                 j_obj J [(''parity'', j_str J ''disagreed''), (''height'', j_int J (uint height)),
                          (''divergent'', j_arr J (map (\<lambda>(chain, root).
                             j_obj J [(''chain_id'', j_int J (uint (chain_num chain))),
                                      (''state_root'', j_str J (hex_lower (com_bytes root)))]) divergent)),
                          (''missing'', j_arr J (map (\<lambda>chain. j_int J (uint (chain_num chain))) missing))])
            (AnchorDispatcher_parity_check C (rpc_dispatcher h) height))"

definition RpcHandler_handle :: "'x crypto \<Rightarrow> 'v json \<Rightarrow> hex_crate \<Rightarrow> RpcHandler \<Rightarrow> string \<Rightarrow> 'v list \<Rightarrow> 'v option" where
  "RpcHandler_handle C J X h method ps =
     (if method = ''suwappu_getBalance'' then Some (RpcHandler_get_balance J X h ps)
      else if method = ''suwappu_getCoinValue'' then Some (RpcHandler_get_coin_value J X h ps)
      else if method = ''suwappu_getStateRoot'' then Some (RpcHandler_get_state_root C J h)
      else if method = ''suwappu_getBlock'' then Some (RpcHandler_get_block J ps)
      else if method = ''suwappu_getParity'' then RpcHandler_get_parity C J h ps
      else if method = ''suwappu_submitIntent'' then Some (RpcHandler_submit_intent J ps)
      else Some (j_obj J [(''error'', j_str J ''method not found''), (''code'', j_int J (-32601))]))"

section \<open>The binary's handler\<close>

text \<open>Forty digits decode to twenty bytes, so the copy into the array has the right length.\<close>

definition parse_address :: "hex_crate \<Rightarrow> string \<Rightarrow> string + Address" where
  "parse_address X s =
     (let hex_str = strip_0x s in
      if length hex_str \<noteq> 40 then Inl ''Address must be 20 bytes (40 hex chars)''
      else (case hex_decode X hex_str of
              Inl e \<Rightarrow> Inl (''Invalid hex: '' @ e)
            | Inr bs \<Rightarrow> Inr (Address bs)))"

record JsonRpcError =
  err_code :: int
  err_message :: string

record 'v JsonRpcResponse =
  resp_result :: "'v option"
  resp_error :: "JsonRpcError option"
  resp_id :: 'v

definition rpc_error :: "'v \<Rightarrow> int \<Rightarrow> string \<Rightarrow> 'v JsonRpcResponse" where
  "rpc_error i code msg = \<lparr>resp_result = None, resp_error = Some \<lparr>err_code = code, err_message = msg\<rparr>, resp_id = i\<rparr>"

text \<open>The placeholder root: a digest of the addresses in the iteration order of the state.\<close>

definition entries_digest :: "'x crypto \<Rightarrow> State \<Rightarrow> bytes" where
  "entries_digest C st = blake3 C (concat (map (\<lambda>(addr, slot). addr_bytes addr) (State_entries st)))"

definition rpc :: "'x crypto \<Rightarrow> 'v json \<Rightarrow> hex_crate \<Rightarrow> State \<Rightarrow> string \<Rightarrow> 'v \<Rightarrow> 'v \<Rightarrow> 'v JsonRpcResponse" where
  "rpc C J X st method ps i =
     (if method = ''suwappu_getBalance'' then
        case j_as_array J ps of
          Some vs \<Rightarrow>
            if vs = [] then rpc_error i (-32602) ''Missing required parameter: address''
            else (case j_as_str J (vs ! 0) of
                    Some addr_str \<Rightarrow>
                      (case parse_address X addr_str of
                         Inr addr \<Rightarrow>
                           \<lparr>resp_result = Some (j_obj J [(''address'', j_str J addr_str),
                              (''balance'', j_str J (to_decimal (unat (balance_val (State_balance_of st addr)))))]),
                            resp_error = None, resp_id = i\<rparr>
                       | Inl _ \<Rightarrow> rpc_error i (-32602) ''Invalid address format'')
                  | None \<Rightarrow> rpc_error i (-32602) ''Invalid parameter: address must be a string'')
        | None \<Rightarrow> rpc_error i (-32602) ''Invalid parameters: must be an array''
      else if method = ''suwappu_getStateRoot'' then
        \<lparr>resp_result = Some (j_obj J [(''state_root'', j_str J (''0x'' @ hex_encode X (entries_digest C st)))]),
         resp_error = None, resp_id = i\<rparr>
      else rpc_error i (-32601) ''Method not found'')"

section \<open>Authentication\<close>

lemma xor_zero_iff: "xor x y = 0 \<longleftrightarrow> x = y" for x y :: "'a::len word"
proof
  assume "xor x y = 0"
  then have "xor x (xor x y) = x" by simp
  then show "x = y" by (simp add: xor.assoc [symmetric])
qed simp

lemma or_fold_zero:
  "fold (\<lambda>(x, y) diff. or diff (xor x y)) ps d = (0 :: 'a::len word) \<longleftrightarrow> d = 0 \<and> (\<forall>(x, y) \<in> set ps. x = y)"
  by (induction ps arbitrary: d) (auto simp: or_eq_0_iff xor_zero_iff)

lemma constant_time_eq_iff: "constant_time_eq a b \<longleftrightarrow> a = b"
proof (cases "length a = length b")
  case True
  then have "(\<forall>(x, y) \<in> set (zip a b). x = y) \<longleftrightarrow> a = b" by (induction a b rule: list_induct2) auto
  with True show ?thesis by (simp add: constant_time_eq_def or_fold_zero)
qed (auto simp: constant_time_eq_def)

lemma ascii_inj: "ascii s = ascii t \<longleftrightarrow> s = t"
proof -
  have "unat (of_char c :: u8) = of_char c" for c
  proof -
    have "(of_char c :: u8) = of_nat (of_char c)" by (simp only: of_nat_of_char)
    then show ?thesis by (simp only: unat_of_nat) simp
  qed
  then have "inj (of_char :: char \<Rightarrow> u8)" by (metis injI of_char_eq_iff)
  then show ?thesis by (simp add: ascii_def inj_map_eq_map)
qed

text \<open>
  C39: the authentication layer lets a request through exactly when no token is configured or the header
  is the scheme followed by the token; every other request, with a missing, unreadable or different
  header, is rejected before the handler runs.
\<close>

theorem bearer_auth_exact:
  "bearer_auth cfg header response =
     (if BearerAuthConfig_is_enabled cfg \<and> header \<noteq> Some (''Bearer '' @ the (expected_token cfg))
      then Inl UNAUTHORIZED else Inr response)"
proof (cases "expected_token cfg")
  case (Some t)
  have "strip_prefix ''Bearer '' h = Some u \<longleftrightarrow> h = ''Bearer '' @ u" for h u
    by (auto simp: strip_prefix_def) (metis append_Cons append_Nil append_take_drop_id)
  then have strip: "strip_prefix ''Bearer '' h = None \<or> (\<exists>u. strip_prefix ''Bearer '' h = Some u \<and> h = ''Bearer '' @ u)" for h
    by (cases "strip_prefix ''Bearer '' h") auto
  show ?thesis
  proof (cases header)
    case (Some h)
    with \<open>expected_token cfg = Some t\<close> strip [of h] show ?thesis
      by (auto simp: bearer_auth_def BearerAuthConfig_is_enabled_def constant_time_eq_iff ascii_inj strip_prefix_def)
  qed (simp add: bearer_auth_def BearerAuthConfig_is_enabled_def Some)
qed (simp add: bearer_auth_def BearerAuthConfig_is_enabled_def)

section \<open>Queries\<close>

lemma parse_0x:
  assumes "json_ok J" "hex_ok X" "wf_addr a"
  shows "parse_address_param J X (j_str J (''0x'' @ hex_encode X (addr_bytes a))) = Some a"
    and "parse_address X (''0x'' @ hex_encode X (addr_bytes a)) = Inr a"
  using assms
  by (auto simp: parse_address_param_def parse_address_def strip_0x_def json_okD hex_okD(1,2) wf_addr_def Address_collapse)

text \<open>
  The two handlers and the two views agree: for any address the balance and the coin value reported by
  the library's handler and the balance reported by the binary's handler are the same decimal numeral,
  the one of the balance in the state.
\<close>

theorem server_views_agree:
  assumes "json_ok J" "hex_ok X" "wf_addr a" "p = j_str J (''0x'' @ hex_encode X (addr_bytes a))"
  shows "\<exists>v w u. RpcHandler_handle C J X h ''suwappu_getBalance'' [p] = Some v \<and>
    RpcHandler_handle C J X h ''suwappu_getCoinValue'' [p] = Some w \<and>
    resp_result (rpc C J X (rpc_state h) ''suwappu_getBalance'' (j_arr J [p]) i) = Some u \<and>
    j_get J v ''balance'' = Some (j_str J (to_decimal (unat (bal (rpc_state h) a)))) \<and>
    j_get J w ''coin_value'' = j_get J v ''balance'' \<and> j_get J u ''balance'' = j_get J v ''balance''"
  using parse_0x [OF assms(1-3)] json_okD [OF assms(1)]
  by (simp add: assms(4) RpcHandler_handle_def RpcHandler_get_balance_def RpcHandler_get_coin_value_def rpc_def
      BalanceSlot_evm_balance_def BalanceSlot_move_coin_value_def State_slot_of_def State_balance_of_def
      BalanceSlot_as_balance_def)

section \<open>The binary's state root\<close>

definition two_accounts :: "Address \<Rightarrow> Address \<Rightarrow> State" where
  "two_accounts a b = State_apply (State_apply State_default (SetBalance a (Balance 1))) (SetBalance b (Balance 1))"

lemma two_accounts_entries:
  "a \<noteq> b \<Longrightarrow> State_entries (two_accounts a b) = [(a, BalanceSlot_new 1), (b, BalanceSlot_new 1)]"
  by (simp add: two_accounts_def State_entries_def State_apply.simps State_default_def InMemory_entries_def
      InMemory_set_def InMemory_new_def)

text \<open>
  C40: the state root the binary reports is not a commitment to the state. It does not depend on the
  balances: states with the same addresses in the same iteration order have the same root. And it does
  depend on that order: two states that agree on every account, and whose state trees are equal, are
  given different roots when the digest separates the two orders of their addresses.
\<close>

theorem server_root_not_a_commitment:
  assumes "json_ok J" "hex_ok X" "a \<noteq> b" "wf_addr a" "wf_addr b"
    and "blake3 C (addr_bytes a @ addr_bytes b) \<noteq> blake3 C (addr_bytes b @ addr_bytes a)"
  shows "(\<forall>st st'. map fst (State_entries st) = map fst (State_entries st') \<longrightarrow>
      rpc C J X st ''suwappu_getStateRoot'' p i = rpc C J X st' ''suwappu_getStateRoot'' p i) \<and>
    (\<exists>st st'. (\<forall>x. State_slot_of st x = State_slot_of st' x) \<and> StateTree_from_state st = StateTree_from_state st' \<and>
      rpc C J X st ''suwappu_getStateRoot'' p i \<noteq> rpc C J X st' ''suwappu_getStateRoot'' p i)"
proof
  have digest: "entries_digest C st = blake3 C (concat (map addr_bytes (map fst (State_entries st))))" for st
    by (simp add: entries_digest_def case_prod_unfold comp_def)
  show "\<forall>st st'. map fst (State_entries st) = map fst (State_entries st') \<longrightarrow>
      rpc C J X st ''suwappu_getStateRoot'' p i = rpc C J X st' ''suwappu_getStateRoot'' p i"
  proof (intro allI impI)
    fix st st' assume "map fst (State_entries st) = map fst (State_entries st')"
    then have "entries_digest C st = entries_digest C st'" by (simp only: digest)
    then show "rpc C J X st ''suwappu_getStateRoot'' p i = rpc C J X st' ''suwappu_getStateRoot'' p i"
      by (simp add: rpc_def)
  qed
  let ?st = "two_accounts a b" and ?st' = "two_accounts b a"
  have ne: "entries_digest C ?st \<noteq> entries_digest C ?st'"
    using assms(3,6) by (simp add: digest two_accounts_entries)
  have root: "Option.bind (resp_result (rpc C J X st ''suwappu_getStateRoot'' p i)) (\<lambda>v. Option.bind (j_get J v ''state_root'') (j_as_str J))
      = Some (''0x'' @ hex_encode X (entries_digest C st))" for st
    by (simp add: rpc_def json_okD [OF assms(1)])
  have inj: "hex_encode X (entries_digest C ?st) \<noteq> hex_encode X (entries_digest C ?st')"
    using ne hex_okD(1) [OF assms(2)] by (metis sum.inject(2))
  have "rpc C J X ?st ''suwappu_getStateRoot'' p i \<noteq> rpc C J X ?st' ''suwappu_getStateRoot'' p i"
  proof
    assume "rpc C J X ?st ''suwappu_getStateRoot'' p i = rpc C J X ?st' ''suwappu_getStateRoot'' p i"
    with root [of ?st] root [of ?st'] inj show False by simp
  qed
  moreover have "State_slot_of ?st x = State_slot_of ?st' x" for x
    by (simp add: two_accounts_def State_slot_of_def State_apply.simps InMemory_get_def InMemory_set_def)
  moreover have "StateTree_from_state ?st = StateTree_from_state ?st'"
  proof (rule from_state_cong)
    show "State_invar ?st" "State_invar ?st'" by (simp_all add: two_accounts_def)
    show "set (State_entries ?st) = set (State_entries ?st')"
      "\<forall>e \<in> set (State_entries ?st). wf_addr (fst e)" using assms(3-5) by (auto simp: two_accounts_entries)
  qed
  ultimately show "\<exists>st st'. (\<forall>x. State_slot_of st x = State_slot_of st' x) \<and> StateTree_from_state st = StateTree_from_state st' \<and>
      rpc C J X st ''suwappu_getStateRoot'' p i \<noteq> rpc C J X st' ''suwappu_getStateRoot'' p i" by blast
qed

theorem server_views_agree_witness:
  "\<exists>v. RpcHandler_handle toy_crypto toy_json toy_hex
     \<lparr>rpc_state = two_accounts (addr_of 1) (addr_of 2), rpc_dispatcher = AnchorDispatcher_new\<rparr> ''suwappu_getBalance''
       [TStr (''0x'' @ hex_encode toy_hex (addr_bytes (addr_of 1)))] = Some v \<and>
     j_get toy_json v ''balance'' = Some (TStr (to_decimal (unat (bal (two_accounts (addr_of 1) (addr_of 2)) (addr_of 1)))))"
  using server_views_agree [OF toy_json_ok toy_hex_ok wf_addr_of refl, of toy_crypto
      "\<lparr>rpc_state = two_accounts (addr_of 1) (addr_of 2), rpc_dispatcher = AnchorDispatcher_new\<rparr>" 1 "TStr []"]
  by (auto simp: toy_json_def)

theorem server_root_not_a_commitment_witness:
  "\<exists>st st'. (\<forall>x. State_slot_of st x = State_slot_of st' x) \<and>
     rpc toy_crypto toy_json toy_hex st ''suwappu_getStateRoot'' (TArr []) (TInt 1) \<noteq>
     rpc toy_crypto toy_json toy_hex st' ''suwappu_getStateRoot'' (TArr []) (TInt 1)"
proof -
  have "addr_of 1 \<noteq> addr_of 2" by (simp add: addr_of_eq)
  moreover have "blake3 toy_crypto (addr_bytes (addr_of 1) @ addr_bytes (addr_of 2)) \<noteq>
      blake3 toy_crypto (addr_bytes (addr_of 2) @ addr_bytes (addr_of 1))" by code_simp
  ultimately show ?thesis
    using server_root_not_a_commitment [OF toy_json_ok toy_hex_ok _ wf_addr_of wf_addr_of, of 1 2 toy_crypto] by blast
qed

end
