(* ===== verification/Server_App.thy ===== *)
theory Server_App
  imports Server
begin

text \<open>
  The server as a program (\<open>server/src/main.rs\<close>, \<open>config.rs\<close>, the request types of \<open>rpc.rs\<close>): the configuration, the
  routes and the state the binary starts with. The HTTP framework is a parameter: a request is a method, a path,
  an authorization header and the JSON document of its body, absent when the body does not parse; a body that lacks
  a field is refused by the extractor.
\<close>

section \<open>Configuration\<close>

record AnchorConfig =
  acfg_chain_id :: u64
  acfg_key :: string

record Config =
  state_db_path :: string
  block_db_path :: string
  rpc_port :: u16
  cfg_metrics_port :: u16
  cfg_anchors :: "AnchorConfig list"

text \<open>\<open>str::parse::<u16>()\<close>: an optional plus sign and at least one decimal digit, at most 65535.\<close>

fun parse_digits :: "nat \<Rightarrow> string \<Rightarrow> nat option" where
  "parse_digits acc [] = Some acc"
| "parse_digits acc (c # cs) =
     (let d = of_char c in if 48 \<le> d \<and> d \<le> (57 :: nat) then parse_digits (10 * acc + (d - 48)) cs else None)"

definition parse_u16 :: "string \<Rightarrow> u16 option" where
  "parse_u16 s =
     (let ds = (case s of [] \<Rightarrow> [] | c # cs \<Rightarrow> if c = CHR ''+'' then cs else s) in
      if ds = [] then None
      else case parse_digits 0 ds of
             Some n \<Rightarrow> if n < 2 ^ 16 then Some (word_of_nat n) else None
           | None \<Rightarrow> None)"

text \<open>The environment is a map; a variable that is not valid Unicode counts as absent. A panic is \<open>None\<close>.\<close>

definition Config_from_env :: "(string \<Rightarrow> string option) \<Rightarrow> Config option" where
  "Config_from_env env =
     (let var = (\<lambda>name default. case env name of Some v \<Rightarrow> v | None \<Rightarrow> default) in
      case parse_u16 (var ''RPC_PORT'' ''8660'') of
        None \<Rightarrow> None
      | Some port \<Rightarrow>
          (case parse_u16 (var ''METRICS_PORT'' ''9660'') of
             None \<Rightarrow> None
           | Some metrics_port \<Rightarrow>
               Some \<lparr>state_db_path = var ''STATE_DB_PATH'' ''/data/suwappudb/state.redb'',
                     block_db_path = var ''BLOCK_DB_PATH'' ''/data/suwappudb/blocks.redb'',
                     rpc_port = port, cfg_metrics_port = metrics_port, cfg_anchors = []\<rparr>))"

text \<open>The file system and the \<open>toml\<close> crate are parameters.\<close>

definition Config_from_file :: "('path \<Rightarrow> string + string) \<Rightarrow> (string \<Rightarrow> string + Config) \<Rightarrow> 'path \<Rightarrow> string + Config" where
  "Config_from_file read_to_string toml_from_str p =
     (case read_to_string p of Inl e \<Rightarrow> Inl e | Inr content \<Rightarrow> toml_from_str content)"

section \<open>Requests and routes\<close>

record ServerConfig =
  srv_port :: u16
  srv_metrics_port :: u16

record AppState =
  app_config :: ServerConfig
  app_state :: State

record 'v JsonRpcRequest =
  req_jsonrpc :: string
  req_method :: string
  req_params :: 'v
  req_id :: 'v

datatype 'v AppResponse =
    HealthOk string
  | MetricsText string
  | RpcReply "'v JsonRpcResponse"
  | NotFound
  | MethodNotAllowed
  | BadRequest

definition health :: "'v AppResponse" where
  "health = HealthOk ''ok''"

definition metrics_endpoint :: "'v AppResponse" where
  "metrics_endpoint = MetricsText (''# HELP suwappudb_info Suwappu-DB server info'' @ [CHR 0x0A])"

definition rpc_route ::
  "'x crypto \<Rightarrow> 'v json \<Rightarrow> hex_crate \<Rightarrow> AppState \<Rightarrow> 'v JsonRpcRequest \<Rightarrow> 'v AppResponse" where
  "rpc_route C J X app req = RpcReply (rpc C J X (app_state app) (req_method req) (req_params req) (req_id req))"

definition rpc_deprecated_alias ::
  "'x crypto \<Rightarrow> 'v json \<Rightarrow> hex_crate \<Rightarrow> AppState \<Rightarrow> 'v JsonRpcRequest \<Rightarrow> 'v AppResponse" where
  "rpc_deprecated_alias C J X app req = rpc_route C J X app req"

datatype HttpMethod = GET | POST | OtherMethod string

record 'v HttpRequest =
  http_method :: HttpMethod
  http_path :: string
  http_authorization :: "string option"
  http_body :: "'v JsonRpcRequest option"

definition main_config :: ServerConfig where
  "main_config = \<lparr>srv_port = 8660, srv_metrics_port = 9660\<rparr>"

definition main_state :: AppState where
  "main_state = \<lparr>app_config = main_config, app_state = State_default\<rparr>"

definition main_router ::
  "'x crypto \<Rightarrow> 'v json \<Rightarrow> hex_crate \<Rightarrow> AppState \<Rightarrow> 'v HttpRequest \<Rightarrow> 'v AppResponse" where
  "main_router C J X app r =
     (let with_body = (\<lambda>handler. case http_body r of None \<Rightarrow> BadRequest | Some req \<Rightarrow> handler C J X app req) in
      if http_path r = ''/health'' then if http_method r = GET then health else MethodNotAllowed
      else if http_path r = ''/metrics'' then if http_method r = GET then metrics_endpoint else MethodNotAllowed
      else if http_path r = ''/v1/rpc'' then if http_method r = POST then with_body rpc_route else MethodNotAllowed
      else if http_path r = ''/rpc'' then if http_method r = POST then with_body rpc_deprecated_alias else MethodNotAllowed
      else NotFound)"

text \<open>The library's endpoint around \<open>RpcHandler_handle\<close>.\<close>

record 'v RpcResponse =
  lib_jsonrpc :: string
  lib_result :: 'v
  lib_id :: 'v

definition rpc_handler ::
  "'x crypto \<Rightarrow> 'v json \<Rightarrow> hex_crate \<Rightarrow> RpcHandler \<Rightarrow> string \<Rightarrow> 'v list \<Rightarrow> 'v \<Rightarrow> 'v RpcResponse option" where
  "rpc_handler C J X h method ps i =
     map_option (\<lambda>res. \<lparr>lib_jsonrpc = ''2.0'', lib_result = res, lib_id = i\<rparr>) (RpcHandler_handle C J X h method ps)"

section \<open>Ports\<close>

lemma digit_char_value: "d < 10 \<Longrightarrow> of_char (digit_char d) = 48 + d"
  by (simp add: digit_char_code)

lemma parse_digits_append:
  "parse_digits acc (xs @ ys) = (case parse_digits acc xs of None \<Rightarrow> None | Some n \<Rightarrow> parse_digits n ys)"
  by (induction xs arbitrary: acc) (auto simp: Let_def)

lemma parse_digits_decimal: "parse_digits 0 (to_decimal n) = Some n"
proof -
  have "parse_digits 0 (digits 10 n) = Some n"
  proof (induction n rule: less_induct)
    case (less n)
    show ?case
    proof (cases "n < 10")
      case True
      then show ?thesis by (subst digits.simps) (simp add: digit_char_value Let_def)
    next
      case False
      then show ?thesis using less [of "n div 10"]
        by (subst digits.simps) (simp add: parse_digits_append digit_char_value Let_def)
    qed
  qed
  then show ?thesis by (simp add: to_decimal_def)
qed

lemma digits_not_Nil [simp]: "digits base n \<noteq> []"
  by (subst digits.simps) simp

lemma parse_u16_decimal: "parse_u16 (to_decimal (unat p)) = Some p"
proof -
  obtain c cs where ds: "to_decimal (unat p) = c # cs" by (cases "to_decimal (unat p)") (auto simp: to_decimal_def)
  have "c \<noteq> CHR ''+''"
  proof
    assume "c = CHR ''+''"
    then show False using parse_digits_decimal [of "unat p"] by (simp add: ds)
  qed
  moreover have "unat p < 2 ^ 16" using unsigned_less [of p, where ?'a = nat] by simp
  ultimately show ?thesis using parse_digits_decimal [of "unat p"] by (simp add: parse_u16_def ds)
qed

text \<open>
  The ports come from the environment exactly: a decimal numeral of a port is read as that port, and a
  start without the variables uses the ports that the binary has built in.
\<close>

lemma config_ports:
  assumes "env ''RPC_PORT'' = Some (to_decimal (unat p))" "env ''METRICS_PORT'' = Some (to_decimal (unat q))"
  shows "\<exists>c. Config_from_env env = Some c \<and> rpc_port c = p \<and> cfg_metrics_port c = q"
  using assms by (simp add: Config_from_env_def parse_u16_decimal Let_def)

lemma config_defaults:
  "\<exists>c. Config_from_env Map.empty = Some c \<and> rpc_port c = srv_port main_config \<and> cfg_metrics_port c = srv_metrics_port main_config"
proof -
  have "parse_u16 ''8660'' = Some 8660" "parse_u16 ''9660'' = Some 9660" by (simp_all add: parse_u16_def Let_def)
  then show ?thesis by (simp add: Config_from_env_def main_config_def Let_def)
qed

section \<open>What the binary serves\<close>

text \<open>
  The binary serves an empty ledger to everyone. It opens no database and no handler changes its state, so the
  balance of every address is zero; its router looks at no authorization header, so the answer is the same with
  any header or none; and the metrics endpoint is a constant that contains no metric.
\<close>

lemma binary_serves_empty_ledger:
  assumes "json_ok J" "hex_ok X" "length (addr_bytes a) = 20"
    and "http_method r = POST" "http_path r = ''/v1/rpc''"
    and "http_body r = Some \<lparr>req_jsonrpc = v, req_method = ''suwappu_getBalance'',
      req_params = j_arr J [j_str J (hex_encode X (addr_bytes a))], req_id = i\<rparr>"
    and "\<not> (take 2 (hex_encode X (addr_bytes a)) = ''0x'')"
  shows "\<exists>res. main_router C J X main_state (r\<lparr>http_authorization := hd_r\<rparr>) = RpcReply res \<and> resp_error res = None \<and>
    (\<exists>w. resp_result res = Some w \<and> j_get J w ''balance'' = Some (j_str J ''0''))"
proof -
  have zero: "to_decimal 0 = ''0''" by code_simp
  have "strip_0x (hex_encode X (addr_bytes a)) = hex_encode X (addr_bytes a)" using assms(7) by (simp add: strip_0x_def)
  then have "parse_address X (hex_encode X (addr_bytes a)) = Inr a"
    using assms(3) hex_okD(1,2) [OF assms(2)] by (simp add: parse_address_def Address_collapse)
  then show ?thesis
    using assms(4-6) json_okD [OF assms(1)]
    by (auto simp: main_router_def rpc_route_def rpc_def main_state_def zero)
qed

lemma metrics_endpoint_constant:
  "main_router C J X app \<lparr>http_method = GET, http_path = ''/metrics'', http_authorization = h, http_body = b\<rparr> =
     MetricsText (''# HELP suwappudb_info Suwappu-DB server info'' @ [CHR 0x0A])"
  by (simp add: main_router_def metrics_endpoint_def)

end
