(* ===== verification/Verkle.thy ===== *)
theory Verkle
  imports State_Tree
begin

text \<open>
  The Verkle scheme of the state tree (feature \<open>production-verkle\<close>): the commitment scheme and the
  per-node openings (\<open>tree/verkle_scheme.rs\<close>), the proof types (\<open>tree/verkle.rs\<close>) and the prover and
  verifier (\<open>collect_ipa_witness\<close> and \<open>verify_verkle\<close> of \<open>tree/ops.rs\<close>). The crates \<open>banderwagon\<close>,
  \<open>ipa-multipoint\<close> and \<open>ark-serialize\<close> are the parameter \<open>P\<close>: curve points \<open>'e\<close>, scalars \<open>'f\<close> and
  opening proofs \<open>'p\<close>. A fresh transcript is the label it is created with, and the CRS is part of \<open>P\<close>.
\<close>

section \<open>The crates\<close>

record ('e, 'f, 'p) ipa =
  el_zero :: 'e
  el_to_bytes :: "'e \<Rightarrow> bytes"
  el_from_bytes :: "bytes \<Rightarrow> 'e option"
  map_to_scalar_field :: "'e \<Rightarrow> 'f"
  fr_from :: "u64 \<Rightarrow> 'f"
  fr_serialize :: "'f \<Rightarrow> bytes"
  fr_deserialize :: "bytes \<Rightarrow> 'f option"
  commit_lagrange :: "'f list \<Rightarrow> 'e"
  ipa_create :: "bytes \<Rightarrow> 'f list \<Rightarrow> 'e \<Rightarrow> 'f list \<Rightarrow> 'f \<Rightarrow> 'p"
  ipa_to_bytes :: "'p \<Rightarrow> bytes"
  ipa_from_bytes :: "bytes \<Rightarrow> nat \<Rightarrow> 'p option"
  ipa_verify :: "bytes \<Rightarrow> 'p \<Rightarrow> 'f list \<Rightarrow> 'e \<Rightarrow> 'f \<Rightarrow> 'f \<Rightarrow> bool"

section \<open>The commitment scheme\<close>

definition POLY_WIDTH :: nat where
  "POLY_WIDTH = 256"

definition PROOF_STEP_TRANSCRIPT_LABEL :: bytes where
  "PROOF_STEP_TRANSCRIPT_LABEL = ascii ''suwappudb-verkle-step''"

definition canonical_u128_to_u64_pair :: "u128 \<Rightarrow> u64 \<times> u64" where
  "canonical_u128_to_u64_pair v = (ucast v, ucast (drop_bit 64 v))"

definition leaf_evaluations :: "('e, 'f, 'p) ipa \<Rightarrow> BalanceSlot \<Rightarrow> 'f list" where
  "leaf_evaluations P slot =
     (let (lo, hi) = canonical_u128_to_u64_pair (canonical slot)
      in (replicate POLY_WIDTH (fr_from P 0))[0 := fr_from P lo, 1 := fr_from P hi])"

text \<open>The loop \<open>for (byte, child) in children\<close>, over the points of the children.\<close>

definition set_children :: "('e, 'f, 'p) ipa \<Rightarrow> (u8 \<times> 'e) list \<Rightarrow> 'f list \<Rightarrow> 'f list" where
  "set_children P cs evals = fold (\<lambda>(byte, child) ev. ev[unat byte := map_to_scalar_field P child]) cs evals"

fun commit_node_inner :: "('e, 'f, 'p) ipa \<Rightarrow> Node \<Rightarrow> 'e" where
  "commit_node_inner P Empty = el_zero P"
| "commit_node_inner P (Leaf slot) =
     commit_lagrange P
       (let (lo, hi) = canonical_u128_to_u64_pair (canonical slot)
        in (replicate POLY_WIDTH (fr_from P 0))[0 := fr_from P lo, 1 := fr_from P hi])"
| "commit_node_inner P (Internal children) =
     commit_lagrange P
       (set_children P (map (\<lambda>e. (fst e, commit_node_inner P (snd e))) children) (replicate POLY_WIDTH (fr_from P 0)))"

definition BanderwagonIpaScheme_empty :: Commitment where
  "BanderwagonIpaScheme_empty = Commitment (replicate 32 0)"

definition BanderwagonIpaScheme_commit :: "('e, 'f, 'p) ipa \<Rightarrow> Node \<Rightarrow> Commitment" where
  "BanderwagonIpaScheme_commit P node = Commitment (el_to_bytes P (commit_node_inner P node))"

text \<open>\<open>root_via\<close> takes the commitment function of a scheme.\<close>

definition StateTree_root_via :: "(Node \<Rightarrow> Commitment) \<Rightarrow> StateTree \<Rightarrow> Commitment" where
  "StateTree_root_via scheme_commit t = scheme_commit (root_node t)"

definition element_to_commitment :: "('e, 'f, 'p) ipa \<Rightarrow> 'e \<Rightarrow> Commitment" where
  "element_to_commitment P e = Commitment (el_to_bytes P e)"

definition commitment_to_element :: "('e, 'f, 'p) ipa \<Rightarrow> Commitment \<Rightarrow> 'e option" where
  "commitment_to_element P c =
     (if com_bytes c = replicate 32 0 then Some (el_zero P) else el_from_bytes P (com_bytes c))"

definition child_commitment_to_scalar :: "('e, 'f, 'p) ipa \<Rightarrow> Commitment \<Rightarrow> 'f option" where
  "child_commitment_to_scalar P c = map_option (map_to_scalar_field P) (commitment_to_element P c)"

definition claimed_value_to_fr :: "('e, 'f, 'p) ipa \<Rightarrow> bytes \<Rightarrow> 'f option" where
  "claimed_value_to_fr P bs = fr_deserialize P bs"

definition fr_from_u64 :: "('e, 'f, 'p) ipa \<Rightarrow> u64 \<Rightarrow> 'f" where
  "fr_from_u64 P v = fr_from P v"

section \<open>Openings\<close>

datatype GroupElement = GroupElement (ge_bytes: bytes)

record IpaOpening =
  op_commitment :: GroupElement
  domain_index :: u8
  claimed_value :: bytes
  ipa_proof_bytes :: bytes

definition IpaOpening_size_bytes :: "IpaOpening \<Rightarrow> usize" where
  "IpaOpening_size_bytes o1 = 32 + 1 + 32 + length (ipa_proof_bytes o1)"

record IpaWitness =
  openings :: "IpaOpening list"

definition IpaWitness_new :: IpaWitness where
  "IpaWitness_new = \<lparr>openings = []\<rparr>"

definition IpaWitness_size_bytes :: "IpaWitness \<Rightarrow> usize" where
  "IpaWitness_size_bytes w = sum_list (map IpaOpening_size_bytes (openings w))"

text \<open>The field's own zero is \<open>0\<close>; \<open>Fr::from\<close> is the parameter \<open>fr_from\<close>.\<close>

definition unit_b_vector :: "('e, 'f::comm_ring_1, 'p) ipa \<Rightarrow> nat \<Rightarrow> 'f list" where
  "unit_b_vector P i = (replicate POLY_WIDTH 0)[i := fr_from P 1]"

definition prove_opening :: "('e, 'f::comm_ring_1, 'p) ipa \<Rightarrow> 'f list \<Rightarrow> 'e \<Rightarrow> u8 \<Rightarrow> IpaOpening \<times> 'f" where
  "prove_opening P a a_comm i =
     (let b = unit_b_vector P (unat i);
          input_point = fr_from P (ucast i);
          claimed = a ! unat i;
          prf = ipa_create P PROOF_STEP_TRANSCRIPT_LABEL a a_comm b input_point
      in (\<lparr>op_commitment = GroupElement (el_to_bytes P a_comm), domain_index = i,
           claimed_value = fr_serialize P claimed, ipa_proof_bytes = ipa_to_bytes P prf\<rparr>, claimed))"

definition verify_opening :: "('e, 'f::comm_ring_1, 'p) ipa \<Rightarrow> IpaOpening \<Rightarrow> bool" where
  "verify_opening P o1 =
     (case commitment_to_element P (Commitment (ge_bytes (op_commitment o1))) of
        None \<Rightarrow> False
      | Some c \<Rightarrow>
          (case fr_deserialize P (claimed_value o1) of
             None \<Rightarrow> False
           | Some v \<Rightarrow>
               (case ipa_from_bytes P (ipa_proof_bytes o1) POLY_WIDTH of
                  None \<Rightarrow> False
                | Some prf \<Rightarrow>
                    ipa_verify P PROOF_STEP_TRANSCRIPT_LABEL prf (unit_b_vector P (unat (domain_index o1))) c
                      (fr_from P (ucast (domain_index o1))) v)))"

section \<open>Prover and verifier\<close>

text \<open>With the feature on, a \<open>Proof\<close> has one more field.\<close>

record VerkleProof = Proof +
  ipa_witness :: "IpaWitness option"

text \<open>
  \<open>collect_ipa_witness\<close>: the loop descends the address bytes that are left. The evaluation vector of an
  internal node is built from the field's zero here, from \<open>Fr::from(0)\<close> in \<open>commit_node_inner\<close>.
\<close>

fun collect_openings :: "('e, 'f::comm_ring_1, 'p) ipa \<Rightarrow> Node \<Rightarrow> bytes \<Rightarrow> BalanceSlot option \<Rightarrow> IpaOpening list" where
  "collect_openings P node [] final_slot =
     (case (node, final_slot) of
        (Leaf slot, Some _) \<Rightarrow> [fst (prove_opening P (leaf_evaluations P slot) (commit_node_inner P node) 0)]
      | _ \<Rightarrow> [])"
| "collect_openings P node (b # bs) final_slot =
     (case node of
        Internal cs \<Rightarrow>
          let evals = set_children P (map (\<lambda>e. (fst e, commit_node_inner P (snd e))) cs) (replicate POLY_WIDTH 0);
              opening = fst (prove_opening P evals (commit_node_inner P node) b)
          in opening # (case map_get cs b of Some c \<Rightarrow> collect_openings P c bs final_slot | None \<Rightarrow> [])
      | _ \<Rightarrow> [])"

definition collect_ipa_witness :: "('e, 'f::comm_ring_1, 'p) ipa \<Rightarrow> Node \<Rightarrow> bytes \<Rightarrow> BalanceSlot option \<Rightarrow> IpaWitness" where
  "collect_ipa_witness P root bs final_slot = \<lparr>openings = collect_openings P root bs final_slot\<rparr>"

definition StateTree_proof_verkle ::
  "(bytes \<Rightarrow> bytes) \<Rightarrow> ('e, 'f::comm_ring_1, 'p) ipa \<Rightarrow> StateTree \<Rightarrow> Address \<Rightarrow> VerkleProof" where
  "StateTree_proof_verkle H P t addr =
     (let (p, slot) = collect_proof H (root_node t) (addr_bytes addr)
      in \<lparr>path = p, proof_slot = slot, ipa_witness = Some (collect_ipa_witness P (root_node t) (addr_bytes addr) slot)\<rparr>)"

text \<open>
  The loop of check 4. Indexing the address past its end is a panic, the result \<open>None\<close>: an absence
  witness may have more openings than the address has bytes.
\<close>

fun check_indices :: "IpaOpening list \<Rightarrow> bytes \<Rightarrow> bool option" where
  "check_indices [] bs = Some True"
| "check_indices (o1 # os) [] = None"
| "check_indices (o1 # os) (b # bs) = (if domain_index o1 \<noteq> b then Some False else check_indices os bs)"

text \<open>The loop of check 3.\<close>

fun check_links :: "('e, 'f, 'p) ipa \<Rightarrow> IpaOpening list \<Rightarrow> bool" where
  "check_links P (o1 # o2 # os) =
     (case child_commitment_to_scalar P (Commitment (ge_bytes (op_commitment o2))) of
        None \<Rightarrow> False
      | Some expected \<Rightarrow>
          (case claimed_value_to_fr P (claimed_value o1) of
             None \<Rightarrow> False
           | Some claimed \<Rightarrow> if claimed \<noteq> expected then False else check_links P (o2 # os)))"
| "check_links P _ = True"

definition check_leaf :: "('e, 'f, 'p) ipa \<Rightarrow> IpaOpening \<Rightarrow> BalanceSlot \<Rightarrow> bool" where
  "check_leaf P leaf_opening slot =
     (if domain_index leaf_opening \<noteq> 0 then False
      else let expected_low = and (ucast (canonical slot)) (- 1 :: u64)
           in (case claimed_value_to_fr P (claimed_value leaf_opening) of
                 None \<Rightarrow> False
               | Some claimed \<Rightarrow> claimed = fr_from_u64 P expected_low))"

definition StateTree_verify_verkle ::
  "('e, 'f::comm_ring_1, 'p) ipa \<Rightarrow> Commitment \<Rightarrow> Address \<Rightarrow> BalanceSlot option \<Rightarrow> VerkleProof \<Rightarrow> bool option" where
  "StateTree_verify_verkle P root addr slot_opt prf =
     (case ipa_witness prf of
        None \<Rightarrow> Some False
      | Some w \<Rightarrow>
          if length (path prf) > length (addr_bytes addr) then Some False
          else if \<not> (\<forall>i < length (path prf). step_byte (path prf ! i) = addr_bytes addr ! i) then Some False
          else if proof_slot prf \<noteq> slot_opt then Some False
          else if openings w = [] then Some (slot_opt = None \<and> root = Commitment (replicate 32 0))
          else if \<not> list_all (verify_opening P) (openings w) then Some False
          else if ge_bytes (op_commitment (hd (openings w))) \<noteq> com_bytes root then Some False
          else
            let n_openings = length (openings w);
                inclusion = (slot_opt \<noteq> None);
                n_internal = (if inclusion then n_openings - 1 else n_openings)
            in if inclusion \<and> n_openings \<noteq> length (addr_bytes addr) + 1 then Some False
               else (case check_indices (take n_internal (openings w)) (addr_bytes addr) of
                  None \<Rightarrow> None
                | Some False \<Rightarrow> Some False
                | Some True \<Rightarrow>
                    if \<not> check_links P (openings w) then Some False
                    else (case slot_opt of
                            None \<Rightarrow> Some True
                          | Some slot \<Rightarrow> Some (check_leaf P (last (openings w)) slot))))"

section \<open>What the crates promise\<close>

text \<open>
  The documented behaviour of the crates. Encodings read back, and the compressed form of the identity
  is 32 zero bytes; the all-zero polynomial commits to the identity, which maps to the zero scalar;
  \<open>Fr::from\<close> is an embedding; and an opening created for a polynomial verifies against its commitment
  with the inner product of the two vectors as its value.
\<close>

definition inner :: "'f::comm_ring_1 list \<Rightarrow> 'f list \<Rightarrow> 'f" where
  "inner a b = sum_list (map2 (*) a b)"

definition ipa_encodes :: "('e, 'f::comm_ring_1, 'p) ipa \<Rightarrow> bool" where
  "ipa_encodes P \<longleftrightarrow>
     (\<forall>e. el_to_bytes P e = replicate 32 0 \<longleftrightarrow> e = el_zero P) \<and>
     (\<forall>e. e \<noteq> el_zero P \<longrightarrow> el_from_bytes P (el_to_bytes P e) = Some e) \<and>
     (\<forall>v. fr_deserialize P (fr_serialize P v) = Some v) \<and>
     (\<forall>prf. ipa_from_bytes P (ipa_to_bytes P prf) POLY_WIDTH = Some prf)"

definition ipa_algebra :: "('e, 'f::comm_ring_1, 'p) ipa \<Rightarrow> bool" where
  "ipa_algebra P \<longleftrightarrow>
     commit_lagrange P (replicate POLY_WIDTH 0) = el_zero P \<and> map_to_scalar_field P (el_zero P) = 0 \<and>
     inj (fr_from P) \<and> fr_from P 0 = 0 \<and> fr_from P 1 = 1"

definition ipa_complete :: "('e, 'f::comm_ring_1, 'p) ipa \<Rightarrow> bool" where
  "ipa_complete P \<longleftrightarrow>
     (\<forall>label a b x. length a = POLY_WIDTH \<longrightarrow> length b = POLY_WIDTH \<longrightarrow>
        ipa_verify P label (ipa_create P label a (commit_lagrange P a) b x) b (commit_lagrange P a) x (inner a b))"

definition ipa_correct :: "('e, 'f::comm_ring_1, 'p) ipa \<Rightarrow> bool" where
  "ipa_correct P \<longleftrightarrow> ipa_encodes P \<and> ipa_algebra P \<and> ipa_complete P"

lemma ipa_correctD:
  assumes "ipa_correct P"
  shows "\<And>e. el_to_bytes P e = replicate 32 0 \<longleftrightarrow> e = el_zero P"
    and "\<And>e. e \<noteq> el_zero P \<Longrightarrow> el_from_bytes P (el_to_bytes P e) = Some e"
    and "\<And>v. fr_deserialize P (fr_serialize P v) = Some v"
    and "\<And>prf. ipa_from_bytes P (ipa_to_bytes P prf) POLY_WIDTH = Some prf"
    and "commit_lagrange P (replicate POLY_WIDTH 0) = el_zero P" "map_to_scalar_field P (el_zero P) = 0"
    and "inj (fr_from P)" "fr_from P 0 = 0" "fr_from P 1 = 1"
    and "\<And>label a b x. length a = POLY_WIDTH \<Longrightarrow> length b = POLY_WIDTH \<Longrightarrow>
        ipa_verify P label (ipa_create P label a (commit_lagrange P a) b x) b (commit_lagrange P a) x (inner a b)"
  using assms by (auto simp: ipa_correct_def ipa_encodes_def ipa_algebra_def ipa_complete_def)

lemma byte_below_width [simp]: "unat (b :: u8) < POLY_WIDTH"
  using unsigned_less [of b, where 'a = nat] by (simp add: POLY_WIDTH_def)

lemma commitment_to_element_of: "ipa_correct P \<Longrightarrow> commitment_to_element P (Commitment (el_to_bytes P e)) = Some e"
  by (auto simp: commitment_to_element_def ipa_correctD)

lemma inner_zeros: "length a = n \<Longrightarrow> inner a (replicate n 0) = 0"
  by (induction a arbitrary: n) (auto simp: inner_def)

lemma inner_update:
  "i < n \<Longrightarrow> length a = n \<Longrightarrow> inner a ((replicate n 0)[i := 1]) = a ! i"
proof (induction a arbitrary: i n)
  case (Cons x a)
  then obtain m where n: "n = Suc m" "length a = m" by (cases n) auto
  show ?case
  proof (cases i)
    case 0
    with n inner_zeros [of a m] show ?thesis by (simp add: inner_def)
  next
    case (Suc j)
    with Cons n show ?thesis by (simp add: inner_def)
  qed
qed simp

lemma inner_unit:
  assumes "ipa_correct P" "length a = POLY_WIDTH"
  shows "inner a (unit_b_vector P (unat i)) = a ! unat (i :: u8)"
  using inner_update [of "unat i" POLY_WIDTH a] assms by (simp add: unit_b_vector_def ipa_correctD)

text \<open>An opening made by the prover is accepted, and decodes to what it was made from.\<close>

definition opening_of :: "('e, 'f::comm_ring_1, 'p) ipa \<Rightarrow> 'f list \<Rightarrow> u8 \<Rightarrow> IpaOpening" where
  "opening_of P a i = fst (prove_opening P a (commit_lagrange P a) i)"

lemma opening_of_fields [simp]:
  "domain_index (opening_of P a i) = i"
  "claimed_value (opening_of P a i) = fr_serialize P (a ! unat i)"
  "op_commitment (opening_of P a i) = GroupElement (el_to_bytes P (commit_lagrange P a))"
  by (simp_all add: opening_of_def prove_opening_def Let_def)

lemma verify_opening_of:
  assumes "ipa_correct P" "length a = POLY_WIDTH"
  shows "verify_opening P (opening_of P a i)"
  using ipa_correctD(10) [OF assms(1,2), of "unit_b_vector P (unat i)"] inner_unit [OF assms, of i]
  by (simp add: verify_opening_def commitment_to_element_of [OF assms(1)] ipa_correctD [OF assms(1)])
    (simp add: opening_of_def prove_opening_def Let_def ipa_correctD [OF assms(1)] unit_b_vector_def)

section \<open>Evaluation vectors\<close>

text \<open>The vector a node commits to, and the node below a byte, with an absent child as the empty node.\<close>

definition node_evals :: "('e, 'f::comm_ring_1, 'p) ipa \<Rightarrow> Node \<Rightarrow> 'f list" where
  "node_evals P node =
     (case node of
        Empty \<Rightarrow> replicate POLY_WIDTH 0
      | Leaf slot \<Rightarrow> leaf_evaluations P slot
      | Internal cs \<Rightarrow>
          set_children P (map (\<lambda>e. (fst e, commit_node_inner P (snd e))) cs) (replicate POLY_WIDTH 0))"

definition child_or_empty :: "Node \<Rightarrow> u8 \<Rightarrow> Node" where
  "child_or_empty node b = (case map_get (children_of_node node) b of Some c \<Rightarrow> c | None \<Rightarrow> Empty)"

definition low_limb :: "BalanceSlot \<Rightarrow> u64" where
  "low_limb slot = ucast (canonical slot)"

lemma commit_node_inner_evals: "ipa_correct P \<Longrightarrow> commit_node_inner P node = commit_lagrange P (node_evals P node)"
  by (cases node) (simp_all add: node_evals_def ipa_correctD leaf_evaluations_def)

lemma length_set_children [simp]: "length (set_children P cs ev) = length ev"
  unfolding set_children_def by (induction cs arbitrary: ev) (auto split: prod.splits)

lemma length_node_evals [simp]: "length (node_evals P node) = POLY_WIDTH"
  by (cases node) (simp_all add: node_evals_def leaf_evaluations_def Let_def case_prod_unfold)

lemma set_children_nth:
  assumes "distinct (map fst cs)" "unat b < length ev"
  shows "set_children P cs ev ! unat b =
    (case map_get cs b of Some e \<Rightarrow> map_to_scalar_field P e | None \<Rightarrow> ev ! unat b)"
  using assms
proof (induction cs arbitrary: ev)
  case (Cons c cs)
  obtain k e where c: "c = (k, e)" by (cases c)
  have k: "map_get cs b = None" if "k = b"
    using Cons.prems(1) that by (auto simp: c map_get_def map_of_eq_None_iff)
  have ne: "unat k \<noteq> unat b" if "k \<noteq> b" using that by (simp add: word_unat_eq_iff)
  have "set_children P (c # cs) ev = set_children P cs (ev[unat k := map_to_scalar_field P e])"
    by (simp add: set_children_def c)
  with Cons.IH [of "ev[unat k := map_to_scalar_field P e]"] Cons.prems k ne show ?case
    by (cases "k = b") (auto simp: c map_get_Cons split: option.split)
qed (simp add: set_children_def map_get_def)

lemma node_evals_child:
  assumes "ipa_correct P" "wf_tree (Suc d) node"
  shows "node_evals P node ! unat b = map_to_scalar_field P (commit_node_inner P (child_or_empty node b))"
proof (cases "node = Empty")
  case True
  with assms(1) show ?thesis
    by (simp add: node_evals_def child_or_empty_def children_of_node_def map_get_def ipa_correctD)
next
  case False
  with assms(2) obtain cs where cs: "node = Internal cs" "bt_invar cs"
    by (auto simp: wf_tree_def split: Node.splits)
  let ?cs = "map (\<lambda>e. (fst e, commit_node_inner P (snd e))) cs"
  have "distinct (map fst ?cs)" using bt_invar_distinct [OF cs(2)] by (simp add: comp_def)
  moreover have "map_get ?cs b = map_option (commit_node_inner P) (map_get cs b)" by (rule map_get_map)
  ultimately show ?thesis
    using set_children_nth [of ?cs b "replicate POLY_WIDTH 0" P] assms(1)
    by (simp add: cs node_evals_def child_or_empty_def ipa_correctD split: option.split)
qed

lemma get_path_child: "get_path node (b # bs) = get_path (child_or_empty node b) bs"
  by (simp add: get_path_Cons child_or_empty_def split: option.split)

lemma wf_child_or_empty: "wf_tree (Suc d) node \<Longrightarrow> wf_tree d (child_or_empty node b)"
  by (auto simp: wf_tree_def child_or_empty_def children_of_node_def map_get_def split: option.split Node.splits
      dest!: map_of_SomeD)

lemma leaf_evals_low: "leaf_evaluations P slot ! 0 = fr_from P (low_limb slot)"
  by (simp add: leaf_evaluations_def canonical_u128_to_u64_pair_def low_limb_def POLY_WIDTH_def)

lemma node_evals_bottom:
  assumes "ipa_correct P" "wf_tree 0 node"
  shows "node_evals P node ! 0 = fr_from P (case get_path node [] of Some s \<Rightarrow> low_limb s | None \<Rightarrow> 0)"
  using assms leaf_evals_low [of P]
  by (auto simp: wf_tree_def node_evals_def ipa_correctD POLY_WIDTH_def split: Node.splits)

end
