(* ===== verification/Verkle_Props.thy ===== *)
theory Verkle_Props
  imports Verkle Tree_Security "HOL-Library.Countable"
begin

text \<open>
  What the Verkle verifier guarantees and what it does not. The prover is complete. An accepted inclusion
  proof fixes the low 64 bits of the balance and nothing more: the high bits are free, and an address
  that is absent can be proved to hold any multiple of \<open>2^64\<close>. Absence proofs show nothing, and a long
  one makes the verifier panic.
\<close>

section \<open>Opening a whole path\<close>

text \<open>One opening per byte of the address and one for the bottom, continuing through the empty node.\<close>

fun open_down :: "('e, 'f::comm_ring_1, 'p) ipa \<Rightarrow> Node \<Rightarrow> bytes \<Rightarrow> IpaOpening list" where
  "open_down P node [] = [opening_of P (node_evals P node) 0]"
| "open_down P node (b # bs) = opening_of P (node_evals P node) b # open_down P (child_or_empty node b) bs"

lemma open_down_not_Nil [simp]: "open_down P node bs \<noteq> []"
  by (cases bs) auto

lemma length_open_down [simp]: "length (open_down P node bs) = Suc (length bs)"
  by (induction bs arbitrary: node) auto

lemma open_down_verifies: "ipa_correct P \<Longrightarrow> list_all (verify_opening P) (open_down P node bs)"
  by (induction bs arbitrary: node) (auto simp: verify_opening_of)

lemma open_down_hd:
  "ipa_correct P \<Longrightarrow> ge_bytes (op_commitment (hd (open_down P node bs))) = el_to_bytes P (commit_node_inner P node)"
  by (cases bs) (auto simp: commit_node_inner_evals)

lemma check_links_Cons:
  "os \<noteq> [] \<Longrightarrow> check_links P (o1 # os) \<longleftrightarrow>
     (\<exists>v. child_commitment_to_scalar P (Commitment (ge_bytes (op_commitment (hd os)))) = Some v \<and>
          claimed_value_to_fr P (claimed_value o1) = Some v) \<and> check_links P os"
  by (cases os) (auto split: option.splits)

lemma open_down_links: "ipa_correct P \<Longrightarrow> wf_tree (length bs) node \<Longrightarrow> check_links P (open_down P node bs)"
proof (induction bs arbitrary: node)
  case (Cons b bs)
  from Cons.prems(2) have wf: "wf_tree (Suc (length bs)) node" by simp
  have "ge_bytes (op_commitment (hd (open_down P (child_or_empty node b) bs))) =
      el_to_bytes P (commit_node_inner P (child_or_empty node b))" by (rule open_down_hd [OF Cons.prems(1)])
  with Cons.IH [OF Cons.prems(1) wf_child_or_empty [OF wf]] node_evals_child [OF Cons.prems(1) wf, of b] show ?case
    by (simp add: check_links_Cons child_commitment_to_scalar_def claimed_value_to_fr_def
        commitment_to_element_of [OF Cons.prems(1)] ipa_correctD [OF Cons.prems(1)])
qed simp

lemma check_indices_take: "n \<le> length bs \<Longrightarrow> check_indices (take n (open_down P node bs)) bs = Some True"
proof (induction bs arbitrary: node n)
  case (Cons b bs)
  then show ?case by (cases n) auto
qed simp

lemma open_down_last:
  assumes "ipa_correct P" "wf_tree (length bs) node"
  shows "domain_index (last (open_down P node bs)) = 0 \<and>
    claimed_value (last (open_down P node bs)) =
      fr_serialize P (fr_from P (case get_path node bs of Some s \<Rightarrow> low_limb s | None \<Rightarrow> 0))"
  using assms
proof (induction bs arbitrary: node)
  case Nil
  then show ?case using node_evals_bottom [of P node] by simp
next
  case (Cons b bs)
  from Cons.prems(2) have "wf_tree (length bs) (child_or_empty node b)" by (auto intro: wf_child_or_empty)
  from Cons.IH [OF Cons.prems(1) this] show ?case by (simp add: get_path_child)
qed

lemma check_links_take: "check_links P os \<Longrightarrow> check_links P (take n os)"
proof (induction os arbitrary: n)
  case (Cons o1 os)
  show ?case
  proof (cases "n = 0 \<or> os = [] \<or> n = 1")
    case False
    then obtain m where m: "n = Suc (Suc m)" by (metis One_nat_def not0_implies_Suc)
    from False Cons.prems have "check_links P os" by (simp add: check_links_Cons)
    with Cons.IH [of "Suc m"] Cons.prems False show ?thesis by (simp add: m check_links_Cons)
  qed (auto simp: take_Cons')
qed simp

section \<open>Acceptance\<close>

lemma check_leaf_iff:
  "check_leaf P o1 slot \<longleftrightarrow>
     domain_index o1 = 0 \<and> claimed_value_to_fr P (claimed_value o1) = Some (fr_from P (low_limb slot))"
  by (auto simp: check_leaf_def low_limb_def fr_from_u64_def Let_def split: option.splits)

text \<open>An inclusion claim is accepted with the openings of the whole path when the low limb is the tree's.\<close>

lemma accept_inclusion:
  assumes "ipa_correct P" "wf_state_tree t" "wf_addr a"
    and "low_limb slot = (case StateTree_get t a of Some s \<Rightarrow> low_limb s | None \<Rightarrow> 0)"
    and "length (path prf) \<le> length (addr_bytes a)" "\<forall>i < length (path prf). step_byte (path prf ! i) = addr_bytes a ! i"
    and "proof_slot prf = Some slot" "ipa_witness prf = Some w"
    and os: "openings w = open_down P (root_node t) (addr_bytes a)"
  shows "StateTree_verify_verkle P (StateTree_root_via (BanderwagonIpaScheme_commit P) t) a (Some slot) prf = Some True"
proof -
  have wf: "wf_tree (length (addr_bytes a)) (root_node t)"
    using assms(2,3) by (simp add: wf_state_tree_def wf_addr_def)
  have "check_leaf P (last (openings w)) slot"
    using open_down_last [OF assms(1) wf] assms(4)
    by (simp add: check_leaf_iff os claimed_value_to_fr_def ipa_correctD [OF assms(1)] StateTree_get_def)
  moreover have "check_indices (take (length (openings w) - 1) (openings w)) (addr_bytes a) = Some True"
    using check_indices_take [of "length (addr_bytes a)" "addr_bytes a" P "root_node t"] by (simp add: os)
  ultimately show ?thesis
    using assms(5-8) open_down_verifies [OF assms(1)] open_down_links [OF assms(1) wf]
      open_down_hd [OF assms(1), of "root_node t" "addr_bytes a"]
    by (simp add: StateTree_verify_verkle_def os StateTree_root_via_def BanderwagonIpaScheme_commit_def Let_def)
qed

text \<open>An absence claim is accepted with any non-empty proper prefix of those openings.\<close>

lemma accept_absence:
  assumes "ipa_correct P" "wf_state_tree t" "wf_addr a" "0 < n" "n \<le> length (addr_bytes a)"
    and "length (path prf) \<le> length (addr_bytes a)" "\<forall>i < length (path prf). step_byte (path prf ! i) = addr_bytes a ! i"
    and "proof_slot prf = None" "ipa_witness prf = Some w"
    and os: "openings w = take n (open_down P (root_node t) (addr_bytes a))"
  shows "StateTree_verify_verkle P (StateTree_root_via (BanderwagonIpaScheme_commit P) t) a None prf = Some True"
proof -
  have wf: "wf_tree (length (addr_bytes a)) (root_node t)"
    using assms(2,3) by (simp add: wf_state_tree_def wf_addr_def)
  have "list_all (verify_opening P) (openings w)"
    using open_down_verifies [OF assms(1), of "root_node t" "addr_bytes a"] in_set_takeD
    by (fastforce simp: os list_all_iff)
  moreover have "check_links P (openings w)"
    using check_links_take [OF open_down_links [OF assms(1) wf]] by (simp add: os)
  moreover have "check_indices (take (length (openings w)) (openings w)) (addr_bytes a) = Some True"
    using check_indices_take [OF assms(5), of P "root_node t"] assms(5) by (simp add: os min_absorb2)
  moreover have "hd (openings w) = hd (open_down P (root_node t) (addr_bytes a))" "openings w \<noteq> []"
    using assms(4) by (simp_all add: os hd_take)
  ultimately show ?thesis
    using assms(6-9) open_down_hd [OF assms(1), of "root_node t" "addr_bytes a"]
    by (simp add: StateTree_verify_verkle_def StateTree_root_via_def BanderwagonIpaScheme_commit_def Let_def)
qed

text \<open>The prover's openings are the whole path when the address is present and a prefix when it is absent.\<close>

lemma collect_openings_eq:
  assumes "ipa_correct P" "wf_tree (length bs) node"
  shows "\<exists>n. collect_openings P node bs (get_path node bs) = take n (open_down P node bs) \<and>
    (case get_path node bs of Some s \<Rightarrow> n = Suc (length bs)
     | None \<Rightarrow> n \<le> length bs \<and> (n = 0 \<longleftrightarrow> node = Empty))"
  using assms(2)
proof (induction bs arbitrary: node)
  case Nil
  then show ?case
    by (auto simp: wf_tree_def opening_of_def leaf_evaluations_def node_evals_def split: Node.splits)
next
  case (Cons b bs)
  show ?case
  proof (cases "node = Empty")
    case False
    with Cons.prems obtain cs where cs: "node = Internal cs" by (auto simp: wf_tree_def split: Node.splits)
    let ?c = "child_or_empty node b" and ?slot = "get_path node (b # bs)"
    from Cons.prems have "wf_tree (length bs) ?c" by (auto intro: wf_child_or_empty)
    from Cons.IH [OF this] obtain n where n:
      "collect_openings P ?c bs ?slot = take n (open_down P ?c bs)"
      "case ?slot of Some s \<Rightarrow> n = Suc (length bs) | None \<Rightarrow> n \<le> length bs \<and> (n = 0 \<longleftrightarrow> ?c = Empty)"
      by (auto simp: get_path_child)
    have "collect_openings P node (b # bs) ?slot = opening_of P (node_evals P node) b # collect_openings P ?c bs ?slot"
      using commit_node_inner_evals [OF assms(1), of node]
      by (cases bs) (auto simp: cs node_evals_def opening_of_def child_or_empty_def split: option.split)
    with n show ?thesis
      using False by (intro exI [of _ "Suc n"]) (auto split: option.splits)
  qed (auto intro: exI [of _ 0])
qed

section \<open>Completeness\<close>

text \<open>The path part of a generated proof, also over the empty tree.\<close>

lemma collect_proof_path:
  assumes "wf_tree (length bs) node" "bs \<noteq> []" "collect_proof H node bs = (ss, slot)"
  shows "slot = get_path node bs \<and> length ss \<le> length bs \<and> (\<forall>i < length ss. step_byte (ss ! i) = bs ! i)"
proof (cases "node = Empty")
  case True
  with assms show ?thesis by (cases bs) auto
next
  case False
  with assms(1) have "wf_node (length bs) node" by (simp add: wf_tree_def)
  from collect_proof_props [OF this assms(3)] show ?thesis by (metis nth_map nth_take)
qed

lemma verkle_own_proof:
  assumes "ipa_correct P" "wf_state_tree t" "wf_addr a"
  shows "StateTree_verify_verkle P (StateTree_root_via (BanderwagonIpaScheme_commit P) t) a (StateTree_get t a)
    (StateTree_proof_verkle H P t a) = Some True"
proof -
  let ?bs = "addr_bytes a" and ?n = "root_node t"
  have wf: "wf_tree (length ?bs) ?n" using assms(2,3) by (simp add: wf_state_tree_def wf_addr_def)
  obtain ss slot where col: "collect_proof H ?n ?bs = (ss, slot)" by (cases "collect_proof H ?n ?bs")
  have "?bs \<noteq> []" using assms(3) by (auto simp: wf_addr_def)
  from collect_proof_path [OF wf this col]
  have slot: "slot = get_path ?n ?bs" and len: "length ss \<le> length ?bs" and bytes: "\<forall>i < length ss. step_byte (ss ! i) = ?bs ! i"
    by blast+
  from collect_openings_eq [OF assms(1) wf] obtain n where n:
    "collect_openings P ?n ?bs slot = take n (open_down P ?n ?bs)"
    "case slot of Some s \<Rightarrow> n = Suc (length ?bs) | None \<Rightarrow> n \<le> length ?bs \<and> (n = 0 \<longleftrightarrow> ?n = Empty)"
    by (auto simp: slot)
  let ?w = "collect_ipa_witness P ?n ?bs slot"
  have made: "StateTree_proof_verkle H P t a = \<lparr>path = ss, proof_slot = slot, ipa_witness = Some ?w\<rparr>"
    by (simp add: StateTree_proof_verkle_def col)
  show ?thesis
  proof (cases slot)
    case (Some s)
    with n have "openings ?w = open_down P ?n ?bs" by (simp add: collect_ipa_witness_def)
    with accept_inclusion [OF assms, of s "StateTree_proof_verkle H P t a" ?w] Some slot len bytes show ?thesis
      by (simp add: made StateTree_get_def)
  next
    case None
    show ?thesis
    proof (cases "?n = Empty")
      case True
      with None n have "openings ?w = []" by (simp add: collect_ipa_witness_def)
      with True None slot len bytes show ?thesis
        by (simp add: made StateTree_verify_verkle_def StateTree_root_via_def BanderwagonIpaScheme_commit_def
            StateTree_get_def ipa_correctD(1) [OF assms(1)])
    next
      case False
      with None n have "openings ?w = take n (open_down P ?n ?bs)" "0 < n" "n \<le> length ?bs"
        by (auto simp: collect_ipa_witness_def)
      with accept_absence [OF assms, of n "StateTree_proof_verkle H P t a" ?w] None slot len bytes show ?thesis
        by (simp add: made StateTree_get_def)
    qed
  qed
qed

text \<open>
  C24: the Verkle prover is complete: for a tree built from entries and any address, the generated proof
  verifies against the tree's Verkle root, for inclusion and for absence alike, and the verifier does
  not panic.
\<close>

theorem verkle_complete:
  assumes "ipa_correct P" "wf_state_tree t" "wf_addr a"
  shows "StateTree_verify_verkle P (StateTree_root_via (BanderwagonIpaScheme_commit P) t) a (StateTree_get t a)
    (StateTree_proof_verkle H P t a) = Some True"
  using assms by (rule verkle_own_proof)

section \<open>What an inclusion proof shows\<close>

text \<open>The nodes on the path of an address, continuing through the empty node.\<close>

fun path_nodes :: "Node \<Rightarrow> bytes \<Rightarrow> Node list" where
  "path_nodes node [] = [node]"
| "path_nodes node (b # bs) = node # path_nodes (child_or_empty node b) bs"

text \<open>
  What is relied on of the cryptography, for the openings of one witness and the nodes of one path only:
  an accepted opening of the point of such a node states the node's value at its index (the argument is
  binding), and no point in the witness collides with the point of a node under the map to scalars.
\<close>

definition opened_point :: "('e, 'f, 'p) ipa \<Rightarrow> IpaOpening \<Rightarrow> 'e option" where
  "opened_point P o1 = commitment_to_element P (Commitment (ge_bytes (op_commitment o1)))"

definition openings_bind :: "('e, 'f::comm_ring_1, 'p) ipa \<Rightarrow> IpaOpening list \<Rightarrow> Node list \<Rightarrow> bool" where
  "openings_bind P os ns \<longleftrightarrow>
     (\<forall>o1 \<in> set os. \<forall>n \<in> set ns.
        verify_opening P o1 \<and> opened_point P o1 = Some (commit_node_inner P n) \<longrightarrow>
        fr_deserialize P (claimed_value o1) = Some (node_evals P n ! unat (domain_index o1)))"

definition points_apart :: "('e, 'f::comm_ring_1, 'p) ipa \<Rightarrow> IpaOpening list \<Rightarrow> Node list \<Rightarrow> bool" where
  "points_apart P os ns \<longleftrightarrow>
     (\<forall>o1 \<in> set os. \<forall>n \<in> set ns. \<forall>e.
        opened_point P o1 = Some e \<and> map_to_scalar_field P e = map_to_scalar_field P (commit_node_inner P n) \<longrightarrow>
        e = commit_node_inner P n)"

lemma path_nodes_hd [simp]: "node \<in> set (path_nodes node bs)"
  by (cases bs) auto

lemma openings_bind_mono:
  "openings_bind P os ns \<Longrightarrow> set os' \<subseteq> set os \<Longrightarrow> set ns' \<subseteq> set ns \<Longrightarrow> openings_bind P os' ns'"
  unfolding openings_bind_def by blast

lemma points_apart_mono:
  "points_apart P os ns \<Longrightarrow> set os' \<subseteq> set os \<Longrightarrow> set ns' \<subseteq> set ns \<Longrightarrow> points_apart P os' ns'"
  unfolding points_apart_def by blast

lemma inclusion_walk:
  assumes "ipa_correct P"
  shows "wf_tree (length bs) node \<Longrightarrow> length os = Suc (length bs) \<Longrightarrow>
    opened_point P (hd os) = Some (commit_node_inner P node) \<Longrightarrow>
    list_all (verify_opening P) os \<Longrightarrow> check_indices (butlast os) bs = Some True \<Longrightarrow> check_links P os \<Longrightarrow>
    domain_index (last os) = 0 \<Longrightarrow>
    openings_bind P os (path_nodes node bs) \<Longrightarrow> points_apart P os (path_nodes node bs) \<Longrightarrow>
    claimed_value_to_fr P (claimed_value (last os)) =
      Some (fr_from P (case get_path node bs of Some s \<Rightarrow> low_limb s | None \<Rightarrow> 0))"
proof (induction bs arbitrary: node os)
  case Nil
  then obtain o1 where os: "os = [o1]" by (cases os) auto
  with Nil node_evals_bottom [OF assms, of node] show ?case
    by (simp add: openings_bind_def claimed_value_to_fr_def)
next
  case (Cons b bs)
  from Cons.prems(2) obtain o1 os' where os: "os = o1 # os'" "length os' = Suc (length bs)" by (cases os) auto
  then have "os' \<noteq> []" by auto
  note os = os(1) this os(2)
  let ?c = "child_or_empty node b"
  from Cons.prems(1) have wf: "wf_tree (Suc (length bs)) node" by simp
  have idx: "domain_index o1 = b" "check_indices (butlast os') bs = Some True"
    using Cons.prems(5) os by (auto split: if_splits)
  have "fr_deserialize P (claimed_value o1) = Some (node_evals P node ! unat b)"
    using Cons.prems(3,4,8) os idx by (auto simp: openings_bind_def)
  then have claim: "claimed_value_to_fr P (claimed_value o1) = Some (map_to_scalar_field P (commit_node_inner P ?c))"
    by (simp add: claimed_value_to_fr_def node_evals_child [OF assms wf])
  have links: "child_commitment_to_scalar P (Commitment (ge_bytes (op_commitment (hd os')))) =
      Some (map_to_scalar_field P (commit_node_inner P ?c))" "check_links P os'"
    using Cons.prems(6) claim os by (auto simp: check_links_Cons)
  then obtain e where e: "opened_point P (hd os') = Some e"
    "map_to_scalar_field P e = map_to_scalar_field P (commit_node_inner P ?c)"
    by (auto simp: child_commitment_to_scalar_def opened_point_def)
  have subs: "set os' \<subseteq> set os" "set (path_nodes ?c bs) \<subseteq> set (path_nodes node (b # bs))" by (auto simp: os)
  have "hd os' \<in> set os" using os by simp
  with Cons.prems(9) e have "e = commit_node_inner P ?c" unfolding points_apart_def by fastforce
  with Cons.IH [OF wf_child_or_empty [OF wf] os(3)] e(1) Cons.prems(4,7) idx links os
    openings_bind_mono [OF Cons.prems(8) subs] points_apart_mono [OF Cons.prems(9) subs]
  show ?case by (simp add: get_path_child)
qed

text \<open>
  C22: an accepted Verkle inclusion proof, from any prover, fixes the low 64 bits of the balance: they
  are those of the balance the tree holds at the address, or zero when it holds none. The openings of
  the proof are assumed to be binding for the nodes on the path of the address.
\<close>

theorem verkle_inclusion_low_limb:
  assumes "ipa_correct P" "wf_state_tree t" "wf_addr a"
    and accepted: "StateTree_verify_verkle P (StateTree_root_via (BanderwagonIpaScheme_commit P) t) a (Some slot) prf = Some True"
    and witness: "ipa_witness prf = Some w"
    and "openings_bind P (openings w) (path_nodes (root_node t) (addr_bytes a))"
    and "points_apart P (openings w) (path_nodes (root_node t) (addr_bytes a))"
  shows "low_limb slot = (case StateTree_get t a of Some s \<Rightarrow> low_limb s | None \<Rightarrow> 0)"
proof -
  have wf: "wf_tree (length (addr_bytes a)) (root_node t)"
    using assms(2,3) by (simp add: wf_state_tree_def wf_addr_def)
  from accepted witness have chk: "openings w \<noteq> []" "list_all (verify_opening P) (openings w)"
    "ge_bytes (op_commitment (hd (openings w))) = el_to_bytes P (commit_node_inner P (root_node t))"
    "length (openings w) = Suc (length (addr_bytes a))"
    "check_indices (take (length (addr_bytes a)) (openings w)) (addr_bytes a) = Some True"
    "check_links P (openings w)" "check_leaf P (last (openings w)) slot"
    by (auto simp: StateTree_verify_verkle_def Let_def StateTree_root_via_def BanderwagonIpaScheme_commit_def
        split: if_splits option.splits bool.splits)
  then have "check_indices (butlast (openings w)) (addr_bytes a) = Some True" by (simp add: butlast_conv_take)
  moreover have "opened_point P (hd (openings w)) = Some (commit_node_inner P (root_node t))"
    by (simp add: opened_point_def chk(3) commitment_to_element_of [OF assms(1)])
  ultimately have "fr_from P (low_limb slot) =
      fr_from P (case get_path (root_node t) (addr_bytes a) of Some s \<Rightarrow> low_limb s | None \<Rightarrow> 0)"
    using inclusion_walk [OF assms(1) wf chk(4) _ chk(2) _ chk(6) _ assms(6,7)] chk(7) by (simp add: check_leaf_iff)
  then show ?thesis using ipa_correctD(7) [OF assms(1)] by (simp add: inj_eq StateTree_get_def)
qed

section \<open>What the proofs do not show\<close>

text \<open>
  And nothing else is fixed: every balance with those low 64 bits has an accepted inclusion proof,
  whatever its high bits, and so has, for an address the tree does not hold, every multiple of \<open>2^64\<close>.
\<close>

theorem verkle_inclusion_forgeable:
  assumes "ipa_correct P" "wf_state_tree t" "wf_addr a"
    and "low_limb slot = (case StateTree_get t a of Some s \<Rightarrow> low_limb s | None \<Rightarrow> 0)"
  shows "\<exists>prf. StateTree_verify_verkle P (StateTree_root_via (BanderwagonIpaScheme_commit P) t) a (Some slot) prf = Some True"
  using accept_inclusion [OF assms, of "\<lparr>path = [], proof_slot = Some slot,
      ipa_witness = Some \<lparr>openings = open_down P (root_node t) (addr_bytes a)\<rparr>\<rparr>"
      "\<lparr>openings = open_down P (root_node t) (addr_bytes a)\<rparr>"] by auto

lemma check_indices_overrun:
  "check_indices (map (opening_of P ev) bs @ [o1]) bs = None"
  by (induction bs) auto

text \<open>
  C23: an absence proof shows nothing: against any tree every address has an accepted one, present or not,
  because the last opening is not required to be zero. And a witness with more openings than address
  bytes makes the verifier index past the end of the address, which is a panic.
\<close>

theorem verkle_absence_unsound:
  assumes "ipa_correct P" "wf_state_tree t" "wf_addr a"
  shows "(\<exists>prf. StateTree_verify_verkle P (StateTree_root_via (BanderwagonIpaScheme_commit P) t) a None prf = Some True) \<and>
    (\<exists>prf. StateTree_verify_verkle P (StateTree_root_via (BanderwagonIpaScheme_commit P) t) a None prf = None)"
proof
  have one: "0 < (1::nat)" "1 \<le> length (addr_bytes a)" using assms(3) by (auto simp: wf_addr_def)
  show "\<exists>prf. StateTree_verify_verkle P (StateTree_root_via (BanderwagonIpaScheme_commit P) t) a None prf = Some True"
    using accept_absence [OF assms one, of "\<lparr>path = [], proof_slot = None,
        ipa_witness = Some \<lparr>openings = take 1 (open_down P (root_node t) (addr_bytes a))\<rparr>\<rparr>"
        "\<lparr>openings = take 1 (open_down P (root_node t) (addr_bytes a))\<rparr>"] by auto
  let ?open = "opening_of P (node_evals P (root_node t))"
  let ?os = "map ?open (addr_bytes a) @ [?open 0]"
  have "check_indices ?os (addr_bytes a) = None" by (rule check_indices_overrun)
  moreover have "list_all (verify_opening P) ?os" by (simp add: list_all_iff verify_opening_of [OF assms(1)])
  moreover have "ge_bytes (op_commitment (hd ?os)) = el_to_bytes P (commit_node_inner P (root_node t))"
    by (cases "addr_bytes a") (simp_all add: commit_node_inner_evals [OF assms(1)])
  ultimately have "StateTree_verify_verkle P (StateTree_root_via (BanderwagonIpaScheme_commit P) t) a None
      \<lparr>path = [], proof_slot = None, ipa_witness = Some \<lparr>openings = ?os\<rparr>\<rparr> = None"
    by (simp add: StateTree_verify_verkle_def StateTree_root_via_def BanderwagonIpaScheme_commit_def Let_def)
  then show "\<exists>prf. StateTree_verify_verkle P (StateTree_root_via (BanderwagonIpaScheme_commit P) t) a None prf = None" ..
qed

section \<open>A concrete instance\<close>

text \<open>
  Points are evaluation vectors over the integers, numbered by the pairing functions of the library and
  encoded as byte strings of that length, and the verifier checks the inner product directly.
\<close>

definition point_code :: "int list \<Rightarrow> nat" where
  "point_code e = list_encode (map int_encode e)"

definition toy_ipa :: "(int list, int, bytes) ipa" where
  "toy_ipa =
     \<lparr>el_zero = replicate POLY_WIDTH 0,
      el_to_bytes = \<lambda>e. if e = replicate POLY_WIDTH 0 then replicate 32 0 else 1 # replicate (point_code e) 0,
      el_from_bytes = \<lambda>bs. Some (map int_decode (list_decode (length bs - 1))),
      map_to_scalar_field = \<lambda>e. if e = replicate POLY_WIDTH 0 then 0 else int (point_code e) + 1,
      fr_from = uint,
      fr_serialize = \<lambda>v. replicate (int_encode v) 0,
      fr_deserialize = \<lambda>bs. Some (int_decode (length bs)),
      commit_lagrange = \<lambda>a. a,
      ipa_create = \<lambda>label a c b x. [],
      ipa_to_bytes = \<lambda>p. p,
      ipa_from_bytes = \<lambda>bs n. Some bs,
      ipa_verify = \<lambda>label p b c x y. inner c b = y\<rparr>"

lemma point_code_inverse: "map int_decode (list_decode (point_code e)) = e"
  by (simp add: point_code_def comp_def)

lemma point_code_inj: "point_code e = point_code e' \<longleftrightarrow> e = e'"
  by (metis point_code_inverse)

lemma toy_ipa_correct: "ipa_correct toy_ipa"
proof -
  have "1 # (xs :: bytes) \<noteq> replicate 32 0" for xs by (simp add: numeral_eq_Suc)
  moreover have "inj (uint :: u64 \<Rightarrow> int)" by (simp add: inj_on_def word_uint_eq_iff)
  ultimately show ?thesis
    by (auto simp: ipa_correct_def ipa_encodes_def ipa_algebra_def ipa_complete_def toy_ipa_def point_code_inverse)
qed

theorem verkle_complete_witness:
  "StateTree_verify_verkle toy_ipa (StateTree_root_via (BanderwagonIpaScheme_commit toy_ipa) one_account_tree) (addr_of 1)
     (StateTree_get one_account_tree (addr_of 1)) (StateTree_proof_verkle level_digest toy_ipa one_account_tree (addr_of 1))
   = Some True"
  by (rule verkle_complete [OF toy_ipa_correct wf_one_account_tree wf_addr_of])

theorem verkle_inclusion_forgeable_witness:
  "\<exists>pr. StateTree_verify_verkle toy_ipa (StateTree_root_via (BanderwagonIpaScheme_commit toy_ipa) one_account_tree)
     (addr_of 2) (Some (BalanceSlot_new (2 ^ 64))) pr = Some True"
proof -
  have "low_limb (BalanceSlot_new (2 ^ 64)) =
      (case StateTree_get one_account_tree (addr_of 2) of Some s \<Rightarrow> low_limb s | None \<Rightarrow> 0)" by code_simp
  from verkle_inclusion_forgeable [OF toy_ipa_correct wf_one_account_tree wf_addr_of this] show ?thesis .
qed

theorem verkle_absence_unsound_witness:
  "\<exists>pr. StateTree_verify_verkle toy_ipa (StateTree_root_via (BanderwagonIpaScheme_commit toy_ipa) one_account_tree)
     (addr_of 1) None pr = Some True"
  using verkle_absence_unsound [OF toy_ipa_correct wf_one_account_tree wf_addr_of] by blast

lemma toy_binds: "openings_bind toy_ipa os ns"
proof -
  have "inner (node_evals toy_ipa n) (unit_b_vector toy_ipa (unat i)) = node_evals toy_ipa n ! unat i" for n and i :: u8
    by (rule inner_unit [OF toy_ipa_correct]) simp
  moreover have "commit_node_inner toy_ipa n = node_evals toy_ipa n" for n
    using commit_node_inner_evals [OF toy_ipa_correct, of n] by (simp add: toy_ipa_def)
  ultimately show ?thesis
    by (auto simp: openings_bind_def opened_point_def verify_opening_def toy_ipa_def)
qed

lemma toy_apart: "points_apart toy_ipa os ns"
  by (auto simp: points_apart_def toy_ipa_def point_code_inj split: if_splits)

theorem verkle_inclusion_low_limb_witness:
  "low_limb (BalanceSlot_new 5) = (case StateTree_get one_account_tree (addr_of 1) of Some s \<Rightarrow> low_limb s | None \<Rightarrow> 0)"
proof -
  let ?pr = "StateTree_proof_verkle level_digest toy_ipa one_account_tree (addr_of 1)"
  have accepted: "StateTree_verify_verkle toy_ipa (StateTree_root_via (BanderwagonIpaScheme_commit toy_ipa) one_account_tree)
      (addr_of 1) (Some (BalanceSlot_new 5)) ?pr = Some True"
    using verkle_own_proof [OF toy_ipa_correct wf_one_account_tree wf_addr_of, of 1 level_digest]
    by (simp add: one_account_get)
  have "\<exists>w. ipa_witness ?pr = Some w" by (simp add: StateTree_proof_verkle_def case_prod_unfold Let_def)
  then obtain w where "ipa_witness ?pr = Some w" ..
  from verkle_inclusion_low_limb [OF toy_ipa_correct wf_one_account_tree wf_addr_of accepted this toy_binds toy_apart]
  show ?thesis .
qed

end
