(* ===== verification/Aptos.thy ===== *)
theory Aptos
  imports Bundle
begin

text \<open>
  The production Move executor (\<open>state/src/vm/executor.rs\<close>, feature \<open>production-move-executor\<close>) and its session
  adapters (\<open>state/src/vm/aptos_session.rs\<close>). The Aptos crates are the parameter \<open>aptos\<close>: the deserialiser, the
  verifier, the identifier check, the loader, the interpreter and the extraction of effects. The crates call back
  into the two adapters, which are functions handed to them. An error value is its \<open>Debug\<close> text. What is used
  of the crates is that they run the repository's own coin module (\<open>move/canonical-coin/sources/coin.move\<close>, modelled
  here) as its source says (\<open>runs_coin\<close>).
\<close>

section \<open>The crates\<close>

record 'tp AptosStructTag =
  tag_address :: bytes
  tag_module :: bytes
  tag_name :: bytes
  tag_type_args :: "'tp list"

datatype AptosOp = Op_New bytes | Op_Modify bytes | Op_Delete

fun AptosOp_ok :: "AptosOp \<Rightarrow> bytes option" where
  "AptosOp_ok (Op_New b) = Some b"
| "AptosOp_ok (Op_Modify b) = Some b"
| "AptosOp_ok Op_Delete = None"

type_synonym fetcher = "bytes \<Rightarrow> bytes \<Rightarrow> bytes option"
type_synonym 'tp resolver = "bytes \<Rightarrow> 'tp AptosStructTag \<Rightarrow> bytes option \<times> nat"
type_synonym 'tp changes = "(bytes \<times> ('tp AptosStructTag \<times> AptosOp) list) list"

record ('cm, 'fn, 'cache, 'tp) aptos =
  apt_deserialize :: "bytes \<Rightarrow> string + 'cm"
  apt_verify :: "'cm \<Rightarrow> string + unit"
  apt_identifier :: "bytes \<Rightarrow> string + bytes"
  apt_load :: "fetcher \<Rightarrow> bytes \<times> bytes \<Rightarrow> bytes \<Rightarrow> string + 'fn"
  apt_execute :: "fetcher \<Rightarrow> 'tp resolver \<Rightarrow> 'fn \<Rightarrow> bytes list \<Rightarrow> string + 'cache"
  apt_effects :: "fetcher \<Rightarrow> 'cache \<Rightarrow> string + 'tp changes"

section \<open>The adapters\<close>

definition SuwappudbModuleBytes_fetch_module_bytes :: "InMemoryModuleStore \<Rightarrow> fetcher" where
  "SuwappudbModuleBytes_fetch_module_bytes ms address module_name =
     (let our_addr = MoveAddress address in
      case Identifier_new module_name of
        Inl _ \<Rightarrow> None
      | Inr our_name \<Rightarrow> map_option cm_bytes (ModuleStore_get ms \<lparr>mod_address = our_addr, mod_name = our_name\<rparr>))"

definition EmptyResourceResolver_get :: "MoveBalanceView \<Rightarrow> 'tp resolver" where
  "EmptyResourceResolver_get _ _ _ = (None, 0)"

definition SUWAPPUDB_COIN_ADDRESS :: bytes where
  "SUWAPPUDB_COIN_ADDRESS = [0, 0, 0, 0, 0, 0, 0, 0, 0, 0, 0, 0, 0, 0, 0, 0, 0, 0, 0, 0, 0, 0, 0, 0, 0, 0, 0, 0, 0, 0, 0, 1]"

definition SUWAPPUDB_COIN_MODULE_NAME :: bytes where
  "SUWAPPUDB_COIN_MODULE_NAME = ascii ''coin''"

definition SUWAPPUDB_COIN_STRUCT_NAME :: bytes where
  "SUWAPPUDB_COIN_STRUCT_NAME = ascii ''CoinStore''"

text \<open>\<open>None\<close> is the panic of the \<open>expect\<close>.\<close>

definition canonical_coin_module_id :: "ModuleId option" where
  "canonical_coin_module_id = (case Identifier_new SUWAPPUDB_COIN_MODULE_NAME of
     Inl _ \<Rightarrow> None
   | Inr n \<Rightarrow> Some \<lparr>mod_address = MoveAddress SUWAPPUDB_COIN_ADDRESS, mod_name = n\<rparr>)"

definition COIN_STORE_BCS_LEN :: nat where
  "COIN_STORE_BCS_LEN = 16"

definition encode_coin_store :: "u64 \<Rightarrow> u64 \<Rightarrow> bytes" where
  "encode_coin_store v sequence = to_le_bytes v @ to_le_bytes sequence"

definition decode_coin_store :: "bytes \<Rightarrow> (u64 \<times> u64) option" where
  "decode_coin_store bs =
     (if length bs \<noteq> COIN_STORE_BCS_LEN then None
      else Some (from_le_bytes (take 8 bs), from_le_bytes (take 8 (drop 8 bs))))"

definition is_canonical_coin_store :: "'tp AptosStructTag \<Rightarrow> bool" where
  "is_canonical_coin_store tag \<longleftrightarrow> tag_address tag = SUWAPPUDB_COIN_ADDRESS \<and>
     tag_module tag = SUWAPPUDB_COIN_MODULE_NAME \<and> tag_name tag = SUWAPPUDB_COIN_STRUCT_NAME"

text \<open>\<open>u64::try_from(v).unwrap_or(u64::MAX)\<close>.\<close>

definition saturate_u64 :: "u128 \<Rightarrow> u64" where
  "saturate_u64 v = (if unat v < 2 ^ 64 then ucast v else - 1)"

definition BalanceViewResolver_get :: "MoveBalanceView \<Rightarrow> 'tp resolver" where
  "BalanceViewResolver_get view address struct_tag =
     (if \<not> is_canonical_coin_store struct_tag then (None, 0)
      else let our_addr = MoveAddress address;
               v = saturate_u64 (MoveCoinValue_to_u128 (view_coin_value view our_addr));
               sequence = nonce_value (view_nonce view our_addr)
           in (Some (encode_coin_store v sequence), COIN_STORE_BCS_LEN))"

section \<open>The executor\<close>

text \<open>Step 7: the writes to the coin resource, in the order of the change set.\<close>

definition extract_write :: "MoveAddress \<Rightarrow> 'tp AptosStructTag \<times> AptosOp \<Rightarrow> ResourceWrite option" where
  "extract_write our_addr = (\<lambda>(struct_tag, op).
     if \<not> (tag_address struct_tag =
              [0, 0, 0, 0, 0, 0, 0, 0, 0, 0, 0, 0, 0, 0, 0, 0, 0, 0, 0, 0, 0, 0, 0, 0, 0, 0, 0, 0, 0, 0, 0, 1] \<and>
            tag_module struct_tag = ascii ''coin'' \<and> tag_name struct_tag = ascii ''CoinStore'') then None
     else case AptosOp_ok op of
            None \<Rightarrow> None
          | Some bs \<Rightarrow> (case decode_coin_store bs of
              None \<Rightarrow> None
            | Some (v, sequence) \<Rightarrow> Some \<lparr>rw_addr = our_addr, rw_coin_value = MoveCoinValue_from_u128 (ucast v),
                                         rw_nonce = AccountNonce_new sequence\<rparr>))"

definition extract_writes :: "'tp changes \<Rightarrow> ResourceWrite list" where
  "extract_writes cs = concat (map (\<lambda>(aptos_addr, resources).
     List.map_filter (extract_write (MoveAddress aptos_addr)) resources) cs)"

definition AptosMoveExecutor_execute :: "('cm, 'fn, 'cache, 'tp) aptos \<Rightarrow> MoveExecutor" where
  "AptosMoveExecutor_execute A call ms state =
     ((case ModuleStore_get ms (mc_module call) of
        None \<Rightarrow> Inl (ModuleNotFound (mc_module call))
      | Some cm \<Rightarrow>
      (case apt_deserialize A (cm_bytes cm) of
        Inl e \<Rightarrow> Inl (BytecodeVerificationFailed (''deserialize: '' @ e))
      | Inr compiled \<Rightarrow>
      (case apt_verify A compiled of
        Inl e \<Rightarrow> Inl (BytecodeVerificationFailed (''verify: '' @ e))
      | Inr _ \<Rightarrow>
      let fetch = SuwappudbModuleBytes_fetch_module_bytes ms;
          res = BalanceViewResolver_get (balance_view state) in
      (case apt_identifier A (as_str (mod_name (mc_module call))) of
        Inl e \<Rightarrow> Inl (LinkerError (''module-id ident: '' @ e))
      | Inr module_ident \<Rightarrow>
      (case apt_identifier A (as_str (mc_function call)) of
        Inl e \<Rightarrow> Inl (LinkerError (''function-name ident: '' @ e))
      | Inr function_name \<Rightarrow>
      (case apt_load A fetch (move_bytes (mod_address (mc_module call)), module_ident) function_name of
        Inl e \<Rightarrow> Inl (LinkerError (''load_function: '' @ e))
      | Inr loaded \<Rightarrow>
      (case apt_execute A fetch res loaded (mc_arguments call) of
        Inl _ \<Rightarrow> Inl (Abort 0 \<lparr>loc_module = Some (mc_module call), function_index = 0, instruction_index = 0\<rparr>)
      | Inr cache \<Rightarrow>
      (case apt_effects A fetch cache of
        Inl e \<Rightarrow> Inl (LinkerError (''into_effects: '' @ e))
      | Inr cs \<Rightarrow> Inr \<lparr>return_values = [], out_events = [], resource_writes = extract_writes cs\<rparr>)))))))), state)"

section \<open>The coin module\<close>

text \<open>
  The Move source of \<open>transfer\<close>, \<open>balance\<close> and \<open>sequence\<close>: \<open>borrow_global_mut\<close> aborts when the resource is absent, and
  integer operations abort on overflow. The global storage of the resource is a map; the transfer returns it
  updated.
\<close>

datatype MoveAbort = MissingData | AbortCode u64 | ArithmeticError

definition EINSUFFICIENT_BALANCE :: u64 where
  "EINSUFFICIENT_BALANCE = 0x10006"

type_synonym coin_globals = "bytes \<Rightarrow> (u64 \<times> u64) option"

definition coin_move_transfer :: "coin_globals \<Rightarrow> bytes \<Rightarrow> bytes \<Rightarrow> u64 \<Rightarrow> MoveAbort + coin_globals" where
  "coin_move_transfer g from_addr to_addr amount =
     (case g from_addr of
        None \<Rightarrow> Inl MissingData
      | Some (v, s) \<Rightarrow>
          if \<not> amount \<le> v then Inl (AbortCode EINSUFFICIENT_BALANCE)
          else if unat s + 1 \<ge> 2 ^ 64 then Inl ArithmeticError
          else let g1 = g(from_addr \<mapsto> (v - amount, s + 1)) in
               case g1 to_addr of
                 None \<Rightarrow> Inl MissingData
               | Some (w, t) \<Rightarrow>
                   if unat w + unat amount \<ge> 2 ^ 64 then Inl ArithmeticError
                   else Inr (g1(to_addr \<mapsto> (w + amount, t))))"

definition coin_move_balance :: "coin_globals \<Rightarrow> bytes \<Rightarrow> u64" where
  "coin_move_balance g a = (case g a of Some (v, _) \<Rightarrow> v | None \<Rightarrow> 0)"

definition coin_move_sequence :: "coin_globals \<Rightarrow> bytes \<Rightarrow> u64" where
  "coin_move_sequence g a = (case g a of Some (_, s) \<Rightarrow> s | None \<Rightarrow> 0)"

text \<open>What the interpreter reads through the resolver and reports as changes, by ascending address.\<close>

definition coin_tag :: "'tp AptosStructTag" where
  "coin_tag = \<lparr>tag_address = SUWAPPUDB_COIN_ADDRESS, tag_module = SUWAPPUDB_COIN_MODULE_NAME,
               tag_name = SUWAPPUDB_COIN_STRUCT_NAME, tag_type_args = []\<rparr>"

definition resolved :: "'tp resolver \<Rightarrow> coin_globals" where
  "resolved res a = (case fst (res a coin_tag) of None \<Rightarrow> None | Some bs \<Rightarrow> decode_coin_store bs)"

definition coin_changes :: "coin_globals \<Rightarrow> bytes \<Rightarrow> bytes \<Rightarrow> 'tp changes" where
  "coin_changes g a b = map (\<lambda>x. (x, case g x of None \<Rightarrow> [] | Some (v, s) \<Rightarrow> [(coin_tag, Op_Modify (encode_coin_store v s))]))
     (if a = b then [a] else if a < b then [a, b] else [b, a])"

text \<open>The crates accept the compiled coin module \<open>mv\<close> and run its \<open>transfer\<close> as the source says.\<close>

definition runs_coin :: "('cm, 'fn, 'cache, 'tp) aptos \<Rightarrow> bytes \<Rightarrow> bool" where
  "runs_coin A mv \<longleftrightarrow>
     (\<exists>m. apt_deserialize A mv = Inr m \<and> apt_verify A m = Inr ()) \<and>
     apt_identifier A (ascii ''coin'') = Inr (ascii ''coin'') \<and>
     apt_identifier A (ascii ''transfer'') = Inr (ascii ''transfer'') \<and>
     (\<forall>fetch. fetch SUWAPPUDB_COIN_ADDRESS (ascii ''coin'') = Some mv \<longrightarrow>
        (\<exists>fn. apt_load A fetch (SUWAPPUDB_COIN_ADDRESS, ascii ''coin'') (ascii ''transfer'') = Inr fn \<and>
           (\<forall>res a b amount. length a = 32 \<and> length b = 32 \<longrightarrow>
              (case coin_move_transfer (resolved res) a b amount of
                 Inl _ \<Rightarrow> \<exists>e. apt_execute A fetch res fn [a, b, to_le_bytes amount] = Inl e
               | Inr g \<Rightarrow> \<exists>cache. apt_execute A fetch res fn [a, b, to_le_bytes amount] = Inr cache \<and>
                           apt_effects A fetch cache = Inr (coin_changes g a b)))))"

section \<open>The adapters are exact\<close>

lemma decode_encode_coin_store: "decode_coin_store (encode_coin_store v s) = Some (v, s)"
  by (simp add: decode_coin_store_def encode_coin_store_def COIN_STORE_BCS_LEN_def from_to_le_bytes)

lemma coin_store_codec: "decode_coin_store bs = Some (v, s) \<longleftrightarrow> bs = encode_coin_store v s"
proof
  assume dec: "decode_coin_store bs = Some (v, s)"
  then have len: "length bs = 16" by (simp add: decode_coin_store_def COIN_STORE_BCS_LEN_def split: if_splits)
  have "encode_coin_store v s = take 8 bs @ take 8 (drop 8 bs)"
    using dec len by (auto simp: decode_coin_store_def encode_coin_store_def COIN_STORE_BCS_LEN_def to_from_le_bytes)
  also have "\<dots> = bs" using len by simp
  finally show "bs = encode_coin_store v s" ..
qed (simp add: decode_encode_coin_store)

lemma canonical_id: "canonical_coin_module_id = Some \<lparr>mod_address = CANONICAL_COIN_ADDRESS, mod_name = Identifier (ascii ''coin'')\<rparr>"
  by code_simp

lemma coin_address: "SUWAPPUDB_COIN_ADDRESS = move_bytes CANONICAL_COIN_ADDRESS"
  by code_simp

lemma coin_module_fetched:
  assumes "canonical_coin_module_id = Some i" "ModuleStore_get ms i = Some \<lparr>cm_bytes = mv\<rparr>"
  shows "SuwappudbModuleBytes_fetch_module_bytes ms SUWAPPUDB_COIN_ADDRESS (ascii ''coin'') = Some mv"
  using assms
  by (auto simp: canonical_coin_module_id_def SUWAPPUDB_COIN_MODULE_NAME_def SuwappudbModuleBytes_fetch_module_bytes_def
      split: sum.splits)

lemma resolved_view:
  "resolved (BalanceViewResolver_get view) a =
     Some (saturate_u64 (MoveCoinValue_to_u128 (view_coin_value view (MoveAddress a))), nonce_value (view_nonce view (MoveAddress a)))"
  by (simp add: resolved_def BalanceViewResolver_get_def is_canonical_coin_store_def coin_tag_def decode_encode_coin_store Let_def)

lemma extract_coin:
  "extract_write m (coin_tag, Op_Modify (encode_coin_store v s)) =
     Some \<lparr>rw_addr = m, rw_coin_value = MoveCoinValue (ucast v), rw_nonce = \<lparr>nonce_value = s\<rparr>\<rparr>"
  by (simp add: extract_write_def coin_tag_def decode_encode_coin_store SUWAPPUDB_COIN_ADDRESS_def
      SUWAPPUDB_COIN_MODULE_NAME_def SUWAPPUDB_COIN_STRUCT_NAME_def MoveCoinValue_from_u128_def AccountNonce_new_def)

section \<open>Calls of the coin module\<close>

definition transfer_call :: "MoveAddress \<Rightarrow> MoveAddress \<Rightarrow> MoveAddress \<Rightarrow> u64 \<Rightarrow> MoveCall" where
  "transfer_call caller m n amount =
     \<lparr>mc_caller = caller, mc_module = \<lparr>mod_address = CANONICAL_COIN_ADDRESS, mod_name = Identifier (ascii ''coin'')\<rparr>,
      mc_function = Identifier (ascii ''transfer''), mc_type_arguments = [],
      mc_arguments = [move_bytes m, move_bytes n, to_le_bytes amount]\<rparr>"

definition coin_deployed :: "InMemoryModuleStore \<Rightarrow> bytes \<Rightarrow> bool" where
  "coin_deployed ms mv \<longleftrightarrow> (\<exists>i. canonical_coin_module_id = Some i \<and> ModuleStore_get ms i = Some \<lparr>cm_bytes = mv\<rparr>)"

lemma execute_transfer:
  assumes A: "runs_coin A mv" and ms: "coin_deployed ms mv" and wf: "wf_move_addr m" "wf_move_addr n"
  shows "case coin_move_transfer (resolved (BalanceViewResolver_get view :: 'tp resolver)) (move_bytes m) (move_bytes n) amount of
      Inl _ \<Rightarrow> \<exists>e. fst (AptosMoveExecutor_execute (A :: ('cm, 'fn, 'cache, 'tp) aptos) (transfer_call c m n amount) ms
                   (MoveSessionState_new view)) = Inl e
    | Inr g \<Rightarrow> \<exists>out. fst (AptosMoveExecutor_execute A (transfer_call c m n amount) ms (MoveSessionState_new view)) = Inr out \<and>
                resource_writes out = extract_writes (coin_changes g (move_bytes m) (move_bytes n) :: 'tp changes)"
proof -
  let ?fetch = "SuwappudbModuleBytes_fetch_module_bytes ms" and ?res = "BalanceViewResolver_get view :: 'tp resolver"
  from ms have get: "ModuleStore_get ms \<lparr>mod_address = CANONICAL_COIN_ADDRESS, mod_name = Identifier (ascii ''coin'')\<rparr>
      = Some \<lparr>cm_bytes = mv\<rparr>" by (auto simp: coin_deployed_def canonical_id)
  have fetched: "?fetch SUWAPPUDB_COIN_ADDRESS (ascii ''coin'') = Some mv"
    using coin_module_fetched [OF canonical_id get] .
  from A obtain cm where cm: "apt_deserialize A mv = Inr cm" "apt_verify A cm = Inr ()"
    and ident: "apt_identifier A (ascii ''coin'') = Inr (ascii ''coin'')" "apt_identifier A (ascii ''transfer'') = Inr (ascii ''transfer'')"
    by (auto simp: runs_coin_def)
  from A fetched obtain fn where load: "apt_load A ?fetch (SUWAPPUDB_COIN_ADDRESS, ascii ''coin'') (ascii ''transfer'') = Inr fn"
    and run: "case coin_move_transfer (resolved ?res) (move_bytes m) (move_bytes n) amount of
        Inl _ \<Rightarrow> \<exists>e. apt_execute A ?fetch ?res fn [move_bytes m, move_bytes n, to_le_bytes amount] = Inl e
      | Inr g \<Rightarrow> \<exists>cache. apt_execute A ?fetch ?res fn [move_bytes m, move_bytes n, to_le_bytes amount] = Inr cache \<and>
                  apt_effects A ?fetch cache = Inr (coin_changes g (move_bytes m) (move_bytes n))"
    using wf unfolding runs_coin_def wf_move_addr_def by blast
  show ?thesis using run
    by (auto simp: AptosMoveExecutor_execute_def transfer_call_def get cm ident load [unfolded coin_address] MoveSessionState_new_def
        split: sum.splits)
qed

text \<open>Both writes of a transfer between distinct ledger accounts, whatever the order of the addresses.\<close>

lemma apply_two_writes:
  assumes "g m = Some (v, s)" "g n = Some (w, t)" "MoveAddress_to_evm (MoveAddress m) \<noteq> MoveAddress_to_evm (MoveAddress n)"
  shows "bal (apply_resource_writes st (extract_writes (coin_changes g m n))) =
    (bal st)(MoveAddress_to_evm (MoveAddress m) := ucast v, MoveAddress_to_evm (MoveAddress n) := ucast w)"
proof -
  have "m \<noteq> n" using assms(3) by auto
  then show ?thesis using assms
    by (auto simp: fun_eq_iff apply_resource_writes_def extract_writes_def coin_changes_def List.map_filter_simps extract_coin
        move_addr_to_evm_def MoveAddress_to_evm_def)
qed

text \<open>
  A bundle with one transfer call between distinct ledger accounts, over a view that reads the state: what the
  interpreter sees of a balance is capped at \<open>u64::MAX\<close>, and what it writes replaces the balance.
\<close>

definition view_reads :: "MoveBalanceView \<Rightarrow> State \<Rightarrow> MoveAddress \<Rightarrow> bool" where
  "view_reads view st m \<longleftrightarrow> view_coin_value view m = MoveCoinValue (bal st (MoveAddress_to_evm m)) \<and>
     unat (nonce_value (view_nonce view m)) + 1 < 2 ^ 64"

text \<open>A bundle of one Move call commits its writes, or is reverted and changes no balance.\<close>

lemma one_call_bundle:
  assumes "BundleExecutor_execute_with_move_runtime st \<lparr>steps = [StepMoveCall call]\<rparr> ex ms view = (r, st', ms')"
  shows "case fst (ex call ms (MoveSessionState_new view)) of
      Inr out \<Rightarrow> BundleResult_is_committed r \<and> st' = apply_resource_writes st (resource_writes out)
    | Inl e \<Rightarrow> outcome r = Reverted 0 \<and> bal st' = bal st"
  using assms restore_snapshot_bal [OF collect_snapshot_of]
  by (auto simp: BundleExecutor_execute_with_move_runtime_def Bundle_is_empty_def BundleResult_is_committed_def fun_eq_iff
      split: sum.splits)

lemma transfer_bundle:
  assumes A: "runs_coin (A :: ('cm, 'fn, 'cache, 'tp) aptos) mv" "coin_deployed ms mv" "wf_move_addr m" "wf_move_addr n"
    and ne: "MoveAddress_to_evm m \<noteq> MoveAddress_to_evm n" and view: "view_reads view st m" "view_reads view st n"
    and run: "BundleExecutor_execute_with_move_runtime st \<lparr>steps = [StepMoveCall (transfer_call c m n amount)]\<rparr>
      (AptosMoveExecutor_execute A) ms view = (r, st', ms')"
  defines "v \<equiv> saturate_u64 (bal st (MoveAddress_to_evm m))" and "w \<equiv> saturate_u64 (bal st (MoveAddress_to_evm n))"
  shows "if amount \<le> v \<and> unat w + unat amount < 2 ^ 64
    then BundleResult_is_committed r \<and> (State_invar st \<longrightarrow> State_invar st') \<and>
      bal st' = (bal st)(MoveAddress_to_evm m := ucast (v - amount), MoveAddress_to_evm n := ucast (w + amount))
    else outcome r = Reverted 0 \<and> bal st' = bal st"
proof -
  let ?g = "resolved (BalanceViewResolver_get view :: 'tp resolver)"
  let ?out = "fst (AptosMoveExecutor_execute A (transfer_call c m n amount) ms (MoveSessionState_new view))"
  have mn: "move_bytes n \<noteq> move_bytes m" using ne by (metis MoveAddress.collapse)
  have g: "?g (move_bytes m) = Some (v, nonce_value (view_nonce view m))"
    "?g (move_bytes n) = Some (w, nonce_value (view_nonce view n))"
    using view by (simp_all add: resolved_view view_reads_def v_def w_def)
  have nonce: "\<not> 2 ^ 64 \<le> unat (nonce_value (view_nonce view m)) + 1" using view(1) by (simp add: view_reads_def)
  note ex = execute_transfer [OF A, where view = view and amount = amount and c = c] and res = one_call_bundle [OF run]
  show ?thesis
  proof (cases "amount \<le> v \<and> unat w + unat amount < 2 ^ 64")
    case True
    let ?g2 = "?g(move_bytes m \<mapsto> (v - amount, nonce_value (view_nonce view m) + 1),
                  move_bytes n \<mapsto> (w + amount, nonce_value (view_nonce view n)))"
    have "coin_move_transfer ?g (move_bytes m) (move_bytes n) amount = Inr ?g2"
      using True g nonce mn by (simp add: coin_move_transfer_def)
    with ex obtain out where out: "?out = Inr out" "resource_writes out = extract_writes (coin_changes ?g2 (move_bytes m) (move_bytes n) :: 'tp changes)"
      by auto
    have "bal (apply_resource_writes st (extract_writes (coin_changes ?g2 (move_bytes m) (move_bytes n) :: 'tp changes))) =
        (bal st)(MoveAddress_to_evm (MoveAddress (move_bytes m)) := ucast (v - amount),
                 MoveAddress_to_evm (MoveAddress (move_bytes n)) := ucast (w + amount))"
      by (rule apply_two_writes) (use mn ne in simp_all)
    with True res out show ?thesis by (simp add: apply_writes_invar)
  next
    case False
    then have "\<exists>e. coin_move_transfer ?g (move_bytes m) (move_bytes n) amount = Inl e"
      using g nonce mn by (auto simp: coin_move_transfer_def Let_def)
    with ex obtain e where "?out = Inl e" by auto
    with False res show ?thesis by auto
  qed
qed

text \<open>Both directions between a \<open>u64\<close> of the interpreter and a \<open>u128\<close> of the ledger.\<close>

lemma unat_ucast_u128 [simp]: "unat (ucast (x :: u64) :: u128) = unat x"
proof -
  have "unat x < 2 ^ 64" using unsigned_less [of x, where ?'a = nat] by simp
  then show ?thesis by (simp add: unsigned_ucast_eq take_bit_eq_mod)
qed

lemma unat_saturate: "unat (saturate_u64 x) = min (unat x) (2 ^ 64 - 1)"
  by (auto simp: saturate_u64_def unsigned_ucast_eq take_bit_eq_mod unsigned_minus_1_eq_mask mask_eq_exp_minus_1 min_def)

text \<open>
  C14: with the production executor too the two virtual machines are one ledger, as long as balances
  fit in 64 bits. If the crates run the coin module as its source says, a bundle with one call of
  \<open>0x1::coin::transfer\<close> between distinct accounts, whoever the caller of the call is, commits exactly when the
  bridge accepts the same transfer, and leaves the same balances.
\<close>

theorem aptos_agrees_with_bridge:
  assumes "runs_coin A mv" "coin_deployed ms mv" "wf_move_addr m" "wf_move_addr n"
    and "MoveAddress_to_evm m \<noteq> MoveAddress_to_evm n" "view_reads view st m" "view_reads view st n"
    and "unat (bal st (MoveAddress_to_evm m)) < 2 ^ 64" "unat (bal st (MoveAddress_to_evm n)) + unat amount < 2 ^ 64"
    and "BundleExecutor_execute_with_move_runtime st \<lparr>steps = [StepMoveCall (transfer_call c m n amount)]\<rparr>
      (AptosMoveExecutor_execute A) ms view = (r, st', ms')"
    and "Bridge_submit st (Transfer (MoveAddress_to_evm m) (MoveAddress_to_evm n) (ucast amount)) = (res, st2)"
  shows "(BundleResult_is_committed r \<longleftrightarrow> res = Inr ()) \<and> bal st' = bal st2"
proof -
  let ?a = "MoveAddress_to_evm m" and ?b = "MoveAddress_to_evm n" and ?n = "ucast amount :: u128"
  have v: "unat (saturate_u64 (bal st ?a)) = unat (bal st ?a)" "unat (saturate_u64 (bal st ?b)) = unat (bal st ?b)"
    using assms(8,9) by (simp_all add: unat_saturate)
  have enough: "amount \<le> saturate_u64 (bal st ?a) \<longleftrightarrow> \<not> bal st ?a < ?n"
    by (simp add: word_le_nat_alt word_less_nat_alt v not_less)
  have fits: "\<not> 2 ^ 128 \<le> unat (bal st ?b) + unat ?n" using assms(9) by simp
  have sum: "ucast (saturate_u64 (bal st ?b) + amount) = bal st ?b + ?n"
    using assms(9) fits by (intro word_unat_eq_iff [THEN iffD2]) (simp add: unat_word_ariths v)
  have diff: "ucast (saturate_u64 (bal st ?a) - amount) = bal st ?a - ?n" if "\<not> bal st ?a < ?n"
    using that enough by (intro word_unat_eq_iff [THEN iffD2]) (simp add: unat_sub v not_less)
  show ?thesis
    using transfer_bundle [OF assms(1-7,10)] assms(5,9,11) enough fits
    by (auto simp: submit_transfer_cases sum diff v BundleResult_is_committed_def fun_eq_iff split: if_splits)
qed

text \<open>
  C15: balances above 64 bits are destroyed. The interpreter sees such a balance as \<open>u64::MAX\<close>, and the write of the
  transfer replaces the whole balance: the call commits, the sender keeps \<open>u64::MAX\<close> less the amount, and the total
  supply falls by all that the sender had above \<open>u64::MAX\<close>.
\<close>

theorem aptos_burns_above_u64:
  assumes "runs_coin A mv" "coin_deployed ms mv" "wf_move_addr m" "wf_move_addr n"
    and "MoveAddress_to_evm m \<noteq> MoveAddress_to_evm n" "view_reads view st m" "view_reads view st n"
    and "BundleExecutor_execute_with_move_runtime st \<lparr>steps = [StepMoveCall (transfer_call c m n amount)]\<rparr>
      (AptosMoveExecutor_execute A) ms view = (r, st', ms')"
    and "2 ^ 64 \<le> unat (bal st (MoveAddress_to_evm m))" "unat (bal st (MoveAddress_to_evm n)) + unat amount < 2 ^ 64"
    and "State_invar st"
  shows "BundleResult_is_committed r \<and> unat (bal st' (MoveAddress_to_evm m)) + unat amount = 2 ^ 64 - 1 \<and>
    State_supply st' + (unat (bal st (MoveAddress_to_evm m)) - (2 ^ 64 - 1)) = State_supply st"
proof -
  let ?a = "MoveAddress_to_evm m" and ?b = "MoveAddress_to_evm n"
  let ?v = "ucast (saturate_u64 (bal st ?a) - amount) :: u128" and ?w = "ucast (saturate_u64 (bal st ?b) + amount) :: u128"
  have sat: "unat (saturate_u64 (bal st ?a)) = 2 ^ 64 - 1" "unat (saturate_u64 (bal st ?b)) = unat (bal st ?b)"
    using assms(9,10) by (simp_all add: unat_saturate)
  have "unat amount < 2 ^ 64" using unsigned_less [of amount, where ?'a = nat] by simp
  then have le: "amount \<le> saturate_u64 (bal st ?a)" by (simp add: word_le_nat_alt sat(1))
  have st': "BundleResult_is_committed r" "State_invar st'" "bal st' = (bal st)(?a := ?v, ?b := ?w)"
    using transfer_bundle [OF assms(1-8)] le assms(10,11) by (simp_all add: sat(2))
  have v: "unat ?v + unat amount = 2 ^ 64 - 1" using le sat(1) by (simp add: unat_sub word_le_nat_alt)
  have w: "unat ?w = unat (bal st ?b) + unat amount" using assms(10) by (simp add: unat_word_ariths sat(2))
  let ?s1 = "State_apply st (SetBalance ?a (Balance ?v))"
  let ?s2 = "State_apply ?s1 (SetBalance ?b (Balance ?w))"
  have each: "bal st' x = ((bal st)(?a := ?v, ?b := ?w)) x" for x using st'(3) by (rule fun_cong)
  have "State_supply st' = State_supply ?s2" using assms(11) st'(2) by (intro supply_cong) (simp_all add: each)
  moreover have "State_supply ?s1 + unat (bal st ?a) = State_supply st + unat ?v"
    using supply_set_balance [OF assms(11), of ?a "Balance ?v"] by simp
  moreover have "State_supply ?s2 + unat (bal st ?b) = State_supply ?s1 + unat ?w"
    using supply_set_balance [of ?s1 ?b "Balance ?w"] assms(5,11) by simp
  ultimately have "State_supply st' + (unat (bal st ?a) - (2 ^ 64 - 1)) = State_supply st"
    using v w assms(9) by linarith
  then show ?thesis using st'(1) v assms(5) by (simp add: each)
qed

section \<open>A concrete interpreter\<close>

text \<open>Crates that know the coin module only, and run it as its source says.\<close>

definition coin_vm :: "(bytes, unit, unit changes, unit) aptos" where
  "coin_vm =
     \<lparr>apt_deserialize = Inr, apt_verify = (\<lambda>_. Inr ()), apt_identifier = Inr,
      apt_load = (\<lambda>fetch (address, name) f.
        if fetch address name \<noteq> None \<and> f = ascii ''transfer'' then Inr () else Inl ''FUNCTION_RESOLUTION_FAILURE''),
      apt_execute = (\<lambda>_ res _ args. case args of
          [a, b, amount] \<Rightarrow> (case coin_move_transfer (resolved res) a b (from_le_bytes amount) of
            Inl _ \<Rightarrow> Inl ''ABORTED'' | Inr g \<Rightarrow> Inr (coin_changes g a b))
        | _ \<Rightarrow> Inl ''NUMBER_OF_ARGUMENTS_MISMATCH''),
      apt_effects = (\<lambda>_ cs. Inr cs)\<rparr>"

lemma coin_vm_runs: "runs_coin coin_vm mv"
  by (auto simp: runs_coin_def coin_vm_def from_to_le_bytes split: sum.splits)

definition coin_store_modules :: InMemoryModuleStore where
  "coin_store_modules = \<lparr>modules = [(\<lparr>mod_address = CANONICAL_COIN_ADDRESS, mod_name = Identifier (ascii ''coin'')\<rparr>, \<lparr>cm_bytes = [1]\<rparr>)]\<rparr>"

lemma coin_store_deployed: "coin_deployed coin_store_modules [1]"
  by (simp add: coin_deployed_def canonical_id ModuleStore_get_def coin_store_modules_def map_get_def)

definition rich :: State where
  "rich = State_apply State_default (SetBalance (addr_of 1) (Balance (2 ^ 64 + 5)))"

definition state_view :: "State \<Rightarrow> MoveBalanceView" where
  "state_view st = \<lparr>view_coin_value = (\<lambda>m. MoveCoinValue (bal st (MoveAddress_to_evm m))),
                    view_nonce = (\<lambda>_. AccountNonce_default)\<rparr>"

lemma state_view_reads: "view_reads (state_view st) st m"
  by (simp add: view_reads_def state_view_def AccountNonce_default_def)

abbreviation move_of :: "u8 \<Rightarrow> MoveAddress" where
  "move_of i \<equiv> MoveAddress_from_evm (addr_of i)"

lemma move_of_facts: "wf_move_addr (move_of 1)" "wf_move_addr (move_of 2)"
  "MoveAddress_to_evm (move_of 1) = addr_of 1" "MoveAddress_to_evm (move_of 2) = addr_of 2" "addr_of 1 \<noteq> addr_of 2"
  by code_simp+

text \<open>The caller is neither of the two accounts.\<close>

theorem aptos_agrees_with_bridge_witness:
  "(BundleResult_is_committed (fst (BundleExecutor_execute_with_move_runtime funded
       \<lparr>steps = [StepMoveCall (transfer_call (move_of 3) (move_of 1) (move_of 2) 4)]\<rparr>
       (AptosMoveExecutor_execute coin_vm) coin_store_modules (state_view funded))) \<longleftrightarrow>
     fst (Bridge_submit funded (Transfer (addr_of 1) (addr_of 2) 4)) = Inr ()) \<and>
   bal (fst (snd (BundleExecutor_execute_with_move_runtime funded
       \<lparr>steps = [StepMoveCall (transfer_call (move_of 3) (move_of 1) (move_of 2) 4)]\<rparr>
       (AptosMoveExecutor_execute coin_vm) coin_store_modules (state_view funded)))) =
     bal (snd (Bridge_submit funded (Transfer (addr_of 1) (addr_of 2) 4)))"
proof -
  have b: "unat (bal funded (addr_of 1)) < 2 ^ 64" "unat (bal funded (addr_of 2)) + unat (4 :: u64) < 2 ^ 64"
    by (simp_all add: funded_def move_of_facts(5) [symmetric])
  obtain r st' ms' res st2 where run: "BundleExecutor_execute_with_move_runtime funded
       \<lparr>steps = [StepMoveCall (transfer_call (move_of 3) (move_of 1) (move_of 2) 4)]\<rparr>
       (AptosMoveExecutor_execute coin_vm) coin_store_modules (state_view funded) = (r, st', ms')"
     "Bridge_submit funded (Transfer (addr_of 1) (addr_of 2) 4) = (res, st2)"
    by (metis prod.collapse)
  from aptos_agrees_with_bridge [OF coin_vm_runs coin_store_deployed move_of_facts(1,2) _ state_view_reads state_view_reads _ _ run(1)]
    run b show ?thesis by (simp add: move_of_facts)
qed

theorem aptos_burns_above_u64_witness:
  "State_supply (fst (snd (BundleExecutor_execute_with_move_runtime rich
       \<lparr>steps = [StepMoveCall (transfer_call (move_of 1) (move_of 1) (move_of 2) 1)]\<rparr>
       (AptosMoveExecutor_execute coin_vm) coin_store_modules (state_view rich)))) + 6 = State_supply rich"
proof -
  have b: "unat (bal rich (addr_of 1)) = 2 ^ 64 + 5" "unat (bal rich (addr_of 2)) + unat (1 :: u64) < 2 ^ 64"
    by (simp_all add: rich_def move_of_facts(5) [symmetric])
  obtain r st' ms' where run: "BundleExecutor_execute_with_move_runtime rich
       \<lparr>steps = [StepMoveCall (transfer_call (move_of 1) (move_of 1) (move_of 2) 1)]\<rparr>
       (AptosMoveExecutor_execute coin_vm) coin_store_modules (state_view rich) = (r, st', ms')"
    by (metis prod.collapse)
  have inv: "State_invar rich" by (simp add: rich_def)
  from aptos_burns_above_u64 [OF coin_vm_runs coin_store_deployed move_of_facts(1,2) _ state_view_reads state_view_reads run _ _ inv]
    run b show ?thesis by (simp add: move_of_facts)
qed

section \<open>The mock and the module\<close>

text \<open>
  The mock takes the recipient and the amount, the module takes the sender too: a call built for the module is
  refused by the mock for its number of arguments.
\<close>

lemma mock_refuses_module_abi:
  "fst (MockMoveExecutor_execute (transfer_call c m n amount) ms s) =
     Inl (InvalidArguments ''0x1::coin::transfer expects 2 arguments, got 3'')"
proof -
  have "to_decimal (Suc (Suc (Suc 0))) = ''3''" by code_simp
  then show ?thesis by (simp add: MockMoveExecutor_execute_def transfer_call_def)
qed

end
