(* ===== verification/Float64.thy ===== *)
theory Float64
  imports Json_Rpc "HOL-Library.Log_Nat" "HOL-Library.Multiset"
begin

text \<open>
  The floating-point type \<open>f64\<close>, as far as the metrics use it: IEEE 754 binary64 with rounding to nearest, ties
  to even. A finite value is a sign and a magnitude, the magnitude a rational that the format can represent
  (\<open>wf_f64\<close>); both zeros are kept apart, and there is one NaN. An operation computes the exact rational result and
  rounds it once. The proofs rest on four facts about rounding: it is monotone, it keeps what is representable,
  it never leaves the interval between two representable numbers, and its error is at most half a unit in the
  last place.
\<close>

section \<open>Rounding a magnitude\<close>

text \<open>The exponent of a positive rational \<open>a / b\<close>: the lengths of \<open>a\<close> and \<open>b\<close> give it up to one.\<close>

definition binexp :: "rat \<Rightarrow> int" where
  "binexp q = (let (a, b) = quotient_of q; e = bitlen a - bitlen b in if 2 powi e \<le> q then e else e - 1)"

text \<open>The unit in the last place has 52 bits below the exponent, or is the least subnormal.\<close>

definition ulp :: "rat \<Rightarrow> rat" where
  "ulp q = 2 powi (max (binexp q - 52) (- 1074))"

definition round_even :: "rat \<Rightarrow> int" where
  "round_even x = (let n = \<lfloor>x\<rfloor>; d = x - of_int n in
     if d < 1 / 2 then n else if 1 / 2 < d then n + 1 else if even n then n else n + 1)"

definition round_mag :: "rat \<Rightarrow> rat" where
  "round_mag q = (if q = 0 then 0 else of_int (round_even (q / ulp q)) * ulp q)"

lemma round_even_int [simp]: "round_even (of_int n) = n"
  by (simp add: round_even_def)

lemma round_even_error: "\<bar>of_int (round_even x) - x\<bar> \<le> 1 / 2"
proof -
  have "of_int \<lfloor>x\<rfloor> \<le> x" "x < of_int \<lfloor>x\<rfloor> + 1" by linarith+
  then show ?thesis by (auto simp: round_even_def Let_def abs_le_iff algebra_simps)
qed

lemma round_even_mono:
  assumes "x \<le> y"
  shows "round_even x \<le> round_even y"
proof (cases "\<lfloor>x\<rfloor> = \<lfloor>y\<rfloor>")
  case True
  then show ?thesis using assms by (auto simp: round_even_def Let_def)
next
  case False
  then have "\<lfloor>x\<rfloor> + 1 \<le> \<lfloor>y\<rfloor>" using assms floor_mono [OF assms] by linarith
  then show ?thesis by (auto simp: round_even_def Let_def)
qed

lemma powi_split:
  assumes "u \<le> e"
  shows "(2 :: rat) powi e = of_int (2 ^ nat (e - u)) * 2 powi u"
proof -
  have "(2 :: rat) powi e = 2 powi (e - u) * 2 powi u" by (simp flip: power_int_add)
  then show ?thesis using assms by (simp add: power_int_def)
qed

lemma powi_strict_mono: "(2 :: rat) powi d < 2 powi e \<longleftrightarrow> d < e"
  by (metis linorder_not_less one_less_numeral_iff power_int_increasing power_int_strict_increasing semiring_norm(76)
      order_less_imp_le zero_less_numeral one_le_numeral)

lemma powi_mono: "(2 :: rat) powi d \<le> 2 powi e \<longleftrightarrow> d \<le> e"
  using powi_strict_mono [of e d] by linarith

lemma binexp_bounds:
  assumes "0 < q"
  shows "2 powi binexp q \<le> q" "q < 2 powi (binexp q + 1)"
proof -
  obtain a b where ab: "quotient_of q = (a, b)" by force
  have b: "0 < b" using ab by (rule quotient_of_denom_pos)
  have q: "q = of_int a / of_int b" using ab by (rule quotient_of_div)
  have a: "0 < a" using assms b by (simp add: q zero_less_divide_iff)
  let ?e = "bitlen a - bitlen b"
  have bounds: "2 powi (bitlen n - 1) \<le> (of_int n :: rat)" "(of_int n :: rat) < 2 powi bitlen n" if "0 < n" for n
  proof -
    have l: "2 ^ nat (bitlen n - 1) \<le> n" "n < 2 ^ nat (bitlen n)" using bitlen_bounds [OF that] by auto
    have p: "0 < bitlen n" using that floorlog_eq_zero_iff [of 2 "nat n"] by (simp add: bitlen_def)
    have "(of_int (2 ^ nat (bitlen n - 1)) :: rat) \<le> of_int n" using l(1) by (simp only: of_int_le_iff)
    then show "2 powi (bitlen n - 1) \<le> (of_int n :: rat)" using p by (simp add: power_int_def)
    have "(of_int n :: rat) < of_int (2 ^ nat (bitlen n))" using l(2) by (simp only: of_int_less_iff)
    then show "(of_int n :: rat) < 2 powi bitlen n" using p by (simp add: power_int_def)
  qed
  have bp: "(0 :: rat) < of_int b" using b by simp
  have "(2 :: rat) powi (?e - 1) * of_int b \<le> 2 powi (?e - 1) * 2 powi bitlen b"
    using bounds(2) [OF b] by (intro mult_left_mono) auto
  also have "\<dots> = 2 powi (bitlen a - 1)" by (simp flip: power_int_add)
  also have "\<dots> \<le> of_int a" by (rule bounds(1) [OF a])
  finally have lo: "2 powi (?e - 1) \<le> q" using bp by (simp add: q pos_le_divide_eq)
  have "of_int a < (2 :: rat) powi bitlen a" by (rule bounds(2) [OF a])
  also have "\<dots> = 2 powi (?e + 1) * 2 powi (bitlen b - 1)" by (simp flip: power_int_add)
  also have "\<dots> \<le> 2 powi (?e + 1) * of_int b" using bounds(1) [OF b] by (intro mult_left_mono) auto
  finally have hi: "q < 2 powi (?e + 1)" using bp by (simp add: q pos_divide_less_eq)
  show "2 powi binexp q \<le> q" "q < 2 powi (binexp q + 1)" using lo hi by (auto simp: binexp_def ab Let_def)
qed

lemma binexp_mono:
  assumes "0 < p" "p \<le> q"
  shows "binexp p \<le> binexp q"
proof -
  have "(2 :: rat) powi binexp p < 2 powi (binexp q + 1)"
    using binexp_bounds(1) [OF assms(1)] binexp_bounds(2) [of q] assms by linarith
  then show ?thesis by (simp add: powi_strict_mono del: power_int_add_1)
qed

lemma ulp_pos [simp]: "0 < ulp q"
  by (simp add: ulp_def)

text \<open>A multiple of the unit in the last place is kept, and bounds what is rounded with that unit.\<close>

lemma round_mag_le:
  assumes "0 \<le> q" "q \<le> of_int k * ulp q" "0 \<le> k"
  shows "round_mag q \<le> of_int k * ulp q"
proof -
  have "q / ulp q \<le> of_int k" using assms(2) by (simp add: pos_divide_le_eq)
  then have "round_even (q / ulp q) \<le> k" using round_even_mono [of "q / ulp q" "of_int k"] by simp
  then have "of_int (round_even (q / ulp q)) * ulp q \<le> of_int k * ulp q" by (intro mult_right_mono) (auto intro: less_imp_le)
  then show ?thesis using assms(3) by (auto simp: round_mag_def less_imp_le)
qed

lemma round_mag_ge:
  assumes "0 < q" "of_int k * ulp q \<le> q"
  shows "of_int k * ulp q \<le> round_mag q"
proof -
  have "of_int k \<le> q / ulp q" using assms(2) by (simp add: pos_le_divide_eq)
  then have "k \<le> round_even (q / ulp q)" using round_even_mono [of "of_int k" "q / ulp q"] by simp
  then have "of_int k * ulp q \<le> of_int (round_even (q / ulp q)) * ulp q" by (intro mult_right_mono) (auto intro: less_imp_le)
  then show ?thesis using assms(1) by (simp add: round_mag_def)
qed

theorem round_mag_mono:
  assumes "0 \<le> p" "p \<le> q"
  shows "round_mag p \<le> round_mag q"
proof (cases "p = 0")
  case True
  then show ?thesis using round_mag_ge [of q 0] assms by (cases "q = 0") (auto simp: round_mag_def)
next
  case False
  with assms have p: "0 < p" and q: "0 < q" by auto
  show ?thesis
  proof (cases "ulp p = ulp q")
    case True
    have "p / ulp p \<le> q / ulp q" using assms(2) True by (simp add: divide_right_mono less_imp_le)
    then have "round_even (p / ulp p) \<le> round_even (q / ulp q)" by (rule round_even_mono)
    then show ?thesis using p q True by (auto simp: round_mag_def intro!: mult_right_mono less_imp_le)
  next
    case False
    let ?u = "2 powi binexp q :: rat"
    have e: "binexp p < binexp q" "- 1074 < binexp q - 52"
      using False binexp_mono [OF p assms(2)] by (auto simp: ulp_def max_def order_le_less split: if_splits)
    have up: "max (binexp p - 52) (- 1074) \<le> binexp q" and uq: "max (binexp q - 52) (- 1074) \<le> binexp q" using e by auto
    note sp = powi_split [OF up, folded ulp_def] and sq = powi_split [OF uq, folded ulp_def]
    have "p < 2 powi (binexp p + 1)" by (rule binexp_bounds(2) [OF p])
    also have "\<dots> \<le> ?u" using e by (simp only: powi_mono)
    finally have "round_mag p \<le> ?u"
      using round_mag_le [of p "2 ^ nat (binexp q - max (binexp p - 52) (- 1074))"] p sp by simp
    also have "?u \<le> round_mag q"
      using round_mag_ge [OF q, of "2 ^ nat (binexp q - max (binexp q - 52) (- 1074))"] binexp_bounds(1) [OF q] sq by simp
    finally show ?thesis .
  qed
qed

lemma round_mag_nonneg [simp]: "0 \<le> q \<Longrightarrow> 0 \<le> round_mag q"
  using round_mag_mono [of 0 q] by (simp add: round_mag_def)

theorem round_mag_exact:
  assumes "0 \<le> k" "k < 2 ^ 53" "- 1074 \<le> e"
  shows "round_mag (of_int k * 2 powi e) = of_int k * 2 powi e"
proof (cases "k = 0")
  case False
  let ?q = "of_int k * 2 powi e :: rat"
  have q: "0 < ?q" using assms(1) False by simp
  have "(of_int k :: rat) < of_int (2 ^ 53)" using assms(2) by (simp only: of_int_less_iff)
  then have "?q < of_int (2 ^ 53) * 2 powi e" by (intro mult_strict_right_mono) auto
  also have "\<dots> = 2 powi (53 + e)" by (simp add: power_int_add)
  finally have "2 powi binexp ?q < (2 :: rat) powi (53 + e)" using binexp_bounds(1) [OF q] by linarith
  then have "binexp ?q < 53 + e" by (simp only: powi_strict_mono)
  then have "max (binexp ?q - 52) (- 1074) \<le> e" using assms(3) by auto
  note split = powi_split [OF this, folded ulp_def]
  define u z where "u = ulp ?q" and "z = k * 2 ^ nat (e - max (binexp ?q - 52) (- 1074))"
  have "?q = of_int z * u" using split by (simp add: u_def z_def)
  moreover have "u \<noteq> 0" unfolding u_def by (rule less_imp_neq [OF ulp_pos, symmetric])
  ultimately have "of_int (round_even (?q / u)) * u = ?q" by (metis nonzero_mult_div_cancel_right round_even_int)
  then show ?thesis using q by (simp add: round_mag_def u_def)
qed (simp add: round_mag_def)

lemma round_mag_error:
  assumes "0 \<le> q" "q < 2 powi e" "- 1021 \<le> e"
  shows "\<bar>round_mag q - q\<bar> \<le> 2 powi (e - 54)"
proof (cases "q = 0")
  case False
  with assms(1) have q: "0 < q" by simp
  have "(2 :: rat) powi binexp q < 2 powi e" using binexp_bounds(1) [OF q] assms(2) by linarith
  then have "max (binexp q - 52) (- 1074) \<le> e - 53" using assms(3) by (auto simp: powi_strict_mono)
  then have "ulp q \<le> 2 powi (e - 53)" unfolding ulp_def by (simp only: powi_mono)
  have "round_mag q - q = (of_int (round_even (q / ulp q)) - q / ulp q) * ulp q"
    using q ulp_pos [of q] by (simp add: round_mag_def left_diff_distrib less_imp_neq [symmetric])
  then have "\<bar>round_mag q - q\<bar> = \<bar>of_int (round_even (q / ulp q)) - q / ulp q\<bar> * ulp q"
    by (simp add: abs_mult less_imp_le)
  also have "\<dots> \<le> 1 / 2 * ulp q" using round_even_error by (intro mult_right_mono) (auto intro: less_imp_le)
  also have "\<dots> \<le> 1 / 2 * 2 powi (e - 53)" using \<open>ulp q \<le> _\<close> by simp
  also have "\<dots> = 2 powi (e - 54)" by (simp add: power_int_diff)
  finally show ?thesis .
qed (simp add: round_mag_def)

section \<open>The type and its operations\<close>

text \<open>\<open>True\<close> is the negative sign.\<close>

datatype f64 = F_nan | F_inf bool | F_fin bool rat

definition wf_f64 :: "f64 \<Rightarrow> bool" where
  "wf_f64 x \<longleftrightarrow> (case x of F_fin s m \<Rightarrow> 0 \<le> m \<and> m < 2 ^ 1024 \<and> round_mag m = m | _ \<Rightarrow> True)"

definition is_nan :: "f64 \<Rightarrow> bool" where
  "is_nan x \<longleftrightarrow> x = F_nan"

definition to_f64 :: "bool \<Rightarrow> rat \<Rightarrow> f64" where
  "to_f64 s q = (let m = round_mag q in if 2 ^ 1024 \<le> m then F_inf s else F_fin s m)"

definition signed :: "bool \<Rightarrow> rat \<Rightarrow> rat" where
  "signed s m = (if s then - m else m)"

text \<open>An integer \<open>as f64\<close>, and a positive decimal literal.\<close>

definition f64_of_nat :: "nat \<Rightarrow> f64" where
  "f64_of_nat n = to_f64 False (of_nat n)"

definition f64_lit :: "rat \<Rightarrow> f64" where
  "f64_lit q = to_f64 False q"

text \<open>Addition: an exact zero is positive unless both operands are negative.\<close>

fun f64_add :: "f64 \<Rightarrow> f64 \<Rightarrow> f64" where
  "f64_add F_nan _ = F_nan"
| "f64_add _ F_nan = F_nan"
| "f64_add (F_inf s) (F_inf t) = (if s = t then F_inf s else F_nan)"
| "f64_add (F_inf s) (F_fin _ _) = F_inf s"
| "f64_add (F_fin _ _) (F_inf t) = F_inf t"
| "f64_add (F_fin s a) (F_fin t b) =
     (let v = signed s a + signed t b in if v = 0 then F_fin (s \<and> t) 0 else to_f64 (v < 0) \<bar>v\<bar>)"

fun f64_mul :: "f64 \<Rightarrow> f64 \<Rightarrow> f64" where
  "f64_mul F_nan _ = F_nan"
| "f64_mul _ F_nan = F_nan"
| "f64_mul (F_inf s) (F_inf t) = F_inf (s \<noteq> t)"
| "f64_mul (F_inf s) (F_fin t b) = (if b = 0 then F_nan else F_inf (s \<noteq> t))"
| "f64_mul (F_fin s a) (F_inf t) = (if a = 0 then F_nan else F_inf (s \<noteq> t))"
| "f64_mul (F_fin s a) (F_fin t b) = to_f64 (s \<noteq> t) (a * b)"

fun f64_div :: "f64 \<Rightarrow> f64 \<Rightarrow> f64" where
  "f64_div F_nan _ = F_nan"
| "f64_div _ F_nan = F_nan"
| "f64_div (F_inf s) (F_inf t) = F_nan"
| "f64_div (F_inf s) (F_fin t b) = F_inf (s \<noteq> t)"
| "f64_div (F_fin s a) (F_inf t) = F_fin (s \<noteq> t) 0"
| "f64_div (F_fin s a) (F_fin t b) =
     (if b = 0 then if a = 0 then F_nan else F_inf (s \<noteq> t) else to_f64 (s \<noteq> t) (a / b))"

text \<open>
  \<open>iter().sum()\<close> adds from the left, beginning with zero: the positive zero in Rust 1.78, which the workspace names as its
  version. Later releases of the standard library begin with the negative zero; the two differ only for an empty list or
  one of negative zeros, where the result is then \<open>-0\<close>.
\<close>

definition f64_sum :: "f64 list \<Rightarrow> f64" where
  "f64_sum xs = foldl f64_add (F_fin False 0) xs"

text \<open>\<open>partial_cmp\<close>: finite values by their value, the infinities outside, NaN incomparable.\<close>

datatype ordering = Less | Equal | Greater

fun f64_key :: "f64 \<Rightarrow> (int \<times> rat) option" where
  "f64_key F_nan = None"
| "f64_key (F_inf s) = Some (if s then - 1 else 1, 0)"
| "f64_key (F_fin s m) = Some (0, signed s m)"

definition f64_partial_cmp :: "f64 \<Rightarrow> f64 \<Rightarrow> ordering option" where
  "f64_partial_cmp x y = (case (f64_key x, f64_key y) of
     (Some (c, a), Some (d, b)) \<Rightarrow> Some
       (if c < d \<or> c = d \<and> a < b then Less else if c = d \<and> a = b then Equal else Greater)
   | _ \<Rightarrow> None)"

definition f64_lt :: "f64 \<Rightarrow> f64 \<Rightarrow> bool" where
  "f64_lt x y \<longleftrightarrow> f64_partial_cmp x y = Some Less"

definition f64_le :: "f64 \<Rightarrow> f64 \<Rightarrow> bool" where
  "f64_le x y \<longleftrightarrow> f64_partial_cmp x y = Some Less \<or> f64_partial_cmp x y = Some Equal"

definition f64_clamp :: "f64 \<Rightarrow> f64 \<Rightarrow> f64 \<Rightarrow> f64" where
  "f64_clamp x lo hi = (let x1 = if f64_lt x lo then lo else x in if f64_lt hi x1 then hi else x1)"

text \<open>\<open>round\<close> goes to the nearest integer and away from zero on ties; \<open>as usize\<close> truncates and saturates.\<close>

fun f64_round :: "f64 \<Rightarrow> f64" where
  "f64_round (F_fin s m) = to_f64 s (of_int \<lfloor>m + 1 / 2\<rfloor>)"
| "f64_round x = x"

fun f64_as_usize :: "f64 \<Rightarrow> nat" where
  "f64_as_usize F_nan = 0"
| "f64_as_usize (F_inf s) = (if s then 0 else 2 ^ 64 - 1)"
| "f64_as_usize (F_fin s m) = (if s then 0 else min (nat \<lfloor>m\<rfloor>) (2 ^ 64 - 1))"

text \<open>
  \<open>sort_by\<close>: a stable sort; the elements are inserted from the left, each behind those it does not precede. The
  standard library fixes the result when the comparison is a total preorder, which it is without NaN.
\<close>

fun insert_by :: "('a \<Rightarrow> 'a \<Rightarrow> ordering) \<Rightarrow> 'a \<Rightarrow> 'a list \<Rightarrow> 'a list" where
  "insert_by cmp x [] = [x]"
| "insert_by cmp x (y # ys) = (if cmp x y = Less then x # y # ys else y # insert_by cmp x ys)"

definition sort_by :: "('a \<Rightarrow> 'a \<Rightarrow> ordering) \<Rightarrow> 'a list \<Rightarrow> 'a list" where
  "sort_by cmp xs = fold (insert_by cmp) xs []"

section \<open>The decimal form\<close>

text \<open>
  The format \<open>{}\<close>: the shortest decimal that rounds to the value, the closest of these, the upper one on a tie;
  positional, without an exponent. The decimals with \<open>n\<close> significant digits that can do so are the two around
  the value, and seventeen digits are always enough.
\<close>

definition decexp :: "rat \<Rightarrow> int" where
  "decexp q = (let (a, b) = quotient_of q; e = int (length (to_decimal (nat a))) - int (length (to_decimal (nat b)))
     in if 10 powi e \<le> q then e + 1 else e)"

definition decimal_candidate :: "rat \<Rightarrow> nat \<Rightarrow> (int \<times> int) option" where
  "decimal_candidate m n = (let p = decexp m - int n; lo = \<lfloor>m / 10 powi p\<rfloor>; hi = \<lceil>m / 10 powi p\<rceil>;
       good = (\<lambda>c. round_mag (of_int c * 10 powi p) = m);
       hi_closer = of_int hi - m / 10 powi p \<le> m / 10 powi p - of_int lo
     in if good hi \<and> (hi_closer \<or> \<not> good lo) then Some (hi, p) else if good lo then Some (lo, p) else None)"

fun shortest_decimal :: "rat \<Rightarrow> nat \<Rightarrow> nat \<Rightarrow> (int \<times> int) option" where
  "shortest_decimal m n 0 = None"
| "shortest_decimal m n (Suc fuel) = (case decimal_candidate m n of
     Some (c, p) \<Rightarrow> Some (if c = 10 then (1, p + 1) else (c, p))
   | None \<Rightarrow> shortest_decimal m (Suc n) fuel)"

definition positional :: "int \<times> int \<Rightarrow> string" where
  "positional = (\<lambda>(c, p). let ds = to_decimal (nat c); k = int (length ds) + p in
     if k \<le> 0 then ''0.'' @ replicate (nat (- k)) (CHR ''0'') @ ds
     else if k < int (length ds) then take (nat k) ds @ ''.'' @ drop (nat k) ds
     else ds @ replicate (nat p) (CHR ''0''))"

definition show_f64 :: "f64 \<Rightarrow> string" where
  "show_f64 x = (case x of
     F_nan \<Rightarrow> ''NaN''
   | F_inf s \<Rightarrow> (if s then ''-inf'' else ''inf'')
   | F_fin s m \<Rightarrow> (if s then ''-'' else []) @
       (if m = 0 then ''0'' else case shortest_decimal m 1 17 of Some d \<Rightarrow> positional d | None \<Rightarrow> []))"

section \<open>Facts about the operations\<close>

lemma f64_of_nat_exact: "n < 2 ^ 53 \<Longrightarrow> f64_of_nat n = F_fin False (of_nat n)"
  using round_mag_exact [of "int n" 0] by (simp add: f64_of_nat_def to_f64_def Let_def)

lemma to_f64_small:
  assumes "0 \<le> q" "q \<le> of_nat n" "n < 2 ^ 53"
  shows "to_f64 s q = F_fin s (round_mag q)" "round_mag q \<le> of_nat n"
proof -
  show le: "round_mag q \<le> of_nat n"
    using round_mag_mono [OF assms(1,2)] round_mag_exact [of "int n" 0] assms(3) by simp
  have "(of_nat n :: rat) < of_nat (2 ^ 53)" using assms(3) by (simp only: of_nat_less_iff)
  with le have "round_mag q < 2 ^ 1024" by simp
  then show "to_f64 s q = F_fin s (round_mag q)" by (simp add: to_f64_def)
qed

lemma to_f64_int:
  assumes "0 \<le> k" "k < 2 ^ 53"
  shows "to_f64 s (of_int k) = F_fin s (of_int k)"
proof -
  have "(of_int k :: rat) \<le> of_nat (nat k)" "nat k < 2 ^ 53" using assms by (auto simp: nat_less_iff)
  then show ?thesis using to_f64_small(1) [of "of_int k" "nat k" s] round_mag_exact [OF assms, of 0] assms(1) by simp
qed

lemma mset_insert_by [simp]: "mset (insert_by cmp x ys) = add_mset x (mset ys)"
  by (induction ys) auto

lemma mset_sort_by [simp]: "mset (sort_by cmp xs) = mset xs"
proof -
  have "mset (fold (insert_by cmp) xs acc) = mset xs + mset acc" for acc
    by (induction xs arbitrary: acc) auto
  then show ?thesis by (simp add: sort_by_def)
qed

lemma set_sort_by [simp]: "set (sort_by cmp xs) = set xs"
  using mset_sort_by by (rule mset_eq_setD)

lemma length_sort_by [simp]: "length (sort_by cmp xs) = length xs"
  using mset_sort_by by (rule mset_eq_length)

lemma f64_le_linear: "\<not> is_nan x \<Longrightarrow> \<not> is_nan y \<Longrightarrow> f64_partial_cmp x y \<noteq> Some Less \<Longrightarrow> f64_le y x"
  by (cases x; cases y) (auto simp: f64_le_def f64_partial_cmp_def is_nan_def split: if_splits)

lemma f64_le_trans: "f64_le x y \<Longrightarrow> f64_le y z \<Longrightarrow> f64_le x z"
  by (cases x; cases y; cases z) (auto simp: f64_le_def f64_partial_cmp_def split: if_splits)

lemma f64_le_refl: "\<not> is_nan x \<Longrightarrow> f64_le x x"
  by (cases x) (auto simp: f64_le_def f64_partial_cmp_def is_nan_def)

definition sample_cmp :: "f64 \<Rightarrow> f64 \<Rightarrow> ordering" where
  "sample_cmp a b = (case f64_partial_cmp a b of Some c \<Rightarrow> c | None \<Rightarrow> Equal)"

lemma set_insert_by [simp]: "set (insert_by cmp x ys) = insert x (set ys)"
  by (induction ys) (simp_all add: insert_commute)

lemma sorted_insert_by:
  assumes "sorted_wrt f64_le ys" "\<forall>y \<in> insert x (set ys). \<not> is_nan y"
  shows "sorted_wrt f64_le (insert_by sample_cmp x ys)"
  using assms
proof (induction ys)
  case (Cons y ys)
  show ?case
  proof (cases "sample_cmp x y = Less")
    case True
    then have "f64_le x y" by (auto simp: sample_cmp_def f64_le_def split: option.splits)
    then show ?thesis using Cons.prems True by (auto intro: f64_le_trans)
  next
    case False
    then have "f64_partial_cmp x y \<noteq> Some Less" by (auto simp: sample_cmp_def)
    then have "f64_le y x" using Cons.prems by (intro f64_le_linear) auto
    then show ?thesis using Cons False by auto
  qed
qed simp

lemma sorted_sort_by:
  assumes "\<forall>x \<in> set xs. \<not> is_nan x"
  shows "sorted_wrt f64_le (sort_by sample_cmp xs)"
proof -
  have "sorted_wrt f64_le (fold (insert_by sample_cmp) xs acc)"
    if "sorted_wrt f64_le acc" "\<forall>x \<in> set xs \<union> set acc. \<not> is_nan x" for acc
    using that by (induction xs arbitrary: acc) (auto simp: sorted_insert_by)
  then show ?thesis using assms by (simp add: sort_by_def)
qed

section \<open>Seventeen digits are enough\<close>

lemma digits_bounds:
  assumes "0 < n"
  shows "10 ^ (length (digits 10 n) - 1) \<le> n" "n < 10 ^ length (digits 10 n)" "0 < length (digits 10 n)"
proof -
  have "10 ^ (length (digits 10 n) - 1) \<le> n \<and> n < 10 ^ length (digits 10 n) \<and> 0 < length (digits 10 n)"
    using assms
  proof (induction n rule: less_induct)
    case (less n)
    show ?case
    proof (cases "n < 10")
      case True
      then show ?thesis using less.prems by (simp add: digits.simps)
    next
      case False
      then have ih: "10 ^ (length (digits 10 (n div 10)) - 1) \<le> n div 10" "n div 10 < 10 ^ length (digits 10 (n div 10))"
        "0 < length (digits 10 (n div 10))"
        using less.IH [of "n div 10"] by auto
      have len: "length (digits 10 n) = Suc (length (digits 10 (n div 10)))" using False by (subst digits.simps) simp
      have "10 ^ length (digits 10 (n div 10)) = 10 * 10 ^ (length (digits 10 (n div 10)) - 1)"
        using ih(3) by (simp flip: power_Suc)
      also have "\<dots> \<le> 10 * (n div 10)" using ih(1) by simp
      also have "\<dots> \<le> n" by simp
      finally show ?thesis using ih(2) by (simp add: len)
    qed
  qed
  then show "10 ^ (length (digits 10 n) - 1) \<le> n" "n < 10 ^ length (digits 10 n)" "0 < length (digits 10 n)" by auto
qed

lemma decexp_lower:
  assumes "0 < q"
  shows "10 powi (decexp q - 1) \<le> q"
proof -
  obtain a b where ab: "quotient_of q = (a, b)" by force
  have b: "0 < b" using ab by (rule quotient_of_denom_pos)
  have q: "q = of_int a / of_int b" using ab by (rule quotient_of_div)
  have a: "0 < a" using assms b by (simp add: q zero_less_divide_iff)
  let ?la = "length (to_decimal (nat a))" and ?lb = "length (to_decimal (nat b))"
  have bounds: "(10 :: rat) powi (int (length (to_decimal (nat n))) - 1) \<le> of_int n"
    "(of_int n :: rat) < 10 powi int (length (to_decimal (nat n)))" if "0 < n" for n
  proof -
    have l: "10 ^ (length (to_decimal (nat n)) - 1) \<le> nat n" "nat n < 10 ^ length (to_decimal (nat n))"
      "0 < length (to_decimal (nat n))"
      using digits_bounds [of "nat n"] that by (auto simp: to_decimal_def)
    have "(of_nat (10 ^ (length (to_decimal (nat n)) - 1)) :: rat) \<le> of_nat (nat n)" using l(1) by (simp only: of_nat_le_iff)
    moreover have "nat (int (length (to_decimal (nat n))) - 1) = length (to_decimal (nat n)) - 1" using l(3) by linarith
    ultimately show "(10 :: rat) powi (int (length (to_decimal (nat n))) - 1) \<le> of_int n"
      using l(3) that by (simp add: power_int_def)
    have "(of_nat (nat n) :: rat) < of_nat (10 ^ length (to_decimal (nat n)))" using l(2) by (simp only: of_nat_less_iff)
    then show "(of_int n :: rat) < 10 powi int (length (to_decimal (nat n)))" using that by simp
  qed
  have "(10 :: rat) powi (int ?la - int ?lb - 1) * of_int b \<le> 10 powi (int ?la - int ?lb - 1) * 10 powi int ?lb"
    using bounds(2) [OF b] by (intro mult_left_mono) auto
  also have "\<dots> = 10 powi (int ?la - 1)" by (simp del: power_int_of_nat flip: power_int_add)
  also have "\<dots> \<le> of_int a" by (rule bounds(1) [OF a])
  finally have "10 powi (int ?la - int ?lb - 1) \<le> q" using b by (simp add: q pos_le_divide_eq)
  then show ?thesis by (auto simp: decexp_def ab Let_def)
qed

lemma round_mag_near:
  assumes "0 < x" "m = of_int z * ulp x" "\<bar>x - m\<bar> < ulp x / 2"
  shows "round_mag x = m"
proof -
  have u: "ulp x \<noteq> 0" by (rule less_imp_neq [OF ulp_pos, symmetric])
  have "\<bar>x / ulp x - of_int z\<bar> * ulp x = \<bar>x - m\<bar>" using assms(2) u
    by (simp add: abs_mult_pos less_imp_le left_diff_distrib)
  then have "\<bar>x / ulp x - of_int z\<bar> < 1 / 2" using assms(3) ulp_pos [of x]
    by (metis mult_less_cancel_right_pos mult.commute times_divide_eq_right mult.right_neutral)
  moreover have "\<bar>of_int (round_even (x / ulp x)) - x / ulp x\<bar> \<le> 1 / 2" by (rule round_even_error)
  ultimately have "\<bar>of_int (round_even (x / ulp x)) - (of_int z :: rat)\<bar> < 1" by linarith
  then have "\<bar>of_int (round_even (x / ulp x) - z) :: rat\<bar> < of_int 1" by simp
  then have "round_even (x / ulp x) = z" unfolding of_int_abs [symmetric] of_int_less_iff by linarith
  then show ?thesis using assms(1,2) by (simp add: round_mag_def)
qed

lemma binexp_unique:
  assumes "2 powi e \<le> x" "x < 2 powi (e + 1)"
  shows "binexp x = e"
proof -
  have x: "0 < x" using assms(1) by (rule order_less_le_trans [rotated]) simp
  have "(2 :: rat) powi e < 2 powi (binexp x + 1)" "(2 :: rat) powi binexp x < 2 powi (e + 1)"
    using binexp_bounds [OF x] assms by linarith+
  then show ?thesis unfolding powi_strict_mono by linarith
qed

lemma multiple_le:
  fixes u :: rat
  assumes "0 < u" "of_int z * u < of_int w * u + u"
  shows "of_int z * u \<le> of_int w * u"
proof -
  have "(of_int z :: rat) * u < (of_int w + 1) * u" using assms(2) by (simp add: distrib_right)
  then have "(of_int z :: rat) < of_int (w + 1)" using assms(1) by simp
  then have "z \<le> w" unfolding of_int_less_iff by linarith
  then show ?thesis using assms(1) by (simp add: mult_right_mono)
qed

text \<open>A representable positive value is at least the least denormal, and its binade starts at a multiple of its unit.\<close>

lemma representable_binade:
  assumes "0 < m" "round_mag m = m"
  obtains z w :: int where "m = of_int z * ulp m" "2 powi (binexp m) = of_int w * ulp m" "- 1074 \<le> binexp m"
proof -
  obtain z where z: "m = of_int z * ulp m" using assms by (metis round_mag_def less_irrefl)
  have u: "0 < ulp m" by simp
  have "0 < z" using z assms(1) u by (metis mult_less_cancel_right2 not_one_less_zero of_int_0_less_iff zero_less_mult_iff
        less_asym)
  then have "1 \<le> (of_int z :: rat)" by simp
  then have "ulp m \<le> of_int z * ulp m" using u by simp
  then have "ulp m \<le> m" using z by simp
  have "(2 :: rat) powi (- 1074) \<le> ulp m" unfolding ulp_def powi_mono by simp
  then have "(2 :: rat) powi (- 1074) < 2 powi (binexp m + 1)"
    using \<open>ulp m \<le> m\<close> binexp_bounds(2) [OF assms(1)] by (rule order_le_less_trans [OF order_trans])
  then have e: "- 1074 \<le> binexp m" unfolding powi_strict_mono by linarith
  then have "max (binexp m - 52) (- 1074) \<le> binexp m" by simp
  from powi_split [OF this, folded ulp_def] z e show thesis by (metis that)
qed

text \<open>A value that differs from a representable one by less than half of the sixteenth digit rounds to it.\<close>

lemma round_mag_close:
  assumes m: "0 < m" "round_mag m = m" and x: "\<bar>x - m\<bar> \<le> m / (2 * 10 ^ 16)"
  shows "round_mag x = m"
proof -
  define e u where "e = binexp m" and "u = ulp m"
  have me: "2 powi e \<le> m" "m < 2 * 2 powi e" using binexp_bounds [OF m(1)] by (simp_all add: e_def power_int_add mult.commute)
  from representable_binade [OF m, folded e_def u_def] obtain z w :: int where
    z: "m = of_int z * u" and w: "2 powi e = of_int w * u" and e: "- 1074 \<le> e" .
  have u: "0 < u" by (simp add: u_def)
  have "m / (2 * 10 ^ 16) < m" using m(1) by simp
  then have x0: "0 < x" using x by linarith
  have half: "(2 :: rat) powi e / 10 ^ 16 < 2 powi (e - 52) / 2" by (simp add: power_int_diff)
  have "2 powi (e - 52) \<le> u" unfolding u_def ulp_def e_def powi_mono by simp
  then have close: "\<bar>x - m\<bar> < u / 2" using x me(2) half by (simp add: field_simps)
  show ?thesis
  proof (cases "2 powi e \<le> x")
    case True
    have "m \<le> of_int (2 * w - 1) * u"
      using multiple_le [OF u, of z "2 * w - 1"] z me(2) w by (simp add: algebra_simps)
    then have "x < of_int (2 * w - 1) * u + u" using close u by linarith
    then have "x < 2 * 2 powi e" using w by (simp add: algebra_simps)
    then have "x < 2 powi (e + 1)" by (simp add: power_int_add)
    with True have "binexp x = e" by (rule binexp_unique)
    then have "ulp x = u" by (simp add: ulp_def u_def e_def)
    then show ?thesis using round_mag_near [OF x0, of m z] z close by simp
  next
    case False
    have "m < of_int w * u + u" using w False close u by linarith
    then have "m \<le> of_int w * u" using multiple_le [OF u, of z w] z by simp
    then have m2: "m = 2 powi e" using me(1) w by simp
    have "m / (2 * 10 ^ 16) \<le> m / 2" using m(1) by simp
    then have "m / 2 \<le> x" using x by linarith
    then have "2 powi (e - 1) \<le> x" by (simp add: m2 power_int_diff)
    then have "binexp x = e - 1" using False by (intro binexp_unique) auto
    then have ux: "ulp x = 2 powi (max (e - 53) (- 1074))" by (simp add: ulp_def)
    have "max (e - 53) (- 1074) \<le> e" using e by simp
    from powi_split [OF this] obtain v :: int where v: "m = of_int v * ulp x" by (metis m2 ux)
    have "2 powi (e - 53) \<le> ulp x" unfolding ux powi_mono by simp
    moreover have "\<bar>x - m\<bar> < 2 powi (e - 53) / 2" using x by (rule order_le_less_trans) (simp add: m2 power_int_diff)
    ultimately show ?thesis by (intro round_mag_near [OF x0 v]) simp
  qed
qed

lemma decimal_candidate_17:
  assumes "0 < m" "round_mag m = m"
  shows "decimal_candidate m 17 \<noteq> None"
proof -
  define s where "s = (10 :: rat) powi (decexp m - 17)"
  have s: "0 < s" by (simp add: s_def)
  have "(10 :: rat) powi (decexp m - 1) = 10 ^ 16 * s" by (simp add: s_def power_int_diff)
  then have sm: "10 ^ 16 * s \<le> m" using decexp_lower [OF assms(1)] by simp
  have rounds: "round_mag (of_int c * s) = m" if "\<bar>of_int c - m / s\<bar> \<le> 1 / 2" for c
  proof (rule round_mag_close [OF assms])
    have "\<bar>of_int c * s - m\<bar> = \<bar>of_int c - m / s\<bar> * s" using s by (simp add: abs_mult_pos less_imp_le left_diff_distrib)
    also have "\<dots> \<le> 1 / 2 * s" using that s by (intro mult_right_mono) auto
    also have "\<dots> \<le> m / (2 * 10 ^ 16)" using sm by simp
    finally show "\<bar>of_int c * s - m\<bar> \<le> m / (2 * 10 ^ 16)" .
  qed
  have "\<bar>of_int \<lfloor>m / s\<rfloor> - m / s\<bar> \<le> 1 / 2 \<or> \<bar>of_int \<lceil>m / s\<rceil> - m / s\<bar> \<le> 1 / 2"
  proof -
    have "m / s \<le> of_int (\<lfloor>m / s\<rfloor> + 1)" by linarith
    then have "\<lceil>m / s\<rceil> \<le> \<lfloor>m / s\<rfloor> + 1" by (rule ceiling_le)
    then have "(of_int \<lceil>m / s\<rceil> :: rat) \<le> of_int (\<lfloor>m / s\<rfloor> + 1)" by (simp only: of_int_le_iff)
    moreover have "of_int \<lfloor>m / s\<rfloor> \<le> m / s" "m / s \<le> of_int \<lceil>m / s\<rceil>" by simp_all
    ultimately show ?thesis by (auto simp: abs_le_iff)
  qed
  then have "round_mag (of_int \<lfloor>m / s\<rfloor> * s) = m \<or> round_mag (of_int \<lceil>m / s\<rceil> * s) = m" using rounds by blast
  then show ?thesis by (auto simp: decimal_candidate_def Let_def s_def)
qed

lemma shortest_decimal_rounds:
  "shortest_decimal m n fuel = Some (c, p) \<Longrightarrow> round_mag (of_int c * 10 powi p) = m"
proof (induction m n fuel rule: shortest_decimal.induct)
  case (2 m n fuel)
  then show ?case
    by (auto simp: decimal_candidate_def Let_def power_int_add mult.commute split: option.splits if_splits)
qed simp

theorem shortest_decimal_exists:
  assumes "0 < m" "round_mag m = m"
  shows "\<exists>c p. shortest_decimal m 1 17 = Some (c, p) \<and> round_mag (of_int c * 10 powi p) = m"
proof -
  have "shortest_decimal m n fuel \<noteq> None" if "n \<le> 17" "17 < n + fuel" for n fuel
    using that
  proof (induction fuel arbitrary: n)
    case (Suc fuel)
    then show ?case using decimal_candidate_17 [OF assms] by (cases "n = 17") (auto split: option.splits)
  qed simp
  from this [of 1 17] obtain c p where "shortest_decimal m 1 17 = Some (c, p)" by auto
  then show ?thesis using shortest_decimal_rounds by blast
qed

end
