(* ===== verification/Metrics.thy ===== *)
theory Metrics
  imports Float64
begin

text \<open>
  The metrics of the state crate (\<open>state/src/metrics.rs\<close>): gauges, counters and histograms, each a value behind a
  mutex, the collector \<open>Metrics\<close> and its Prometheus text. A mutex is poisoned when a thread panics while it holds
  the lock; the writers then do nothing and the readers read on, so the flag is part of the state.
\<close>

record 'a Mutex =
  mx_value :: 'a
  mx_poisoned :: bool

definition Mutex_new :: "'a \<Rightarrow> 'a Mutex" where
  "Mutex_new v = \<lparr>mx_value = v, mx_poisoned = False\<rparr>"

text \<open>\<open>if let Ok(mut v) = lock() { .. }\<close>, and \<open>lock().unwrap_or_else(into_inner)\<close>.\<close>

definition Mutex_update :: "('a \<Rightarrow> 'a) \<Rightarrow> 'a Mutex \<Rightarrow> 'a Mutex" where
  "Mutex_update f m = (if mx_poisoned m then m else m\<lparr>mx_value := f (mx_value m)\<rparr>)"

definition Mutex_read :: "'a Mutex \<Rightarrow> 'a" where
  "Mutex_read m = mx_value m"

section \<open>Gauges\<close>

record Gauge =
  gauge_value :: "f64 Mutex"

definition Gauge_new :: Gauge where
  "Gauge_new = \<lparr>gauge_value = Mutex_new (F_fin False 0)\<rparr>"

definition Gauge_set :: "f64 \<Rightarrow> Gauge \<Rightarrow> Gauge" where
  "Gauge_set v g = g\<lparr>gauge_value := Mutex_update (\<lambda>_. v) (gauge_value g)\<rparr>"

definition Gauge_get :: "Gauge \<Rightarrow> f64" where
  "Gauge_get g = Mutex_read (gauge_value g)"

definition Gauge_add :: "f64 \<Rightarrow> Gauge \<Rightarrow> Gauge" where
  "Gauge_add delta g = g\<lparr>gauge_value := Mutex_update (\<lambda>v. f64_add v delta) (gauge_value g)\<rparr>"

section \<open>Histograms\<close>

record Histogram =
  hist_samples :: "f64 list Mutex"

definition Histogram_new :: Histogram where
  "Histogram_new = \<lparr>hist_samples = Mutex_new []\<rparr>"

definition Histogram_record :: "f64 \<Rightarrow> Histogram \<Rightarrow> Histogram" where
  "Histogram_record v h = h\<lparr>hist_samples := Mutex_update
     (\<lambda>samples. let pushed = samples @ [v] in if length pushed > 1000 then tl pushed else pushed) (hist_samples h)\<rparr>"

definition Histogram_mean :: "Histogram \<Rightarrow> f64" where
  "Histogram_mean h = (let samples = Mutex_read (hist_samples h) in
     if samples = [] then F_fin False 0 else f64_div (f64_sum samples) (f64_of_nat (length samples)))"

definition samples_get :: "f64 list \<Rightarrow> nat \<Rightarrow> f64" where
  "samples_get samples idx = (if idx < length samples then samples ! idx else F_fin False 0)"

definition Histogram_p99 :: "Histogram \<Rightarrow> f64" where
  "Histogram_p99 h = (let samples = Mutex_read (hist_samples h) in
     if samples = [] then F_fin False 0
     else let sorted_samples = sort_by sample_cmp samples;
              idx = f64_as_usize (f64_mul (f64_of_nat (length sorted_samples)) (f64_lit (99 / 100)))
          in samples_get sorted_samples idx)"

definition Histogram_count :: "Histogram \<Rightarrow> nat" where
  "Histogram_count h = length (Mutex_read (hist_samples h))"

definition Histogram_sum :: "Histogram \<Rightarrow> f64" where
  "Histogram_sum h = f64_sum (Mutex_read (hist_samples h))"

definition Histogram_quantile :: "f64 \<Rightarrow> Histogram \<Rightarrow> f64" where
  "Histogram_quantile q0 h = (let q = f64_clamp q0 (F_fin False 0) (F_fin False 1);
       samples = Mutex_read (hist_samples h) in
     if samples = [] then F_fin False 0
     else let sorted_samples = sort_by sample_cmp samples;
              idx = f64_as_usize (f64_round (f64_mul (f64_of_nat (length sorted_samples - 1)) q))
          in samples_get sorted_samples idx)"

section \<open>Counters and timers\<close>

record Counter =
  counter_value :: "u64 Mutex"

definition Counter_new :: Counter where
  "Counter_new = \<lparr>counter_value = Mutex_new 0\<rparr>"

definition Counter_inc :: "Counter \<Rightarrow> Counter" where
  "Counter_inc c = c\<lparr>counter_value := Mutex_update (\<lambda>v. v + 1) (counter_value c)\<rparr>"

definition Counter_add :: "u64 \<Rightarrow> Counter \<Rightarrow> Counter" where
  "Counter_add delta c = c\<lparr>counter_value := Mutex_update (\<lambda>v. v + delta) (counter_value c)\<rparr>"

definition Counter_get :: "Counter \<Rightarrow> u64" where
  "Counter_get c = Mutex_read (counter_value c)"

text \<open>
  An \<open>Instant\<close> is a reading of the monotonic clock in nanoseconds, and a call that reads the clock takes the reading
  as an argument. \<open>elapsed\<close> saturates at zero; \<open>as_secs_f64\<close> adds the whole seconds and the fraction.
\<close>

record Timer =
  timer_start :: nat

definition Timer_start :: "nat \<Rightarrow> Timer" where
  "Timer_start now = \<lparr>timer_start = now\<rparr>"

definition as_secs_f64 :: "nat \<Rightarrow> f64" where
  "as_secs_f64 nanos = f64_add (f64_of_nat (nanos div 10 ^ 9))
     (f64_div (f64_of_nat (nanos mod 10 ^ 9)) (f64_of_nat (10 ^ 9)))"

definition elapsed_ms_since :: "nat \<Rightarrow> nat \<Rightarrow> f64" where
  "elapsed_ms_since start now = f64_mul (as_secs_f64 (now - start)) (f64_of_nat 1000)"

definition Timer_elapsed_ms :: "nat \<Rightarrow> Timer \<Rightarrow> f64" where
  "Timer_elapsed_ms now t = elapsed_ms_since (timer_start t) now"

section \<open>The collector\<close>

record Metrics =
  block_height :: Gauge
  block_duration_ms :: Histogram
  anchor_latency_ms :: Histogram
  snapshot_size_bytes :: Gauge
  tree_depth :: Gauge
  parity_check_duration_ms :: Histogram
  address_count :: Gauge
  state_size_bytes :: Gauge
  blocks_committed :: Counter
  anchors_submitted :: Counter
  parity_failures :: Counter
  occ_collapse_to_sequential_total :: Counter
  occ_aborts_total :: Counter
  anchor_parity_missing_chains :: Gauge
  anchor_parity_divergent_total :: Counter

definition Metrics_new :: Metrics where
  "Metrics_new =
     \<lparr>block_height = Gauge_new, block_duration_ms = Histogram_new, anchor_latency_ms = Histogram_new,
      snapshot_size_bytes = Gauge_new, tree_depth = Gauge_new, parity_check_duration_ms = Histogram_new,
      address_count = Gauge_new, state_size_bytes = Gauge_new, blocks_committed = Counter_new,
      anchors_submitted = Counter_new, parity_failures = Counter_new,
      occ_collapse_to_sequential_total = Counter_new, occ_aborts_total = Counter_new,
      anchor_parity_missing_chains = Gauge_new, anchor_parity_divergent_total = Counter_new\<rparr>"

text \<open>A formatted line is its text and a line feed.\<close>

definition push_line :: "string \<Rightarrow> string \<Rightarrow> string" where
  "push_line l out = out @ l @ [CHR 0x0A]"

definition emit_gauge :: "string \<Rightarrow> string \<Rightarrow> f64 \<Rightarrow> string \<Rightarrow> string" where
  "emit_gauge name help v out =
     push_line (name @ '' '' @ show_f64 v)
       (push_line (''# TYPE '' @ name @ '' gauge'')
         (push_line (''# HELP '' @ name @ '' '' @ help) out))"

definition emit_counter :: "string \<Rightarrow> string \<Rightarrow> u64 \<Rightarrow> string \<Rightarrow> string" where
  "emit_counter name help v out =
     push_line (name @ '' '' @ to_decimal (unat v))
       (push_line (''# TYPE '' @ name @ '' counter'')
         (push_line (''# HELP '' @ name @ '' '' @ help) out))"

definition quantile_label :: "string \<Rightarrow> string" where
  "quantile_label q = ''{quantile='' @ [CHR 0x22] @ q @ [CHR 0x22] @ ''}''"

definition emit_summary :: "string \<Rightarrow> string \<Rightarrow> Histogram \<Rightarrow> string \<Rightarrow> string" where
  "emit_summary name help h out =
     (let out = push_line (''# HELP '' @ name @ '' '' @ help) out;
          out = push_line (''# TYPE '' @ name @ '' summary'') out;
          out = push_line (name @ quantile_label ''0.5'' @ '' '' @ show_f64 (Histogram_quantile (f64_lit (1 / 2)) h)) out;
          out = push_line (name @ quantile_label ''0.95'' @ '' '' @ show_f64 (Histogram_quantile (f64_lit (95 / 100)) h)) out;
          out = push_line (name @ quantile_label ''0.99'' @ '' '' @ show_f64 (Histogram_quantile (f64_lit (99 / 100)) h)) out;
          out = push_line (name @ ''_sum '' @ show_f64 (Histogram_sum h)) out
      in push_line (name @ ''_count '' @ to_decimal (Histogram_count h)) out)"

definition Metrics_to_prometheus_text :: "Metrics \<Rightarrow> string" where
  "Metrics_to_prometheus_text m =
     (let out = [];
          out = emit_gauge ''suwappudb_block_height'' ''Current block height'' (Gauge_get (block_height m)) out;
          out = emit_gauge ''suwappudb_snapshot_size_bytes'' ''Latest snapshot size in bytes''
                  (Gauge_get (snapshot_size_bytes m)) out;
          out = emit_gauge ''suwappudb_tree_depth'' ''State tree depth'' (Gauge_get (tree_depth m)) out;
          out = emit_gauge ''suwappudb_address_count'' ''Number of addresses in state'' (Gauge_get (address_count m)) out;
          out = emit_gauge ''suwappudb_state_size_bytes'' ''Total state size in bytes'' (Gauge_get (state_size_bytes m)) out;
          out = emit_gauge ''suwappudb_anchor_parity_missing_chains''
                  ''Chains missing an anchor at last parity check (HARDENING rec 6; KelpDAO 292M)''
                  (Gauge_get (anchor_parity_missing_chains m)) out;
          out = emit_summary ''suwappudb_block_duration_ms'' ''Block execution duration in milliseconds''
                  (block_duration_ms m) out;
          out = emit_summary ''suwappudb_anchor_latency_ms'' ''Anchor submission latency in milliseconds''
                  (anchor_latency_ms m) out;
          out = emit_summary ''suwappudb_parity_check_duration_ms'' ''Parity check duration in milliseconds''
                  (parity_check_duration_ms m) out;
          out = emit_counter ''suwappudb_blocks_committed'' ''Total blocks committed'' (Counter_get (blocks_committed m)) out;
          out = emit_counter ''suwappudb_anchors_submitted'' ''Total anchors submitted'' (Counter_get (anchors_submitted m)) out;
          out = emit_counter ''suwappudb_parity_failures'' ''Total parity check failures'' (Counter_get (parity_failures m)) out;
          out = emit_counter ''suwappudb_occ_collapse_to_sequential_total''
                  ''Hot-slot conflict-storm collapses (HARDENING rec 2.2; Aptos AIP-47)''
                  (Counter_get (occ_collapse_to_sequential_total m)) out;
          out = emit_counter ''suwappudb_occ_aborts_total''
                  ''OCC re-executions; abort_rate = total / blocks_committed (Block-STM PPoPP)''
                  (Counter_get (occ_aborts_total m)) out
      in emit_counter ''suwappudb_anchor_parity_divergent_total''
           ''Cumulative divergent (chain, state_root) pairs across parity checks''
           (Counter_get (anchor_parity_divergent_total m)) out)"

section \<open>The sample window\<close>

definition window :: "f64 list \<Rightarrow> f64 list" where
  "window vs = drop (length vs - 1000) vs"

lemma length_window: "length (window vs) = min (length vs) 1000"
  by (simp add: window_def)

lemma window_eq_Nil [simp]: "window vs = [] \<longleftrightarrow> vs = []"
  using length_window [of vs] by (cases vs) (auto simp: min_def split: if_splits)

lemma set_window: "set (window vs) \<subseteq> set vs"
  by (simp add: window_def set_drop_subset)

lemma record_all:
  "hist_samples (fold Histogram_record vs Histogram_new) = \<lparr>mx_value = window vs, mx_poisoned = False\<rparr>"
proof (induction vs rule: rev_induct)
  case (snoc v vs)
  have "(let pushed = window vs @ [v] in if length pushed > 1000 then tl pushed else pushed) = window (vs @ [v])"
  proof (cases "length vs < 1000")
    case False
    then have "Suc (length vs - 1000) = length vs - 999" by linarith
    then show ?thesis using False by (simp add: Let_def window_def tl_drop tl_append2 drop_Suc flip: drop_Suc)
  qed (simp add: window_def)
  with snoc show ?case by (simp add: Histogram_record_def Mutex_update_def)
qed (simp add: Histogram_new_def Mutex_new_def window_def)

lemma read_all: "Mutex_read (hist_samples (fold Histogram_record vs Histogram_new)) = window vs"
  by (simp add: record_all Mutex_read_def)

section \<open>Quantiles\<close>

lemma clamp_unit:
  assumes "wf_f64 q" "\<not> is_nan q"
  shows "\<exists>s v. f64_clamp q (F_fin False 0) (F_fin False 1) = F_fin s v \<and> 0 \<le> v \<and> v \<le> 1 \<and> (s \<longrightarrow> v = 0)"
  using assms
  by (cases q) (auto simp: f64_clamp_def f64_lt_def f64_partial_cmp_def signed_def is_nan_def wf_f64_def Let_def)

lemma clamp_mono:
  assumes "wf_f64 q1" "wf_f64 q2" "f64_le q1 q2"
    and "f64_clamp q1 (F_fin False 0) (F_fin False 1) = F_fin s1 v1" "s1 \<longrightarrow> v1 = 0"
    and "f64_clamp q2 (F_fin False 0) (F_fin False 1) = F_fin s2 v2" "s2 \<longrightarrow> v2 = 0"
  shows "v1 \<le> v2"
proof -
  have pos: "0 \<le> m" if "wf_f64 (F_fin s m)" for s m using that by (simp add: wf_f64_def)
  note clamp = f64_clamp_def f64_lt_def f64_le_def f64_partial_cmp_def signed_def Let_def
  show ?thesis
  proof (cases q1)
    case (F_fin s m)
    then show ?thesis using assms pos [of s m] by (cases q2) (auto simp: clamp dest!: pos split: if_splits)
  qed (use assms in \<open>cases q2; auto simp: clamp dest!: pos split: if_splits\<close>)+
qed

text \<open>The rank that is read, for a quantile already clamped and at most 1000 samples.\<close>

definition rank :: "nat \<Rightarrow> rat \<Rightarrow> nat" where
  "rank n v = nat \<lfloor>round_mag (of_nat n * v) + 1 / 2\<rfloor>"

lemma rank_index:
  assumes "0 \<le> v" "v \<le> 1" "n \<le> 1000" "s \<longrightarrow> v = 0"
  shows "f64_as_usize (f64_round (f64_mul (f64_of_nat n) (F_fin s v))) = rank n v" "rank n v \<le> n"
proof -
  let ?r = "\<lfloor>round_mag (of_nat n * v) + 1 / 2\<rfloor>"
  have le: "of_nat n * v \<le> of_nat n" "0 \<le> of_nat n * v" using assms(1,2) mult_left_mono [of v 1 "of_nat n"] by auto
  have n53: "n < 2 ^ 53" using assms(3) by simp
  note small = to_f64_small [OF le(2,1) n53]
  have "round_mag (of_nat n * v) + 1 / 2 < of_int (int n + 1)" using small(2) by simp
  then have "?r < int n + 1" unfolding floor_less_iff .
  then have rn: "?r \<le> int n" by simp
  then show "rank n v \<le> n" by (simp add: rank_def)
  have r0: "0 \<le> ?r" using le(2) by (simp add: add_nonneg_nonneg)
  have "?r \<le> 1000" using rn assms(3) by linarith
  then have "?r < 2 ^ 53" by (rule order_le_less_trans) simp
  note exact = to_f64_int [OF r0 this, of s]
  show "f64_as_usize (f64_round (f64_mul (f64_of_nat n) (F_fin s v))) = rank n v"
  proof (cases s)
    case True
    then show ?thesis using assms(4) exact small(1) by (simp add: f64_of_nat_exact [OF n53] rank_def round_mag_def)
  next
    case False
    then show ?thesis using rn assms(3) exact small(1) by (simp add: f64_of_nat_exact [OF n53] rank_def)
  qed
qed

lemma rank_error:
  assumes "0 \<le> v" "v \<le> 1" "n \<le> 1000"
  shows "\<bar>of_nat (rank n v) - of_nat n * v\<bar> \<le> 1 / 2 + 1 / 2 ^ 44"
proof -
  let ?x = "round_mag (of_nat n * v)"
  have le: "of_nat n * v \<le> of_nat n" "0 \<le> of_nat n * v" using assms(1,2) mult_left_mono [of v 1 "of_nat n"] by auto
  have "(of_nat n :: rat) \<le> of_nat 1000" using assms(3) by (simp only: of_nat_le_iff)
  then have "of_nat n * v < 2 powi 10" using le(1) by simp
  then have err: "\<bar>?x - of_nat n * v\<bar> \<le> 1 / 2 ^ 44" using round_mag_error [OF le(2), of 10] by (simp add: power_int_def power_one_over)
  have "0 \<le> \<lfloor>?x + 1 / 2\<rfloor>" using le(2) by (simp add: add_nonneg_nonneg)
  then have "(of_nat (rank n v) :: rat) = of_int \<lfloor>?x + 1 / 2\<rfloor>" by (simp add: rank_def)
  moreover have "\<bar>of_int \<lfloor>?x + 1 / 2\<rfloor> - ?x\<bar> \<le> 1 / 2" by linarith
  ultimately show ?thesis using err by linarith
qed

lemma rank_mono: "0 \<le> v \<Longrightarrow> v \<le> w \<Longrightarrow> rank n v \<le> rank n w"
  unfolding rank_def by (intro nat_mono floor_mono add_right_mono round_mag_mono) (auto intro: mult_left_mono)

lemma quantile_read:
  assumes "vs \<noteq> []" "wf_f64 q" "\<not> is_nan q"
  obtains s v where "f64_clamp q (F_fin False 0) (F_fin False 1) = F_fin s v" "0 \<le> v" "v \<le> 1" "s \<longrightarrow> v = 0"
    "rank (length (window vs) - 1) v < length (window vs)"
    "Histogram_quantile q (fold Histogram_record vs Histogram_new) =
       sort_by sample_cmp (window vs) ! rank (length (window vs) - 1) v"
proof -
  obtain s v where c: "f64_clamp q (F_fin False 0) (F_fin False 1) = F_fin s v" "0 \<le> v" "v \<le> 1" "s \<longrightarrow> v = 0"
    using clamp_unit [OF assms(2,3)] by auto
  let ?n = "length (window vs) - 1"
  have n: "?n \<le> 1000" by (simp add: length_window)
  have "0 < length (window vs)" using assms(1) by simp
  then have lt: "rank ?n v < length (window vs)" using rank_index(2) [OF c(2,3) n, of s] c(4) by linarith
  show ?thesis
  proof (rule that [OF c lt])
    show "Histogram_quantile q (fold Histogram_record vs Histogram_new) = sort_by sample_cmp (window vs) ! rank ?n v"
      using assms(1) lt rank_index(1) [OF c(2,3) n, of s] c(4)
      by (simp add: Histogram_quantile_def read_all c(1) samples_get_def Let_def)
  qed
qed

text \<open>
  C34: a quantile is a nearest-rank order statistic of the last thousand samples. For any sequence of
  recorded samples and any quantile, none of them NaN, the value returned stands, in the samples of
  the window in ascending order, at an index in range that differs from \<open>(n - 1) * q\<close> by at most one
  half and the rounding of one multiplication, where \<open>q\<close> is the quantile clamped to the unit interval;
  and the count is the number of samples recorded, but never above one thousand.
\<close>

theorem quantile_nearest_rank:
  assumes "vs \<noteq> []" "\<forall>x \<in> set vs. \<not> is_nan x" "wf_f64 q" "\<not> is_nan q"
  shows "\<exists>ys i s v. mset ys = mset (drop (length vs - 1000) vs) \<and> sorted_wrt f64_le ys \<and> i < length ys \<and>
    Histogram_quantile q (fold Histogram_record vs Histogram_new) = ys ! i \<and>
    f64_clamp q (F_fin False 0) (F_fin False 1) = F_fin s v \<and>
    \<bar>of_nat i - of_nat (length ys - 1) * v\<bar> \<le> 1 / 2 + 1 / 2 ^ 44 \<and>
    Histogram_count (fold Histogram_record vs Histogram_new) = min (length vs) 1000"
proof -
  let ?ys = "sort_by sample_cmp (window vs)" and ?n = "length (window vs) - 1"
  obtain s v where q: "f64_clamp q (F_fin False 0) (F_fin False 1) = F_fin s v" "0 \<le> v" "v \<le> 1"
    "rank ?n v < length (window vs)" "Histogram_quantile q (fold Histogram_record vs Histogram_new) = ?ys ! rank ?n v"
    using quantile_read [OF assms(1,3,4)] by blast
  have "sorted_wrt f64_le ?ys" using assms(2) set_window [of vs] by (intro sorted_sort_by) blast
  moreover have "\<bar>of_nat (rank ?n v) - of_nat ?n * v\<bar> \<le> 1 / 2 + 1 / 2 ^ 44"
    using q(2,3) by (rule rank_error) (simp add: length_window)
  moreover have "Histogram_count (fold Histogram_record vs Histogram_new) = min (length vs) 1000"
    by (simp add: Histogram_count_def read_all length_window)
  ultimately show ?thesis unfolding window_def [symmetric] using q
    by (intro exI [of _ ?ys] exI [of _ "rank ?n v"] exI [of _ s] exI [of _ v]) simp
qed

theorem quantile_nearest_rank_witness:
  "\<exists>ys i s v. mset ys = mset [F_fin False 3, F_fin False 1, F_fin False 2] \<and> sorted_wrt f64_le ys \<and> i < length ys \<and>
    Histogram_quantile (F_fin False (1 / 2)) (fold Histogram_record [F_fin False 3, F_fin False 1, F_fin False 2] Histogram_new)
      = ys ! i \<and>
    f64_clamp (F_fin False (1 / 2)) (F_fin False 0) (F_fin False 1) = F_fin s v \<and>
    \<bar>of_nat i - of_nat (length ys - 1) * v\<bar> \<le> 1 / 2 + 1 / 2 ^ 44"
proof -
  have "round_mag (1 / 2) = 1 / 2" using round_mag_exact [of 1 "- 1"] by (simp add: power_int_minus)
  then have "wf_f64 (F_fin False (1 / 2))" by (simp add: wf_f64_def)
  from quantile_nearest_rank [OF _ _ this, of "[F_fin False 3, F_fin False 1, F_fin False 2]"]
  show ?thesis by (auto simp: is_nan_def)
qed

text \<open>Higher quantiles are higher values.\<close>

lemma quantile_mono:
  assumes "\<forall>x \<in> set vs. \<not> is_nan x" "wf_f64 q1" "wf_f64 q2" "f64_le q1 q2"
  shows "f64_le (Histogram_quantile q1 (fold Histogram_record vs Histogram_new))
    (Histogram_quantile q2 (fold Histogram_record vs Histogram_new))"
proof (cases "vs = []")
  case True
  then show ?thesis
    by (simp add: Histogram_quantile_def Histogram_new_def Mutex_new_def Mutex_read_def f64_le_refl is_nan_def Let_def)
next
  case False
  let ?ys = "sort_by sample_cmp (window vs)" and ?n = "length (window vs) - 1"
  have nan: "\<not> is_nan q1" "\<not> is_nan q2" using assms(4) by (auto simp: is_nan_def f64_le_def f64_partial_cmp_def split: option.splits)
  obtain s1 v1 where r1: "f64_clamp q1 (F_fin False 0) (F_fin False 1) = F_fin s1 v1" "0 \<le> v1" "s1 \<longrightarrow> v1 = 0"
    "Histogram_quantile q1 (fold Histogram_record vs Histogram_new) = ?ys ! rank ?n v1"
    using quantile_read [OF False assms(2) nan(1)] by blast
  obtain s2 v2 where r2: "f64_clamp q2 (F_fin False 0) (F_fin False 1) = F_fin s2 v2" "s2 \<longrightarrow> v2 = 0"
    "rank ?n v2 < length (window vs)" "Histogram_quantile q2 (fold Histogram_record vs Histogram_new) = ?ys ! rank ?n v2"
    using quantile_read [OF False assms(3) nan(2)] by blast
  have "v1 \<le> v2" using assms(2-4) r1(1,3) r2(1,2) by (rule clamp_mono)
  then have le: "rank ?n v1 \<le> rank ?n v2" using r1(2) by (intro rank_mono)
  have nn: "\<forall>x \<in> set (window vs). \<not> is_nan x" using assms(1) set_window by blast
  have srt: "sorted_wrt f64_le ?ys" using nn by (rule sorted_sort_by)
  show ?thesis
  proof (cases "rank ?n v1 = rank ?n v2")
    case True
    moreover have "?ys ! rank ?n v2 \<in> set (window vs)" using r2(3) by (metis length_sort_by nth_mem set_sort_by)
    ultimately show ?thesis using nn by (simp add: r1(4) r2(4) f64_le_refl)
  next
    case False
    then show ?thesis using le srt r2(3) by (simp add: r1(4) r2(4) sorted_wrt_nth_less)
  qed
qed

text \<open>The fixed percentile is read in range too: the fallback value is never used.\<close>

lemma p99_is_sample:
  assumes "vs \<noteq> []"
  shows "Histogram_p99 (fold Histogram_record vs Histogram_new) \<in> set (window vs)"
proof -
  let ?n = "length (window vs)" and ?c = "round_mag (99 / 100)"
  have n: "0 < ?n" "?n \<le> 1000" using assms by (simp_all add: length_window)
  have n1: "(of_nat 1 :: rat) \<le> of_nat ?n" unfolding of_nat_le_iff using n(1) by linarith
  have "round_mag (255 / 256) = 255 / 256" using round_mag_exact [of 255 "- 8"] by (simp add: power_int_minus)
  then have c: "0 \<le> ?c" "?c \<le> 255 / 256" using round_mag_mono [of "99 / 100" "255 / 256"] by simp_all
  have "f64_lit (99 / 100) = F_fin False ?c" using to_f64_small(1) [of "99 / 100" 1] by (simp add: f64_lit_def)
  moreover have le: "of_nat ?n * ?c \<le> of_int (256 * int ?n - 1) * 2 powi (- 8)"
  proof -
    have "of_nat ?n * ?c \<le> of_nat ?n * (255 / 256)" using c(2) by (intro mult_left_mono) auto
    also have "\<dots> \<le> of_nat ?n - 1 / 256" using n1 by simp
    finally show ?thesis by (simp add: power_int_minus field_simps)
  qed
  have r: "round_mag (of_nat ?n * ?c) \<le> of_int (256 * int ?n - 1) * 2 powi (- 8)"
    using round_mag_mono [OF _ le] c(1) round_mag_exact [of "256 * int ?n - 1" "- 8"] n by simp
  then have lt: "round_mag (of_nat ?n * ?c) < of_nat ?n" by (simp add: power_int_minus field_simps)
  have small: "to_f64 False (of_nat ?n * ?c) = F_fin False (round_mag (of_nat ?n * ?c))"
    using c n by (intro to_f64_small(1) [of _ ?n]) (auto intro: mult_left_le)
  have "nat \<lfloor>round_mag (of_nat ?n * ?c)\<rfloor> < ?n" using lt n(1) by (simp add: floor_less_iff nat_less_iff)
  ultimately have "Histogram_p99 (fold Histogram_record vs Histogram_new) =
      sort_by sample_cmp (window vs) ! nat \<lfloor>round_mag (of_nat ?n * ?c)\<rfloor>"
    using n assms by (simp add: Histogram_p99_def read_all f64_of_nat_exact small samples_get_def Let_def)
  then show ?thesis using \<open>nat _ < ?n\<close> by (metis length_sort_by nth_mem set_sort_by)
qed

end
