(* ===== verification/Float64_Text.thy ===== *)
theory Float64_Text
  imports Float64
begin

text \<open>
  Reading the decimal form of numbers back. \<open>parse_f64\<close> is what a reader of the text makes of a numeral: the exact
  rational that the positional notation denotes, rounded once to the nearest binary64 value. Reading inverts
  printing: \<open>show_f64\<close> loses no bit of any value, and the decimal form of an integer reads as that integer,
  rounded.
\<close>

section \<open>A reader of decimal numerals\<close>

definition is_digit :: "char \<Rightarrow> bool" where
  "is_digit c \<longleftrightarrow> 48 \<le> (of_char c :: nat) \<and> (of_char c :: nat) \<le> 57"

definition number_of :: "string \<Rightarrow> nat" where
  "number_of ds = foldl (\<lambda>n c. 10 * n + (of_char c - 48)) 0 ds"

text \<open>Digits, and optionally a point followed by digits.\<close>

definition parse_magnitude :: "string \<Rightarrow> rat option" where
  "parse_magnitude t = (let whole = takeWhile is_digit t in
     if whole = [] then None
     else case dropWhile is_digit t of
       [] \<Rightarrow> Some (of_nat (number_of whole))
     | c # fraction \<Rightarrow>
         if c = CHR ''.'' \<and> fraction \<noteq> [] \<and> list_all is_digit fraction
         then Some (of_nat (number_of (whole @ fraction)) / 10 ^ length fraction) else None)"

definition parse_f64 :: "string \<Rightarrow> f64 option" where
  "parse_f64 t = (if t = ''NaN'' then Some F_nan
     else let neg = (t \<noteq> [] \<and> hd t = CHR ''-''); u = (if neg then tl t else t) in
       if u = ''inf'' then Some (F_inf neg) else map_option (to_f64 neg) (parse_magnitude u))"

section \<open>Digits\<close>

lemma decimal_digit_value: "d < 10 \<Longrightarrow> of_char (digit_char d) = 48 + d"
  by (simp add: digit_char_code)

lemma digit_char_digit [simp]: "d < 10 \<Longrightarrow> is_digit (digit_char d)"
  by (simp add: is_digit_def decimal_digit_value)

lemma zero_digit [simp]: "is_digit (CHR ''0'')"
  by (simp add: is_digit_def)

lemma number_of_Nil [simp]: "number_of [] = 0"
  by (simp add: number_of_def)

lemma number_of_snoc [simp]: "number_of (ds @ [c]) = 10 * number_of ds + (of_char c - 48)"
  by (simp add: number_of_def)

lemma number_of_zeros [simp]: "number_of (replicate k (CHR ''0'')) = 0"
  by (induction k) (simp_all flip: replicate_append_same)

lemma number_of_append: "number_of (ds @ es) = number_of ds * 10 ^ length es + number_of es"
  by (induction es rule: rev_induct) (simp_all flip: append_assoc)

lemma to_decimal_digits: "list_all is_digit (to_decimal n)" "number_of (to_decimal n) = n" "to_decimal n \<noteq> []"
proof -
  have "list_all is_digit (digits 10 n) \<and> number_of (digits 10 n) = n \<and> digits 10 n \<noteq> []"
  proof (induction n rule: less_induct)
    case (less n)
    show ?case
    proof (cases "n < 10")
      case True
      then show ?thesis using number_of_snoc [of "[]" "digit_char n"] by (subst (1 2 3) digits.simps) (simp add: decimal_digit_value)
    next
      case False
      then show ?thesis using less.IH [of "n div 10"] by (subst (1 2 3) digits.simps) (simp add: decimal_digit_value)
    qed
  qed
  then show "list_all is_digit (to_decimal n)" "number_of (to_decimal n) = n" "to_decimal n \<noteq> []"
    by (simp_all add: to_decimal_def)
qed

section \<open>Positional notation\<close>

lemma parse_whole:
  assumes "list_all is_digit ds" "ds \<noteq> []"
  shows "parse_magnitude ds = Some (of_nat (number_of ds))"
proof -
  have "takeWhile is_digit ds = ds" "dropWhile is_digit ds = []" using assms(1) by (simp_all add: list_all_iff)
  then show ?thesis using assms(2) by (simp add: parse_magnitude_def Let_def del: takeWhile_eq_all_conv dropWhile_eq_Nil_conv)
qed

lemma parse_point:
  assumes "list_all is_digit ds" "ds \<noteq> []" "list_all is_digit es" "es \<noteq> []"
  shows "parse_magnitude (ds @ CHR ''.'' # es) = Some (of_nat (number_of (ds @ es)) / 10 ^ length es)"
proof -
  have "\<not> is_digit (CHR ''.'')" by (simp add: is_digit_def)
  moreover have "\<And>x. x \<in> set ds \<Longrightarrow> is_digit x" using assms(1) by (simp add: list_all_iff)
  ultimately have "takeWhile is_digit (ds @ CHR ''.'' # es) = ds" "dropWhile is_digit (ds @ CHR ''.'' # es) = CHR ''.'' # es"
    by (simp_all add: takeWhile_append2 dropWhile_append2)
  then show ?thesis using assms by (simp add: parse_magnitude_def)
qed

lemma powi_neg_div: "p \<le> 0 \<Longrightarrow> (10 :: rat) powi p = 1 / 10 ^ nat (- p)"
  by (cases "p = 0") (simp_all add: power_int_def power_inverse field_simps)

text \<open>The printed digits denote the decimal exactly.\<close>

lemma parse_positional:
  assumes "0 \<le> c"
  shows "parse_magnitude (positional (c, p)) = Some (of_int c * 10 powi p)"
proof -
  let ?ds = "to_decimal (nat c)" and ?zeros = "\<lambda>k. replicate k (CHR ''0'')"
  let ?k = "int (length ?ds) + p"
  note ds = to_decimal_digits [of "nat c"]
  have c: "(of_nat (nat c) :: rat) = of_int c" using assms by simp
  consider "?k \<le> 0" | "0 < ?k" "p < 0" | "0 \<le> p" by linarith
  then show ?thesis
  proof cases
    case 1
    let ?f = "?zeros (nat (- ?k)) @ ?ds"
    have len: "length ?f = nat (- p)" "p \<le> 0" using 1 by auto
    have "''0'' @ ?f = ?zeros (Suc (nat (- ?k))) @ ?ds" by simp
    then have "number_of (''0'' @ ?f) = nat c" using ds(2) by (simp only: number_of_append number_of_zeros)
    moreover have "list_all is_digit ?f" "?f \<noteq> []" using ds by (auto simp: list_all_iff)
    ultimately have "parse_magnitude (''0'' @ CHR ''.'' # ?f) = Some (of_int c / 10 ^ nat (- p))"
      using parse_point [of "''0''" ?f] len(1) c by simp
    then show ?thesis using 1 len(2) by (simp add: positional_def Let_def powi_neg_div)
  next
    case 2
    have f: "length (drop (nat ?k) ?ds) = nat (- p)" "drop (nat ?k) ?ds \<noteq> []" "take (nat ?k) ?ds \<noteq> []"
      using 2 ds(3) by auto
    have "list_all is_digit (take (nat ?k) ?ds)" "list_all is_digit (drop (nat ?k) ?ds)"
      using ds(1) by (auto simp: list_all_iff dest: in_set_takeD in_set_dropD)
    from parse_point [OF this(1) f(3) this(2) f(2)] show ?thesis
      using 2 ds(2) f(1) c by (simp add: positional_def Let_def powi_neg_div)
  next
    case 3
    then have "parse_magnitude (?ds @ ?zeros (nat p)) = Some (of_nat (number_of (?ds @ ?zeros (nat p))))"
      using ds by (intro parse_whole) (auto simp: list_all_iff)
    moreover have "0 < ?k" using 3 ds(3) length_greater_0_conv [of ?ds] by linarith
    ultimately show ?thesis using 3 ds(2) c by (simp add: positional_def Let_def number_of_append power_int_def)
  qed
qed

lemma shortest_decimal_nonneg: "shortest_decimal m n fuel = Some (c, p) \<Longrightarrow> 0 \<le> m \<Longrightarrow> 0 \<le> c"
proof (induction m n fuel rule: shortest_decimal.induct)
  case (2 m n fuel)
  have pos: "0 \<le> \<lfloor>m / 10 powi q\<rfloor>" for q :: int using 2(3) by simp
  then have "0 \<le> \<lceil>m / 10 powi q\<rceil>" for q :: int using floor_le_ceiling [of "m / 10 powi q"] by (rule order_trans)
  with pos have "0 \<le> c" if "decimal_candidate m n = Some (c, p)" for c p
    using that unfolding decimal_candidate_def Let_def by (auto split: if_splits simp del: zero_le_floor zero_le_ceiling)
  then show ?case using 2 by (auto split: option.splits if_splits)
qed simp

section \<open>Reading inverts printing\<close>

lemma parse_signed:
  assumes "parse_magnitude t = Some q"
  shows "parse_f64 ((if s then ''-'' else []) @ t) = Some (to_f64 s q)"
proof -
  have "t \<noteq> []" "is_digit (hd t)" using assms by (cases t; auto simp: parse_magnitude_def Let_def split: if_splits)+
  then have "t \<noteq> ''NaN''" "t \<noteq> ''inf''" "hd t \<noteq> CHR ''-''" by (auto simp: is_digit_def)
  then show ?thesis using assms \<open>t \<noteq> []\<close> by (cases s) (simp_all add: parse_f64_def Let_def)
qed

theorem parse_show_f64:
  assumes "wf_f64 x"
  shows "parse_f64 (show_f64 x) = Some x"
proof (cases x)
  case (F_fin s m)
  then have m: "0 \<le> m" "m < 2 ^ 1024" "round_mag m = m" using assms by (simp_all add: wf_f64_def)
  then have exact: "to_f64 s q = F_fin s m" if "round_mag q = m" for q using that by (simp add: to_f64_def)
  show ?thesis
  proof (cases "m = 0")
    case True
    have "parse_magnitude ''0'' = Some 0" using parse_whole [of "''0''"] number_of_zeros [of 1] by simp
    from parse_signed [OF this, of s] exact [of 0] show ?thesis by (simp add: F_fin True show_f64_def round_mag_def)
  next
    case False
    with m obtain c p where d: "shortest_decimal m 1 17 = Some (c, p)" "round_mag (of_int c * 10 powi p) = m"
      using shortest_decimal_exists [of m] by auto
    from parse_signed [OF parse_positional [OF shortest_decimal_nonneg [OF d(1) m(1)]], of s p] exact [OF d(2)] False d(1)
    show ?thesis by (simp add: F_fin show_f64_def)
  qed
qed (simp_all add: show_f64_def parse_f64_def)

lemma parse_to_decimal: "parse_f64 (to_decimal n) = Some (f64_of_nat n)"
  using parse_signed [OF parse_whole [OF to_decimal_digits(1,3)], of False n] by (simp add: to_decimal_digits(2) f64_of_nat_def)

section \<open>Results of operations are representable\<close>

text \<open>Rounding is idempotent: what it returns is at most \<open>2 ^ 53\<close> units in the last place.\<close>

lemma round_mag_idem:
  assumes "0 \<le> q"
  shows "round_mag (round_mag q) = round_mag q"
proof (cases "q = 0")
  case False
  with assms have q: "0 < q" by simp
  define e k where "e = max (binexp q - 52) (- 1074)" and "k = round_even (q / ulp q)"
  have u: "ulp q = 2 powi e" by (simp add: ulp_def e_def)
  have "q < 2 powi (binexp q + 1)" by (rule binexp_bounds(2) [OF q])
  also have "(2 :: rat) powi (binexp q + 1) \<le> 2 powi (53 + e)" unfolding powi_mono by (simp add: e_def)
  also have "\<dots> = of_int (2 ^ 53) * ulp q" by (simp add: u power_int_add)
  finally have "q / ulp q \<le> of_int (2 ^ 53)" by (simp add: pos_divide_le_eq)
  then have k: "k \<le> 2 ^ 53" unfolding k_def using round_even_mono [of "q / ulp q" "of_int (2 ^ 53)"] by (simp only: round_even_int)
  have "0 \<le> q / ulp q" using q by (simp add: less_imp_le)
  then have k0: "0 \<le> k" unfolding k_def using round_even_mono [of "of_int 0" "q / ulp q"] round_even_int [of 0] by simp
  have r: "round_mag q = of_int k * 2 powi e" using q by (simp add: round_mag_def k_def u)
  have e: "- 1074 \<le> e" by (simp add: e_def)
  show ?thesis
  proof (cases "k = 2 ^ 53")
    case True
    then have "round_mag q = of_int (2 ^ 52) * 2 powi (e + 1)" by (simp add: r power_int_add)
    then show ?thesis using round_mag_exact [of "2 ^ 52" "e + 1"] e by simp
  next
    case False
    then show ?thesis using round_mag_exact [OF k0 _ e] k by (simp add: r)
  qed
qed (simp add: round_mag_def)

lemma wf_to_f64 [simp]: "0 \<le> q \<Longrightarrow> wf_f64 (to_f64 s q)"
  by (simp add: to_f64_def wf_f64_def round_mag_idem Let_def)

lemma wf_zero [simp]: "wf_f64 (F_fin s 0)"
  by (simp add: wf_f64_def round_mag_def)

lemma wf_f64_add: "wf_f64 x \<Longrightarrow> wf_f64 y \<Longrightarrow> wf_f64 (f64_add x y)"
  by (cases "(x, y)" rule: f64_add.cases) (auto simp: Let_def wf_f64_def [of F_nan] wf_f64_def [of "F_inf _"])

lemma wf_f64_sum: "list_all wf_f64 xs \<Longrightarrow> wf_f64 (f64_sum xs)"
proof -
  have "list_all wf_f64 xs \<Longrightarrow> wf_f64 a \<Longrightarrow> wf_f64 (foldl f64_add a xs)" for a
    by (induction xs arbitrary: a) (simp_all add: wf_f64_add)
  then show "list_all wf_f64 xs \<Longrightarrow> wf_f64 (f64_sum xs)" by (simp add: f64_sum_def)
qed

end
