(* ===== verification/Metrics_Text.thy ===== *)
theory Metrics_Text
  imports Metrics Float64_Text
begin

text \<open>
  The Prometheus text read back. A scraper splits the text at the line feeds, skips the comments, splits each
  sample at its first space and reads the numeral behind it as a binary64 number. What it finds is the list of
  all metrics, in order, with the values the collector holds; and the text determines these values.
\<close>

section \<open>A scraper\<close>

abbreviation LF :: char where
  "LF \<equiv> CHR 0x0A"

fun split_lines :: "string \<Rightarrow> string list" where
  "split_lines [] = []"
| "split_lines (c # cs) = (if c = LF then [] # split_lines cs
     else case split_lines cs of [] \<Rightarrow> [[c]] | l # ls \<Rightarrow> (c # l) # ls)"

definition is_comment :: "string \<Rightarrow> bool" where
  "is_comment l \<longleftrightarrow> (case l of [] \<Rightarrow> False | c # _ \<Rightarrow> c = CHR ''#'')"

definition parse_sample :: "string \<Rightarrow> string \<times> string" where
  "parse_sample l = (takeWhile (\<lambda>c. c \<noteq> CHR '' '') l, tl (dropWhile (\<lambda>c. c \<noteq> CHR '' '') l))"

definition scrape :: "string \<Rightarrow> (string \<times> string) list" where
  "scrape t = map parse_sample (filter (\<lambda>l. \<not> is_comment l) (split_lines t))"

definition scrape_values :: "string \<Rightarrow> (string \<times> f64 option) list" where
  "scrape_values t = map (\<lambda>(name, v). (name, parse_f64 v)) (scrape t)"

section \<open>Decimal forms have no line feed\<close>

lemma digit_char_no_lf: "d < 10 \<Longrightarrow> digit_char d \<noteq> LF"
proof
  assume "d < 10" "digit_char d = LF"
  then have "of_char (digit_char d) = (of_char LF :: nat)" by simp
  then show False using \<open>d < 10\<close> by (simp add: digit_char_def)
qed

lemma to_decimal_no_lf [simp]: "LF \<notin> set (to_decimal n)"
proof -
  have "LF \<notin> set (digits 10 n)"
  proof (induction n rule: less_induct)
    case (less n)
    then show ?case using digit_char_no_lf [of n] digit_char_no_lf [of "n mod 10"] by (subst digits.simps) auto
  qed
  then show ?thesis by (simp add: to_decimal_def)
qed

lemma show_f64_no_lf [simp]: "LF \<notin> set (show_f64 x)"
proof -
  have "LF \<notin> set (positional d)" for d
    by (cases d) (auto simp: positional_def Let_def dest: in_set_takeD in_set_dropD split: if_splits)
  then show ?thesis by (auto simp: show_f64_def split: f64.splits option.splits)
qed

section \<open>The text is what the scraper reads\<close>

lemma split_lines_line: "LF \<notin> set l \<Longrightarrow> split_lines (l @ LF # rest) = l # split_lines rest"
  by (induction l) auto

lemma split_lines_append:
  assumes "LF \<notin> set l"
  shows "split_lines ((l @ [LF]) @ rest) = l # split_lines rest"
  using split_lines_line [OF assms] by simp

lemma parse_sample_line: "CHR '' '' \<notin> set name \<Longrightarrow> parse_sample (name @ CHR '' '' # v) = (name, v)"
  by (induction name) (auto simp: parse_sample_def)

lemma scrape_comment:
  assumes "LF \<notin> set l"
  shows "scrape (CHR ''#'' # l @ LF # rest) = scrape rest"
  using split_lines_line [of "CHR ''#'' # l" rest] assms by (simp add: scrape_def is_comment_def)

lemma scrape_sample:
  assumes "CHR '' '' \<notin> set name" "LF \<notin> set name" "name \<noteq> []" "hd name \<noteq> CHR ''#''" "LF \<notin> set v"
  shows "scrape (name @ CHR '' '' # v @ LF # rest) = (name, v) # scrape rest"
proof -
  have "\<not> is_comment (name @ CHR '' '' # v)" using assms(3,4) by (cases name) (auto simp: is_comment_def)
  then show ?thesis
    using split_lines_line [of "name @ CHR '' '' # v" rest] parse_sample_line [OF assms(1)] assms(2,5)
    by (simp add: scrape_def)
qed

definition plain_name :: "string \<Rightarrow> bool" where
  "plain_name name \<longleftrightarrow> CHR '' '' \<notin> set name \<and> LF \<notin> set name \<and> name \<noteq> [] \<and> hd name \<noteq> CHR ''#''"

text \<open>A text is terminated when what follows it begins a new line.\<close>

definition terminated :: "string \<Rightarrow> bool" where
  "terminated out \<longleftrightarrow> (\<forall>rest. scrape (out @ rest) = scrape out @ scrape rest)"

lemma terminated_Nil [simp]: "terminated []" "scrape [] = []"
  by (simp_all add: terminated_def scrape_def)

lemma push_comment [simp]:
  assumes "terminated out" "LF \<notin> set l"
  shows "scrape (push_line (CHR ''#'' # l) out) = scrape out" "terminated (push_line (CHR ''#'' # l) out)"
  using assms by (simp_all add: terminated_def push_line_def scrape_comment)

lemma push_sample [simp]:
  assumes "terminated out" "plain_name name" "LF \<notin> set v"
  shows "scrape (push_line (name @ CHR '' '' # v) out) = scrape out @ [(name, v)]"
    "terminated (push_line (name @ CHR '' '' # v) out)"
  using assms by (simp_all add: terminated_def push_line_def scrape_sample plain_name_def)

lemma plain_name_lf: "plain_name name \<Longrightarrow> LF \<notin> set name"
  by (simp add: plain_name_def)

lemma scrape_gauge [simp]:
  assumes "terminated out" "plain_name name" "LF \<notin> set help"
  shows "scrape (emit_gauge name help v out) = scrape out @ [(name, show_f64 v)]" "terminated (emit_gauge name help v out)"
  using assms by (simp_all add: emit_gauge_def plain_name_lf)

lemma scrape_counter [simp]:
  assumes "terminated out" "plain_name name" "LF \<notin> set help"
  shows "scrape (emit_counter name help v out) = scrape out @ [(name, to_decimal (unat v))]"
    "terminated (emit_counter name help v out)"
  using assms by (simp_all add: emit_counter_def plain_name_lf)

definition summary_samples :: "string \<Rightarrow> Histogram \<Rightarrow> (string \<times> string) list" where
  "summary_samples name h =
     [(name @ quantile_label ''0.5'', show_f64 (Histogram_quantile (f64_lit (1 / 2)) h)),
      (name @ quantile_label ''0.95'', show_f64 (Histogram_quantile (f64_lit (95 / 100)) h)),
      (name @ quantile_label ''0.99'', show_f64 (Histogram_quantile (f64_lit (99 / 100)) h)),
      (name @ ''_sum'', show_f64 (Histogram_sum h)),
      (name @ ''_count'', to_decimal (Histogram_count h))]"

lemma scrape_summary [simp]:
  assumes "terminated out" "plain_name name" "LF \<notin> set help"
  shows "scrape (emit_summary name help h out) = scrape out @ summary_samples name h"
    "terminated (emit_summary name help h out)"
proof -
  have plain: "plain_name (name @ suffix)" if "CHR '' '' \<notin> set suffix" "LF \<notin> set suffix" for suffix
    using assms(2) that by (auto simp: plain_name_def)
  have sample [simp]: "scrape (push_line (name @ suffix @ CHR '' '' # v) o1) = scrape o1 @ [(name @ suffix, v)]"
    "terminated (push_line (name @ suffix @ CHR '' '' # v) o1)"
    if "terminated o1" "CHR '' '' \<notin> set suffix" "LF \<notin> set suffix" "LF \<notin> set v" for suffix v o1
    using push_sample [OF that(1) plain [OF that(2,3)] that(4)] by simp_all
  note rules = sample [of _ "quantile_label ''0.5''"] sample [of _ "quantile_label ''0.95''"]
    sample [of _ "quantile_label ''0.99''"] sample [of _ "''_sum''"] sample [of _ "''_count''"]
  show "scrape (emit_summary name help h out) = scrape out @ summary_samples name h"
    "terminated (emit_summary name help h out)"
    using assms rules by (simp_all add: emit_summary_def summary_samples_def quantile_label_def plain_name_lf Let_def)
qed

lemma scrape_text:
  "scrape (Metrics_to_prometheus_text m) =
     [(''suwappudb_block_height'', show_f64 (Gauge_get (block_height m))),
      (''suwappudb_snapshot_size_bytes'', show_f64 (Gauge_get (snapshot_size_bytes m))),
      (''suwappudb_tree_depth'', show_f64 (Gauge_get (tree_depth m))),
      (''suwappudb_address_count'', show_f64 (Gauge_get (address_count m))),
      (''suwappudb_state_size_bytes'', show_f64 (Gauge_get (state_size_bytes m))),
      (''suwappudb_anchor_parity_missing_chains'', show_f64 (Gauge_get (anchor_parity_missing_chains m)))] @
     summary_samples ''suwappudb_block_duration_ms'' (block_duration_ms m) @
     summary_samples ''suwappudb_anchor_latency_ms'' (anchor_latency_ms m) @
     summary_samples ''suwappudb_parity_check_duration_ms'' (parity_check_duration_ms m) @
     [(''suwappudb_blocks_committed'', to_decimal (unat (Counter_get (blocks_committed m)))),
      (''suwappudb_anchors_submitted'', to_decimal (unat (Counter_get (anchors_submitted m)))),
      (''suwappudb_parity_failures'', to_decimal (unat (Counter_get (parity_failures m)))),
      (''suwappudb_occ_collapse_to_sequential_total'',
         to_decimal (unat (Counter_get (occ_collapse_to_sequential_total m)))),
      (''suwappudb_occ_aborts_total'', to_decimal (unat (Counter_get (occ_aborts_total m)))),
      (''suwappudb_anchor_parity_divergent_total'', to_decimal (unat (Counter_get (anchor_parity_divergent_total m))))]"
  by (simp add: Metrics_to_prometheus_text_def Let_def plain_name_def)

section \<open>The values are read back\<close>

text \<open>Every \<open>f64\<close> of the program is a binary64 number; for the rationals of the model this is a condition.\<close>

definition wf_histogram :: "Histogram \<Rightarrow> bool" where
  "wf_histogram h \<longleftrightarrow> list_all wf_f64 (Mutex_read (hist_samples h))"

definition wf_metrics :: "Metrics \<Rightarrow> bool" where
  "wf_metrics m \<longleftrightarrow>
     wf_f64 (Gauge_get (block_height m)) \<and> wf_f64 (Gauge_get (snapshot_size_bytes m)) \<and> wf_f64 (Gauge_get (tree_depth m)) \<and>
     wf_f64 (Gauge_get (address_count m)) \<and> wf_f64 (Gauge_get (state_size_bytes m)) \<and>
     wf_f64 (Gauge_get (anchor_parity_missing_chains m)) \<and>
     wf_histogram (block_duration_ms m) \<and> wf_histogram (anchor_latency_ms m) \<and> wf_histogram (parity_check_duration_ms m)"

lemma wf_quantile: "wf_histogram h \<Longrightarrow> wf_f64 (Histogram_quantile q h)"
  using nth_mem [of _ "sort_by sample_cmp (Mutex_read (hist_samples h))"]
  by (auto simp: Histogram_quantile_def wf_histogram_def samples_get_def list_all_iff Let_def)

lemma wf_sum: "wf_histogram h \<Longrightarrow> wf_f64 (Histogram_sum h)"
  by (simp add: Histogram_sum_def wf_histogram_def wf_f64_sum)

text \<open>What a summary reports, as numbers.\<close>

definition summary_values :: "string \<Rightarrow> Histogram \<Rightarrow> (string \<times> f64) list" where
  "summary_values name h =
     [(name @ quantile_label ''0.5'', Histogram_quantile (f64_lit (1 / 2)) h),
      (name @ quantile_label ''0.95'', Histogram_quantile (f64_lit (95 / 100)) h),
      (name @ quantile_label ''0.99'', Histogram_quantile (f64_lit (99 / 100)) h),
      (name @ ''_sum'', Histogram_sum h),
      (name @ ''_count'', f64_of_nat (Histogram_count h))]"

lemma summary_read:
  "wf_histogram h \<Longrightarrow> map (\<lambda>(n, v). (n, parse_f64 v)) (summary_samples name h) = map (\<lambda>(n, v). (n, Some v)) (summary_values name h)"
  by (simp add: summary_samples_def summary_values_def parse_show_f64 parse_to_decimal wf_quantile wf_sum)

text \<open>What the endpoint shows of a collector: all of its numbers, without their text.\<close>

definition shown_summary :: "Histogram \<Rightarrow> f64 list \<times> nat" where
  "shown_summary h = ([Histogram_quantile (f64_lit (1 / 2)) h, Histogram_quantile (f64_lit (95 / 100)) h,
     Histogram_quantile (f64_lit (99 / 100)) h, Histogram_sum h], Histogram_count h)"

definition shown :: "Metrics \<Rightarrow> f64 list \<times> (f64 list \<times> nat) list \<times> u64 list" where
  "shown m =
     (map Gauge_get [block_height m, snapshot_size_bytes m, tree_depth m, address_count m, state_size_bytes m,
        anchor_parity_missing_chains m],
      map shown_summary [block_duration_ms m, anchor_latency_ms m, parity_check_duration_ms m],
      map Counter_get [blocks_committed m, anchors_submitted m, parity_failures m, occ_collapse_to_sequential_total m,
        occ_aborts_total m, anchor_parity_divergent_total m])"

lemma show_f64_inject: "wf_f64 x \<Longrightarrow> wf_f64 y \<Longrightarrow> show_f64 x = show_f64 y \<longleftrightarrow> x = y"
  by (metis parse_show_f64 option.inject)

lemma to_decimal_inject: "to_decimal m = to_decimal n \<longleftrightarrow> m = n"
  by (metis to_decimal_digits(2))

lemma summary_samples_inject:
  assumes "wf_histogram h" "wf_histogram h'"
  shows "summary_samples name h = summary_samples name h' \<longleftrightarrow> shown_summary h = shown_summary h'"
  using assms by (simp add: summary_samples_def shown_summary_def show_f64_inject to_decimal_inject wf_quantile wf_sum)

lemma length_summary [simp]: "length (summary_samples name h) = 5"
  by (simp add: summary_samples_def)

lemma emit_summary_shown: "shown_summary h = shown_summary h' \<Longrightarrow> emit_summary name help h out = emit_summary name help h' out"
  by (simp add: emit_summary_def shown_summary_def)

lemma text_determines:
  assumes "wf_metrics m" "wf_metrics m'"
  shows "Metrics_to_prometheus_text m = Metrics_to_prometheus_text m' \<longleftrightarrow> shown m = shown m'"
proof
  assume "shown m = shown m'"
  then show "Metrics_to_prometheus_text m = Metrics_to_prometheus_text m'"
    by (simp add: Metrics_to_prometheus_text_def Let_def shown_def emit_summary_shown
        [of "block_duration_ms m" "block_duration_ms m'"] emit_summary_shown [of "anchor_latency_ms m" "anchor_latency_ms m'"]
        emit_summary_shown [of "parity_check_duration_ms m" "parity_check_duration_ms m'"])
next
  assume "Metrics_to_prometheus_text m = Metrics_to_prometheus_text m'"
  then have "scrape (Metrics_to_prometheus_text m) = scrape (Metrics_to_prometheus_text m')" by simp
  then show "shown m = shown m'"
    using assms by (simp add: scrape_text shown_def wf_metrics_def show_f64_inject to_decimal_inject summary_samples_inject word_unat_eq_iff)
qed

text \<open>
  C35: the exported text can be read back without loss. A scraper that splits lines, skips comments, splits
  each sample at its first space and reads the numeral to the nearest binary64 number finds, under distinct
  names and in the order of the source, the value of every gauge bit for bit, three quantiles, the sum and the
  count of every histogram, and every counter rounded to binary64, which is the counter itself below \<open>2 ^ 53\<close>.
  As text nothing is rounded: two collectors export the same text if and only if all their gauges, counters,
  quantiles, sums and counts are equal.
\<close>

theorem prometheus_scrape:
  assumes "wf_metrics m"
  shows "scrape_values (Metrics_to_prometheus_text m) = map (\<lambda>(name, v). (name, Some v))
     ([(''suwappudb_block_height'', Gauge_get (block_height m)),
       (''suwappudb_snapshot_size_bytes'', Gauge_get (snapshot_size_bytes m)),
       (''suwappudb_tree_depth'', Gauge_get (tree_depth m)),
       (''suwappudb_address_count'', Gauge_get (address_count m)),
       (''suwappudb_state_size_bytes'', Gauge_get (state_size_bytes m)),
       (''suwappudb_anchor_parity_missing_chains'', Gauge_get (anchor_parity_missing_chains m))] @
      summary_values ''suwappudb_block_duration_ms'' (block_duration_ms m) @
      summary_values ''suwappudb_anchor_latency_ms'' (anchor_latency_ms m) @
      summary_values ''suwappudb_parity_check_duration_ms'' (parity_check_duration_ms m) @
      [(''suwappudb_blocks_committed'', f64_of_nat (unat (Counter_get (blocks_committed m)))),
       (''suwappudb_anchors_submitted'', f64_of_nat (unat (Counter_get (anchors_submitted m)))),
       (''suwappudb_parity_failures'', f64_of_nat (unat (Counter_get (parity_failures m)))),
       (''suwappudb_occ_collapse_to_sequential_total'', f64_of_nat (unat (Counter_get (occ_collapse_to_sequential_total m)))),
       (''suwappudb_occ_aborts_total'', f64_of_nat (unat (Counter_get (occ_aborts_total m)))),
       (''suwappudb_anchor_parity_divergent_total'', f64_of_nat (unat (Counter_get (anchor_parity_divergent_total m))))]) \<and>
    distinct (map fst (scrape_values (Metrics_to_prometheus_text m))) \<and>
    (\<forall>n < 2 ^ 53. f64_of_nat n = F_fin False (of_nat n)) \<and>
    (\<forall>m'. wf_metrics m' \<longrightarrow> (Metrics_to_prometheus_text m = Metrics_to_prometheus_text m' \<longleftrightarrow> shown m = shown m'))"
  (is "?read \<and> ?names \<and> ?exact \<and> ?det")
proof (intro conjI)
  show ?read using assms
    by (simp add: scrape_values_def scrape_text summary_read wf_metrics_def parse_show_f64 parse_to_decimal)
  show ?names
    by (simp add: scrape_values_def scrape_text comp_def case_prod_unfold summary_samples_def quantile_label_def)
  show ?exact by (simp add: f64_of_nat_exact)
  show ?det using text_determines [OF assms] by blast
qed

text \<open>A collector whose height gauge holds one half: the text has the numeral \<open>0.5\<close>, which reads as that number.\<close>

theorem prometheus_scrape_witness:
  "let m = Metrics_new\<lparr>block_height := Gauge_set (f64_lit (1 / 2)) Gauge_new\<rparr>
   in wf_metrics m \<and> hd (scrape (Metrics_to_prometheus_text m)) = (''suwappudb_block_height'', ''0.5'') \<and>
      hd (scrape_values (Metrics_to_prometheus_text m)) = (''suwappudb_block_height'', Some (f64_lit (1 / 2)))"
proof -
  let ?m = "Metrics_new\<lparr>block_height := Gauge_set (f64_lit (1 / 2)) Gauge_new\<rparr>"
  have wf: "wf_metrics ?m"
    by (simp add: wf_metrics_def wf_histogram_def Metrics_new_def Gauge_new_def Gauge_set_def Gauge_get_def Histogram_new_def
        Mutex_new_def Mutex_update_def Mutex_read_def f64_lit_def)
  have height: "Gauge_get (block_height ?m) = f64_lit (1 / 2)"
    by (simp add: Gauge_new_def Gauge_set_def Gauge_get_def Mutex_new_def Mutex_update_def Mutex_read_def)
  have "show_f64 (f64_lit (1 / 2)) = ''0.5''" by code_simp
  then have "hd (scrape (Metrics_to_prometheus_text ?m)) = (''suwappudb_block_height'', ''0.5'')"
    unfolding scrape_text height by simp
  moreover have "hd (scrape_values (Metrics_to_prometheus_text ?m)) = (''suwappudb_block_height'', Some (f64_lit (1 / 2)))"
    unfolding prometheus_scrape [OF wf, THEN conjunct1] height by simp
  ultimately show ?thesis using wf by (simp only: Let_def simp_thms)
qed

end
