(* ===== verification/Telemetry.thy ===== *)
theory Telemetry
  imports Metrics_Text Occ_Spec Dispatcher
begin

text \<open>
  The telemetry of the bridge crate (\<open>bridge/src/telemetry.rs\<close>): the scoped timers, which record the elapsed time
  when they are dropped, and the functions that record the state, a block report and a parity result.
\<close>

section \<open>Timers\<close>

record BlockTimer =
  block_timer_start :: nat

definition BlockTimer_new :: "nat \<Rightarrow> BlockTimer" where
  "BlockTimer_new now = \<lparr>block_timer_start = now\<rparr>"

definition BlockTimer_drop :: "nat \<Rightarrow> BlockTimer \<Rightarrow> Metrics \<Rightarrow> Metrics" where
  "BlockTimer_drop now t m = (let elapsed_ms = elapsed_ms_since (block_timer_start t) now in
     m\<lparr>block_duration_ms := Histogram_record elapsed_ms (block_duration_ms m)\<rparr>)"

record AnchorTimer =
  anchor_timer_start :: nat

definition AnchorTimer_new :: "nat \<Rightarrow> AnchorTimer" where
  "AnchorTimer_new now = \<lparr>anchor_timer_start = now\<rparr>"

definition AnchorTimer_drop :: "nat \<Rightarrow> AnchorTimer \<Rightarrow> Metrics \<Rightarrow> Metrics" where
  "AnchorTimer_drop now t m = (let elapsed_ms = elapsed_ms_since (anchor_timer_start t) now in
     m\<lparr>anchor_latency_ms := Histogram_record elapsed_ms (anchor_latency_ms m)\<rparr>)"

record ParityTimer =
  parity_timer_start :: nat

definition ParityTimer_new :: "nat \<Rightarrow> ParityTimer" where
  "ParityTimer_new now = \<lparr>parity_timer_start = now\<rparr>"

definition ParityTimer_drop :: "nat \<Rightarrow> ParityTimer \<Rightarrow> Metrics \<Rightarrow> Metrics" where
  "ParityTimer_drop now t m = (let elapsed_ms = elapsed_ms_since (parity_timer_start t) now in
     m\<lparr>parity_check_duration_ms := Histogram_record elapsed_ms (parity_check_duration_ms m)\<rparr>)"

section \<open>Recording\<close>

definition record_state_metrics :: "State \<Rightarrow> Metrics \<Rightarrow> Metrics" where
  "record_state_metrics st m =
     (let entries = State_entries st;
          m = m\<lparr>address_count := Gauge_set (f64_of_nat (length entries)) (address_count m)\<rparr>;
          total_bytes = fold (\<lambda>_ total. total + 52) entries (0 :: nat);
          m = m\<lparr>state_size_bytes := Gauge_set (f64_of_nat total_bytes) (state_size_bytes m)\<rparr>
      in m\<lparr>tree_depth := Gauge_set (f64_of_nat 20) (tree_depth m)\<rparr>)"

definition record_block_metrics :: "BlockReport \<Rightarrow> Metrics \<Rightarrow> Metrics" where
  "record_block_metrics report m =
     (let m = m\<lparr>blocks_committed := Counter_inc (blocks_committed m)\<rparr>;
          m = m\<lparr>occ_aborts_total := Counter_add (word_of_nat (aborts report)) (occ_aborts_total m)\<rparr>
      in if collapsed_to_sequential report \<noteq> None
         then m\<lparr>occ_collapse_to_sequential_total := Counter_inc (occ_collapse_to_sequential_total m)\<rparr> else m)"

definition record_parity_metrics :: "ParityResult \<Rightarrow> Metrics \<Rightarrow> Metrics" where
  "record_parity_metrics result m =
     (case result of
        Agreed _ \<Rightarrow> m\<lparr>anchor_parity_missing_chains := Gauge_set (F_fin False 0) (anchor_parity_missing_chains m)\<rparr>
      | Disagreed divergent missing \<Rightarrow>
          let m = m\<lparr>anchor_parity_missing_chains :=
                      Gauge_set (f64_of_nat (length missing)) (anchor_parity_missing_chains m)\<rparr>;
              m = m\<lparr>anchor_parity_divergent_total :=
                      Counter_add (word_of_nat (length divergent)) (anchor_parity_divergent_total m)\<rparr>
          in m\<lparr>parity_failures := Counter_inc (parity_failures m)\<rparr>)"

section \<open>What is recorded\<close>

text \<open>No mutex is poisoned: the operations of the model keep it so, since none of them panics under its lock.\<close>

definition healthy :: "Metrics \<Rightarrow> bool" where
  "healthy m \<longleftrightarrow>
     \<not> mx_poisoned (gauge_value (block_height m)) \<and> \<not> mx_poisoned (hist_samples (block_duration_ms m)) \<and>
     \<not> mx_poisoned (hist_samples (anchor_latency_ms m)) \<and> \<not> mx_poisoned (gauge_value (snapshot_size_bytes m)) \<and>
     \<not> mx_poisoned (gauge_value (tree_depth m)) \<and> \<not> mx_poisoned (hist_samples (parity_check_duration_ms m)) \<and>
     \<not> mx_poisoned (gauge_value (address_count m)) \<and> \<not> mx_poisoned (gauge_value (state_size_bytes m)) \<and>
     \<not> mx_poisoned (counter_value (blocks_committed m)) \<and> \<not> mx_poisoned (counter_value (anchors_submitted m)) \<and>
     \<not> mx_poisoned (counter_value (parity_failures m)) \<and>
     \<not> mx_poisoned (counter_value (occ_collapse_to_sequential_total m)) \<and>
     \<not> mx_poisoned (counter_value (occ_aborts_total m)) \<and>
     \<not> mx_poisoned (gauge_value (anchor_parity_missing_chains m)) \<and>
     \<not> mx_poisoned (counter_value (anchor_parity_divergent_total m))"

lemmas metric_ops = Gauge_set_def Gauge_get_def Counter_inc_def Counter_add_def Counter_get_def Histogram_record_def
  Mutex_update_def Mutex_read_def

lemma healthy_new: "healthy Metrics_new"
  by (simp add: healthy_def Metrics_new_def Gauge_new_def Counter_new_def Histogram_new_def Mutex_new_def)

lemma healthy_block: "healthy m \<Longrightarrow> healthy (record_block_metrics r m)"
  by (simp add: healthy_def record_block_metrics_def metric_ops Let_def)

lemma healthy_parity: "healthy m \<Longrightarrow> healthy (record_parity_metrics r m)"
  by (cases r) (simp_all add: healthy_def record_parity_metrics_def metric_ops Let_def)

text \<open>The state gauges: the number of accounts, 52 bytes for each, and a constant depth.\<close>

lemma state_metrics_exact:
  assumes "healthy m"
  shows "Gauge_get (address_count (record_state_metrics st m)) = f64_of_nat (length (State_entries st))"
    "Gauge_get (state_size_bytes (record_state_metrics st m)) = f64_of_nat (52 * length (State_entries st))"
    "Gauge_get (tree_depth (record_state_metrics st m)) = F_fin False 20"
proof -
  have "fold (\<lambda>_ total. total + 52) es n = n + 52 * length es" for es :: "(Address \<times> BalanceSlot) list" and n :: nat
    by (induction es arbitrary: n) auto
  then show "Gauge_get (address_count (record_state_metrics st m)) = f64_of_nat (length (State_entries st))"
    "Gauge_get (state_size_bytes (record_state_metrics st m)) = f64_of_nat (52 * length (State_entries st))"
    "Gauge_get (tree_depth (record_state_metrics st m)) = F_fin False 20"
    using assms f64_of_nat_exact [of 20] by (simp_all add: healthy_def record_state_metrics_def metric_ops Let_def)
qed

lemma record_block_step:
  assumes "healthy m"
  shows "Counter_get (blocks_committed (record_block_metrics r m)) = Counter_get (blocks_committed m) + 1"
    "Counter_get (occ_aborts_total (record_block_metrics r m)) = Counter_get (occ_aborts_total m) + word_of_nat (aborts r)"
    "Counter_get (occ_collapse_to_sequential_total (record_block_metrics r m)) =
       Counter_get (occ_collapse_to_sequential_total m) + (if collapsed_to_sequential r \<noteq> None then 1 else 0)"
  using assms by (simp_all add: healthy_def record_block_metrics_def metric_ops Let_def)

lemma record_blocks:
  assumes "healthy m"
  shows "Counter_get (blocks_committed (fold record_block_metrics rs m)) =
      Counter_get (blocks_committed m) + word_of_nat (length rs) \<and>
    Counter_get (occ_aborts_total (fold record_block_metrics rs m)) =
      Counter_get (occ_aborts_total m) + word_of_nat (sum_list (map aborts rs)) \<and>
    Counter_get (occ_collapse_to_sequential_total (fold record_block_metrics rs m)) =
      Counter_get (occ_collapse_to_sequential_total m) +
        word_of_nat (length (filter (\<lambda>r. collapsed_to_sequential r \<noteq> None) rs))"
  using assms
proof (induction rs arbitrary: m)
  case (Cons r rs)
  from Cons.IH [OF healthy_block [OF Cons.prems]] show ?case by (simp add: record_block_step [OF Cons.prems])
qed simp

lemma metrics_new_zero:
  "Counter_get (blocks_committed Metrics_new) = 0" "Counter_get (occ_aborts_total Metrics_new) = 0"
  "Counter_get (occ_collapse_to_sequential_total Metrics_new) = 0"
  by (simp_all add: Metrics_new_def Counter_new_def Counter_get_def Mutex_new_def Mutex_read_def)

text \<open>
  What the block executor reports is what a scraper reads. After the reports of any blocks have
  been recorded in a new collector, the exported text shows under its three names the number of
  blocks, the sum of their aborts and the number of blocks that collapsed to sequential execution,
  as decimal numerals, provided that the sum of the aborts and the number of blocks are below 2^64.
\<close>

theorem block_telemetry:
  assumes "length rs < 2 ^ 64" "sum_list (map aborts rs) < 2 ^ 64"
  defines "t \<equiv> scrape (Metrics_to_prometheus_text (fold record_block_metrics rs Metrics_new))"
  shows "map_of t ''suwappudb_blocks_committed'' = Some (to_decimal (length rs)) \<and>
    map_of t ''suwappudb_occ_aborts_total'' = Some (to_decimal (sum_list (map aborts rs))) \<and>
    map_of t ''suwappudb_occ_collapse_to_sequential_total'' =
      Some (to_decimal (length (filter (\<lambda>r. collapsed_to_sequential r \<noteq> None) rs)))"
proof -
  have "length (filter (\<lambda>r. collapsed_to_sequential r \<noteq> None) rs) < 2 ^ 64"
    using length_filter_le assms(1) by (rule order_le_less_trans)
  then show ?thesis
    using assms(1,2) record_blocks [OF healthy_new, of rs]
    by (simp add: t_def scrape_text summary_samples_def quantile_label_def metrics_new_zero unat_of_nat)
qed

theorem block_telemetry_witness:
  "let r = \<lparr>outcomes = [], iterations = 2, aborts = 3, state_root = Commitment [], collapsed_to_sequential = Some (addr_of 1)\<rparr>;
       t = scrape (Metrics_to_prometheus_text (fold record_block_metrics [r, r\<lparr>collapsed_to_sequential := None\<rparr>] Metrics_new))
   in map_of t ''suwappudb_blocks_committed'' = Some ''2'' \<and> map_of t ''suwappudb_occ_aborts_total'' = Some ''6'' \<and>
      map_of t ''suwappudb_occ_collapse_to_sequential_total'' = Some ''1''"
proof -
  have num: "to_decimal 2 = ''2''" "to_decimal 6 = ''6''" "to_decimal 1 = ''1''" by code_simp+
  show ?thesis using block_telemetry [of "[\<lparr>outcomes = [], iterations = 2, aborts = 3, state_root = Commitment [],
      collapsed_to_sequential = Some (addr_of 1)\<rparr>, \<lparr>outcomes = [], iterations = 2, aborts = 3, state_root = Commitment [],
      collapsed_to_sequential = None\<rparr>]"]
    by (simp add: Let_def num num(1) [unfolded numeral_2_eq_2] num(3) [simplified])
qed

section \<open>Parity results\<close>

text \<open>What the result of a check says, in the terms of the metrics.\<close>

lemma parity_result_lists:
  assumes "configured d" "AnchorDispatcher_parity_check C d h = Some (Disagreed divergent missing)"
  shows "length divergent = length (anchored_at d h)"
    "missing = (if missing_at d h \<noteq> [] then missing_at d h else tampered_at C d h)"
  using parity_check_listed [OF assms(1), of C h] assms(2) by (auto simp: anchored_roots)

lemma parity_agreed_lists:
  assumes "configured d" "AnchorDispatcher_parity_check C d h = Some (Agreed r)"
  shows "missing_at d h = []" "tampered_at C d h = []"
  using assms(2) parity_scan_lists [OF assms(1), of C h]
  by (auto simp: AnchorDispatcher_parity_check_def split: if_splits list.splits)

text \<open>
  C12: what a recorded parity check leaves in the metrics, exactly. The gauge of missing chains holds
  the number of chains without an anchor at the height; but if no chain misses one, it holds the
  number of chains whose anchor fails verification. When the check agrees, the two counters keep their
  values; when it does not, the failure counter grows by one and the counter of divergent pairs by
  the number of all chains that have an anchor at the height, also those whose roots agree.
\<close>

theorem parity_telemetry:
  assumes "configured d" "healthy m" "AnchorDispatcher_parity_check C d h = Some res"
  defines "m' \<equiv> record_parity_metrics res m"
  shows "Gauge_get (anchor_parity_missing_chains m') =
      f64_of_nat (length (if missing_at d h \<noteq> [] then missing_at d h else tampered_at C d h)) \<and>
    Counter_get (parity_failures m') =
      Counter_get (parity_failures m) + (if \<exists>r. agrees_at C d h r then 0 else 1) \<and>
    Counter_get (anchor_parity_divergent_total m') =
      Counter_get (anchor_parity_divergent_total m) +
        (if \<exists>r. agrees_at C d h r then 0 else word_of_nat (length (anchored_at d h)))"
proof (cases res)
  case (Agreed r)
  then have "agrees_at C d h r" using parity_check_agreed [OF assms(1), of C h] assms(3) by auto
  moreover have "missing_at d h = []" "tampered_at C d h = []" using parity_agreed_lists assms(1,3) Agreed by blast+
  ultimately show ?thesis using assms(2) Agreed f64_of_nat_exact [of 0]
    by (auto simp: m'_def record_parity_metrics_def healthy_def metric_ops)
next
  case (Disagreed divergent missing)
  then have "\<not> (\<exists>r. agrees_at C d h r)" using parity_check_agreed [OF assms(1), of C h] assms(3) by auto
  moreover note parity_result_lists [OF assms(1), of C h divergent missing]
  ultimately show ?thesis using assms(2,3) Disagreed
    by (simp add: m'_def record_parity_metrics_def healthy_def metric_ops Let_def)
qed

theorem parity_telemetry_witness:
  "Gauge_get (anchor_parity_missing_chains (record_parity_metrics (Disagreed [] [ChainId 1, ChainId 2]) Metrics_new)) =
      f64_of_nat 2 \<and>
   Counter_get (parity_failures (record_parity_metrics (Disagreed [] [ChainId 1, ChainId 2]) Metrics_new)) =
      Counter_get (parity_failures Metrics_new) + (if \<exists>r. agrees_at toy_crypto toy_dispatcher 1 r then 0 else 1)"
proof -
  have conf: "configured toy_dispatcher" unfolding configured_def by code_simp
  have res: "AnchorDispatcher_parity_check toy_crypto toy_dispatcher 1 = Some (Disagreed [] [ChainId 1, ChainId 2])" by code_simp
  have "missing_at toy_dispatcher 1 = [ChainId 1, ChainId 2]" by code_simp
  with parity_telemetry [OF conf healthy_new res] show ?thesis by (simp add: numeral_2_eq_2)
qed

end
