(* ===== verification/Ledger.thy ===== *)
theory Ledger
  imports Bridge_Props Recovery Tree_Security
begin

text \<open>
  The ledger as a whole: the states reached from the empty one by any history of the operations that change it,
  which are the entry points of the bridge, both mock virtual machines, the mempool, atomic bundles and parallel
  blocks, with the net amount that credits and debits have put in. The Move runtime of bundles is left out: its
  writes are not conserved (theories \<open>Bundle\<close> and \<open>Aptos\<close>).
\<close>

inductive ledger :: "State \<Rightarrow> int \<Rightarrow> bool" where
  start: "ledger State_default 0"
| submit: "ledger st net \<Longrightarrow> intent_addrs_wf i \<Longrightarrow> ledger (snd (Bridge_submit st i)) net"
| transfer_internal: "ledger st net \<Longrightarrow> wf_addr a \<Longrightarrow> wf_addr b \<Longrightarrow> ledger (snd (Bridge_transfer_internal st a b n)) net"
| credit: "ledger st net \<Longrightarrow> wf_addr a \<Longrightarrow>
    ledger (snd (Bridge_credit st a n)) (net + (if fst (Bridge_credit st a n) = Inr () then uint n else 0))"
| debit: "ledger st net \<Longrightarrow> wf_addr a \<Longrightarrow>
    ledger (snd (Bridge_debit st a n)) (net - (if fst (Bridge_debit st a n) = Inr () then uint n else 0))"
| write_bytes: "ledger st net \<Longrightarrow> ledger (Bridge_write_bytes st a bs) net"
| evm: "ledger st net \<Longrightarrow> wf_addr (etx_from tx) \<Longrightarrow> wf_addr (etx_to tx) \<Longrightarrow> ledger (snd (MockEvm_execute st tx)) net"
| move: "ledger st net \<Longrightarrow> wf_addr (mtx_signer tx) \<Longrightarrow> wf_addr (mtx_recipient tx) \<Longrightarrow> ledger (snd (MockMove_execute st tx)) net"
| drain: "ledger st net \<Longrightarrow> list_all intent_addrs_wf (queue m) \<Longrightarrow> ledger (snd (snd (Mempool_drain_all m st))) net"
| atomic: "ledger st net \<Longrightarrow> \<forall>s \<in> set (steps b). \<forall>a \<in> step_addrs s. wf_addr a \<Longrightarrow> ledger (snd (BundleExecutor_execute st b)) net"
| block: "ledger st net \<Longrightarrow> \<forall>i \<in> set is. intent_addrs_wf i \<Longrightarrow> registry_addrs_wf reg \<Longrightarrow>
    BlockExecutor_execute_with_registry H sched st is reg = Some (rep, st') \<Longrightarrow> ledger st' net"

section \<open>Each operation keeps the state well-formed\<close>

lemma wf_set_balance [simp]:
  assumes "wf_state st" "wf_addr a"
  shows "wf_state (State_apply st (SetBalance a v))"
proof -
  have "fst ` set (State_entries (State_apply st (SetBalance a v))) = insert a (fst ` set (State_entries st))"
    by (simp add: State_apply.simps State_entries_def ims.entries_set)
  moreover have "\<forall>x \<in> insert a (fst ` set (State_entries st)). wf_addr x" using assms by (auto simp: wf_state_def)
  ultimately have "\<forall>x \<in> fst ` set (State_entries (State_apply st (SetBalance a v))). wf_addr x" by simp
  then show ?thesis using assms(1) by (simp add: wf_state_def)
qed

lemma wf_set_bytes [simp]: "wf_state st \<Longrightarrow> wf_state (State_apply st (SetBytes a bs))"
  by (simp add: wf_state_def State_apply.simps State_entries_def ims.entries_set_bytes State_invar_def ims.invar_set_bytes)

lemma wf_submit: "wf_state st \<Longrightarrow> intent_addrs_wf i \<Longrightarrow> wf_state (snd (Bridge_submit st i))"
  by (cases i) (auto simp: submit_transfer_cases intent_addrs_wf_def)

lemma wf_restore:
  assumes "snapshot_of st0 A snap" "\<forall>a \<in> A. wf_addr a" "wf_state st"
  shows "wf_state (restore_snapshot st snap)"
proof -
  have "\<forall>e \<in> set snap. wf_addr (fst e)"
  proof
    fix e assume that: "e \<in> set snap"
    have "map_get snap (fst e) \<noteq> None" using that unfolding map_get_def map_of_eq_None_iff by simp
    then show "wf_addr (fst e)" using assms(1,2) by (auto simp: snapshot_of_def split: if_splits)
  qed
  then show ?thesis unfolding restore_snapshot_def using assms(3)
    by (induction snap arbitrary: st) (auto simp: case_prod_unfold)
qed

lemma wf_steps:
  assumes "snapshot_of st0 A snap" "\<forall>a \<in> A. wf_addr a" "wf_state st" "\<forall>s \<in> set ss. \<forall>a \<in> step_addrs s. wf_addr a"
  shows "wf_state (snd (execute_steps snap idx ss outs st))"
  using assms(3,4)
proof (induction ss arbitrary: idx outs st)
  case (Cons s ss)
  show ?case
  proof (cases "step_to_intent s")
    case None
    then show ?thesis using wf_restore [OF assms(1,2) Cons.prems(1)] by simp
  next
    case (Some i)
    then have "intent_addrs_wf i" using Cons.prems(2)
      by (cases s) (auto simp: intent_addrs_wf_def EvmTx_to_canonical_def MoveTx_to_canonical_def)
    then have wf: "wf_state (snd (Bridge_submit st i))" using Cons.prems(1) by (intro wf_submit)
    show ?thesis
    proof (cases "Bridge_submit st i")
      case (Pair r st1)
      then show ?thesis using Some wf Cons.IH [of st1] Cons.prems(2) wf_restore [OF assms(1,2), of st1] by (cases r) auto
    qed
  qed
qed simp

lemma wf_bundle:
  assumes "wf_state st" "\<forall>s \<in> set (steps b). \<forall>a \<in> step_addrs s. wf_addr a"
  shows "wf_state (snd (BundleExecutor_execute st b))"
  using assms wf_steps [OF collect_snapshot_of] by (auto simp: BundleExecutor_execute_def)

lemma drain_keeps:
  assumes "wf_state st" "list_all intent_addrs_wf (queue m)"
  shows "wf_state (snd (snd (Mempool_drain_all m st))) \<and> State_supply (snd (snd (Mempool_drain_all m st))) = State_supply st"
  using assms
proof (induction m st rule: Mempool_drain_all.induct)
  case (1 m st)
  show ?case
  proof (cases "queue m")
    case Nil
    then show ?thesis using "1.prems" by (simp add: Mempool_drain_all.simps [of m] Mempool_drain_one_def)
  next
    case (Cons i rest)
    obtain r st1 where sub: "Bridge_submit st i = (r, st1)" by force
    have st1: "wf_state st1" "State_supply st1 = State_supply st"
      using wf_submit [OF "1.prems"(1), of i] submit_supply [of st i] "1.prems" Cons sub by (auto simp: wf_state_def)
    show ?thesis using "1.IH" [OF _ refl refl, unfolded Mempool_drain_one_def] st1 "1.prems"(2) Cons sub
      by (simp add: Mempool_drain_all.simps [of m] Mempool_drain_one_def case_prod_unfold Let_def)
  qed
qed

section \<open>The invariant\<close>

text \<open>What the three privileged entry points of the bridge do to the books.\<close>

lemma int_books: "m = k + (if ok then unat (n :: u128) else 0) \<Longrightarrow> int m = int k + (if ok then uint n else 0)"
  by (cases ok) simp_all

lemma bridge_books:
  assumes "wf_state st" "wf_addr a"
  shows "wf_addr b \<Longrightarrow> wf_state (snd (Bridge_transfer_internal st a b n))"
    and "State_supply (snd (Bridge_transfer_internal st a b n)) = State_supply st"
    and "wf_state (snd (Bridge_credit st a n))"
    and "int (State_supply (snd (Bridge_credit st a n))) =
      int (State_supply st) + (if fst (Bridge_credit st a n) = Inr () then uint n else 0)"
    and "wf_state (snd (Bridge_debit st a n))"
    and "int (State_supply (snd (Bridge_debit st a n))) =
      int (State_supply st) - (if fst (Bridge_debit st a n) = Inr () then uint n else 0)"
proof -
  have "State_invar st" using assms(1) by (simp add: wf_state_def)
  note books = bridge_supply [OF this, of "Transfer a a 0" a b n, THEN conjunct2]
  show "State_supply (snd (Bridge_transfer_internal st a b n)) = State_supply st" by (rule books [THEN conjunct1])
  show "int (State_supply (snd (Bridge_credit st a n))) =
      int (State_supply st) + (if fst (Bridge_credit st a n) = Inr () then uint n else 0)"
    by (rule int_books [OF books [THEN conjunct2, THEN conjunct1]])
  show "int (State_supply (snd (Bridge_debit st a n))) =
      int (State_supply st) - (if fst (Bridge_debit st a n) = Inr () then uint n else 0)"
    using int_books [OF books [THEN conjunct2, THEN conjunct2, symmetric]] by linarith
qed (use assms in \<open>auto simp: Bridge_transfer_internal_def Bridge_credit_def Bridge_debit_def Let_def split: option.splits\<close>)

lemma ledger_invariant: "ledger st net \<Longrightarrow> wf_state st \<and> int (State_supply st) = net"
proof (induction rule: ledger.induct)
  case start
  have "State_entries State_default = []" by (simp add: State_entries_def State_default_def InMemory_defs)
  then show ?case by (simp add: wf_state_def State_supply_def total_supply_def)
next
  case (submit st net i)
  then show ?case using wf_submit submit_supply by (auto simp: wf_state_def)
next
  case (transfer_internal st net a b n)
  then show ?case using bridge_books(1,2) by simp
next
  case (credit st net a n)
  then show ?case using bridge_books(3,4) by simp
next
  case (debit st net a n)
  then show ?case using bridge_books(5,6) by simp
next
  case (write_bytes st net a bs)
  then show ?case by (simp add: Bridge_write_bytes_def supply_set_bytes)
next
  case (evm st net tx)
  let ?i = "Transfer (etx_from tx) (etx_to tx) (etx_value tx)"
  have "snd (MockEvm_execute st tx) = snd (Bridge_submit st ?i)"
    by (simp add: MockEvm_execute_def EvmTx_to_canonical_def case_prod_unfold Let_def)
  then show ?case using evm wf_submit [of st ?i] submit_supply [of st ?i] by (simp add: intent_addrs_wf_def wf_state_def)
next
  case (move st net tx)
  let ?i = "Transfer (mtx_signer tx) (mtx_recipient tx) (ucast (mtx_amount tx))"
  have "snd (MockMove_execute st tx) = snd (Bridge_submit st ?i)"
    by (simp add: MockMove_execute_def MoveTx_to_canonical_def case_prod_unfold Let_def)
  then show ?case using move wf_submit [of st ?i] submit_supply [of st ?i] by (simp add: intent_addrs_wf_def wf_state_def)
next
  case (drain st net m)
  then show ?case using drain_keeps by simp
next
  case (atomic st net b)
  then have "wf_state (snd (BundleExecutor_execute st b))" by (intro wf_bundle) auto
  moreover have "State_invar st" using atomic.IH by (simp add: wf_state_def)
  ultimately show ?case using bundle_conserves_supply [OF _ prod.collapse [symmetric], of st b] atomic.IH by simp
next
  case (block st net "is" reg H sched rep st')
  then show ?case using block_step_wf [OF block.hyps(4)] block_supply [OF _ block.hyps(4)] by (auto simp: wf_state_def)
qed

text \<open>
  C4: the ledger keeps its books. After any history of submitted intents, internal transfers, credits,
  debits, blob writes, mock transactions, mempool drains, atomic bundles and parallel blocks under any
  schedule, with whatever outcomes, the state is well-formed (its store invariant holds and every
  entry has a twenty-byte address, so its state tree is a tree of depth twenty), and the sum of all
  balances is what the accepted credits put in less what the accepted debits took out.
\<close>

theorem ledger_books:
  assumes "ledger st net"
  shows "wf_state st \<and> wf_state_tree (StateTree_from_state st) \<and> int (State_supply st) = net"
  using ledger_invariant [OF assms] wf_from_entries [of "State_entries st"]
  by (simp add: wf_state_def StateTree_from_state_def)

text \<open>A history with a credit, a transfer through the EVM, a bundle that reverts and a block.\<close>

lemma ledger_example:
  "ledger (snd (BundleExecutor_execute (snd (MockEvm_execute (snd (Bridge_credit State_default (addr_of 1) 10))
     \<lparr>etx_from = addr_of 1, etx_to = addr_of 2, etx_value = 4\<rparr>)) bad_bundle)) 10"
proof -
  have "fst (Bridge_credit State_default (addr_of 1) 10) = Inr ()" by code_simp
  with ledger.credit [OF ledger.start, of "addr_of 1" 10]
  have "ledger (snd (Bridge_credit State_default (addr_of 1) 10)) 10" by simp
  from ledger.evm [OF this, of "\<lparr>etx_from = addr_of 1, etx_to = addr_of 2, etx_value = 4\<rparr>"]
  have "ledger (snd (MockEvm_execute (snd (Bridge_credit State_default (addr_of 1) 10))
     \<lparr>etx_from = addr_of 1, etx_to = addr_of 2, etx_value = 4\<rparr>)) 10" by simp
  then show ?thesis
    by (rule ledger.atomic) (auto simp: bad_bundle_def Bundle_with_def Bundle_single_def evm_step_def)
qed

theorem ledger_books_witness:
  "int (State_supply (snd (BundleExecutor_execute (snd (MockEvm_execute (snd (Bridge_credit State_default (addr_of 1) 10))
     \<lparr>etx_from = addr_of 1, etx_to = addr_of 2, etx_value = 4\<rparr>)) bad_bundle))) = 10"
  using ledger_books [OF ledger_example] by blast

end
