(* ===== verification/Mutations.thy ===== *)
theory Mutations
  imports Bridge_Props Recovery Snapshot
begin

text \<open>
  The one mutation path. \<open>State::apply\<close> is the only operation that changes a \<open>State\<close>; every entry point of the
  program that takes a mutable state is listed as a step of the relation \<open>mutates\<close>, the Move runtime of bundles
  and the restoring of snapshots included, and is shown to be a sequence of such changes. Since a balance change
  writes a fresh slot, no entry point ever advances a nonce. The second part is the interface of the two
  projector traits of \<open>vm/projector.rs\<close>, as the locale \<open>account_view\<close>.
\<close>

section \<open>Changes\<close>

inductive applies :: "State \<Rightarrow> State \<Rightarrow> bool" where
  change: "applies st (State_apply st c)"

inductive_cases appliesE: "applies st st'"

lemma applies_one [intro, simp]: "applies\<^sup>*\<^sup>* st (State_apply st c)"
  by (intro r_into_rtranclp change)

lemma applies_snoc [intro]: "applies\<^sup>*\<^sup>* st st' \<Longrightarrow> applies\<^sup>*\<^sup>* st (State_apply st' c)"
  by (rule rtranclp_trans [OF _ applies_one])

lemma applies_fold:
  assumes "\<And>x s. applies\<^sup>*\<^sup>* s (f x s)"
  shows "applies\<^sup>*\<^sup>* st (fold f xs st)"
proof (induction xs arbitrary: st)
  case (Cons x xs)
  then show ?case using assms [of st x] by (auto intro: rtranclp_trans)
qed simp

section \<open>Every entry point is a sequence of changes\<close>

lemma submit_applies: "applies\<^sup>*\<^sup>* st (snd (Bridge_submit st i))"
  by (cases i) (auto simp: submit_transfer_cases)

lemma restore_applies: "applies\<^sup>*\<^sup>* st (restore_snapshot st snap)"
  unfolding restore_snapshot_def by (rule applies_fold) auto

lemma resource_writes_apply: "applies\<^sup>*\<^sup>* st (apply_resource_writes st ws)"
  unfolding apply_resource_writes_def by (rule applies_fold) auto

lemma steps_apply: "applies\<^sup>*\<^sup>* st (snd (execute_steps snap idx ss outs st))"
proof (induction ss arbitrary: idx outs st)
  case (Cons s ss)
  have step: "applies\<^sup>*\<^sup>* st st1" if "Bridge_submit st i = (r, st1)" for i r st1
    using submit_applies [of st i] that by simp
  show ?case
    by (auto split: option.splits prod.splits sum.splits dest!: step
        intro: restore_applies rtranclp_trans [OF _ restore_applies] rtranclp_trans [OF _ Cons.IH])
qed simp

lemma bundle_applies: "applies\<^sup>*\<^sup>* st (snd (BundleExecutor_execute st b))"
  by (simp add: BundleExecutor_execute_def steps_apply)

lemma runtime_step_applies: "runtime_step ex ms view s st q = (r, st1, q1) \<Longrightarrow> applies\<^sup>*\<^sup>* st st1"
  using submit_applies by (cases s) (auto simp: Let_def case_prod_unfold resource_writes_apply split: sum.splits if_splits)

lemma runtime_steps_apply: "applies\<^sup>*\<^sup>* st (fst (snd (runtime_steps ex view snap idx ss outs st ms q)))"
proof (induction ss arbitrary: idx outs st q)
  case (Cons s ss)
  then show ?case
    by (auto split: prod.splits sum.splits dest!: runtime_step_applies
        intro: rtranclp_trans [OF _ restore_applies] rtranclp_trans [OF _ Cons.IH])
qed simp

lemma runtime_applies: "applies\<^sup>*\<^sup>* st (fst (snd (BundleExecutor_execute_with_move_runtime st b ex ms view)))"
  by (simp add: BundleExecutor_execute_with_move_runtime_def runtime_steps_apply)

lemma drain_applies: "applies\<^sup>*\<^sup>* st (snd (snd (Mempool_drain_one m st)))"
  using submit_applies by (auto simp: Mempool_drain_one_def case_prod_unfold Let_def split: list.splits)

lemma drain_all_applies: "applies\<^sup>*\<^sup>* st (snd (snd (Mempool_drain_all m st)))"
proof (induction m st rule: Mempool_drain_all.induct)
  case (1 m st)
  obtain oc m1 st1 where one: "Mempool_drain_one m st = (oc, m1, st1)" by (cases "Mempool_drain_one m st")
  with drain_applies [of st m] have first: "applies\<^sup>*\<^sup>* st st1" by simp
  show ?case
  proof (cases oc)
    case None
    then show ?thesis using first by (simp add: Mempool_drain_all.simps [of m] one)
  next
    case (Some c)
    then have "applies\<^sup>*\<^sup>* st1 (snd (snd (Mempool_drain_all m1 st1)))" using "1.IH" [OF one [symmetric] _ refl] by simp
    then show ?thesis using first Some by (simp add: Mempool_drain_all.simps [of m] one case_prod_unfold Let_def)
  qed
qed

lemma block_applies:
  assumes "BlockExecutor_execute_with_registry H sched st is reg = Some (rep, st')"
  shows "applies\<^sup>*\<^sup>* st st'"
proof -
  have "applies\<^sup>*\<^sup>* st (consolidate st ws)" for ws unfolding consolidate_def by (rule applies_fold) auto
  with assms show ?thesis
    by (auto simp: BlockExecutor_execute_with_registry_def Let_def split: if_splits option.splits)
qed

lemma replay_blocks_applies: "replay_blocks H sched reg k h prev bs st = Some (r, st') \<Longrightarrow> applies\<^sup>*\<^sup>* st st'"
proof (induction bs arbitrary: k h prev st)
  case (Cons b bs)
  then show ?case
    by (auto simp: Let_def split: if_splits option.splits dest!: block_applies intro: rtranclp_trans)
qed simp

lemma replay_applies: "replay H sched s st reg lo = Some (r, st') \<Longrightarrow> applies\<^sup>*\<^sup>* st st'"
  by (auto simp: replay_def split: sum.splits if_splits option.splits dest: replay_blocks_applies)

lemma snapshot_applies: "applies\<^sup>*\<^sup>* st (snd (StateSnapshot_restore_into_state sn st))"
proof -
  have bals: "applies\<^sup>*\<^sup>* s (apply_balances es s)" for s es unfolding apply_balances_def by (rule applies_fold) auto
  have "applies\<^sup>*\<^sup>* s (apply_blobs es s)" for s es unfolding apply_blobs_def by (rule applies_fold) auto
  then have "applies\<^sup>*\<^sup>* st (apply_blobs es (apply_balances es' st))" for es es' using bals rtranclp_trans by metis
  then show ?thesis using bals by (simp add: StateSnapshot_restore_into_state_def Let_def split: sum.splits)
qed

text \<open>The entry points that take a mutable state, one step each, with whatever arguments and result.\<close>

inductive mutates :: "State \<Rightarrow> State \<Rightarrow> bool" where
  submit: "mutates st (snd (Bridge_submit st i))"
| transfer_internal: "mutates st (snd (Bridge_transfer_internal st a b n))"
| credit: "mutates st (snd (Bridge_credit st a n))"
| debit: "mutates st (snd (Bridge_debit st a n))"
| write_bytes: "mutates st (Bridge_write_bytes st a bs)"
| evm: "mutates st (snd (MockEvm_execute st etx))"
| move: "mutates st (snd (MockMove_execute st mtx))"
| drain_one: "mutates st (snd (snd (Mempool_drain_one m st)))"
| drain_all: "mutates st (snd (snd (Mempool_drain_all m st)))"
| atomic: "mutates st (snd (BundleExecutor_execute st b))"
| runtime: "mutates st (fst (snd (BundleExecutor_execute_with_move_runtime st b ex ms view)))"
| block: "BlockExecutor_execute_with_registry H sched st is reg = Some (rep, st') \<Longrightarrow> mutates st st'"
| replay: "replay H schedules s st reg lo = Some (r, st') \<Longrightarrow> mutates st st'"
| restore: "mutates st (snd (StateSnapshot_restore_into_state sn st))"

lemma mutates_applies: "mutates st st' \<Longrightarrow> applies\<^sup>*\<^sup>* st st'"
proof (induction rule: mutates.induct)
  case (transfer_internal st a b n)
  then show ?case by (auto simp: Bridge_transfer_internal_def Let_def split: option.splits)
next
  case (credit st a n)
  then show ?case by (auto simp: Bridge_credit_def split: option.splits)
next
  case (debit st a n)
  then show ?case by (auto simp: Bridge_debit_def Let_def)
next
  case (write_bytes st a bs)
  then show ?case by (simp add: Bridge_write_bytes_def)
next
  case (evm st etx)
  then show ?case using submit_applies by (simp add: MockEvm_execute_def case_prod_unfold Let_def)
next
  case (move st mtx)
  then show ?case using submit_applies by (simp add: MockMove_execute_def case_prod_unfold Let_def)
qed (auto intro: submit_applies drain_applies drain_all_applies bundle_applies runtime_applies block_applies
    replay_applies snapshot_applies)

section \<open>The projections\<close>

text \<open>
  The contract of a projector: it reads the canonical slot of the account. Its clients are the readers of
  either virtual machine.
\<close>

locale account_view =
  fixes view_balance :: "State \<Rightarrow> Address \<Rightarrow> u128"
    and view_count :: "State \<Rightarrow> Address \<Rightarrow> u64"
    and view_slot :: "State \<Rightarrow> Address \<Rightarrow> BalanceSlot"
  assumes slot_canonical: "view_slot st a = State_slot_of st a"
    and balance_of_slot: "view_balance st a = canonical (view_slot st a)"
    and count_of_slot: "view_count st a = nonce_value (nonce (view_slot st a))"
begin

lemma balance_canonical: "view_balance st a = bal st a"
  by (simp add: balance_of_slot slot_canonical bal_slot)

text \<open>States that cannot be told apart look the same.\<close>

lemma view_cong: "state_eq s t \<Longrightarrow> view_balance s = view_balance t \<and> view_count s = view_count t"
  by (simp add: fun_eq_iff balance_of_slot count_of_slot slot_canonical state_eq_def)

text \<open>A transfer the bridge accepts moves the amount in the view.\<close>

lemma view_transfer:
  "Bridge_submit st (Transfer a b n) = (Inr (), st') \<Longrightarrow> view_balance st' = move_balance (view_balance st) a b n"
  using submit_ok_bal by (simp add: balance_canonical [abs_def])

text \<open>The counter of an account after any mutations: what it was, or zero.\<close>

lemma view_count_after:
  assumes "State_slot_of st' a = State_slot_of st a \<or> nonce (State_slot_of st' a) = AccountNonce_new 0"
  shows "view_count st' a = view_count st a \<or> view_count st' a = 0"
  using assms by (auto simp: count_of_slot slot_canonical AccountNonce_new_def)

end

interpretation evm_view: account_view "\<lambda>st a. EvmBalance_to_u128 (EvmView_balance_of st a)"
  "\<lambda>st a. evm_nonce_val (EvmProjector_nonce st a)" EvmProjector_slot
  by unfold_locales (simp_all add: EvmProjector_slot_def EvmView_balance_of_def BalanceSlot_evm_balance_def
      EvmProjector_nonce_def AccountNonce_evm_nonce_def)

interpretation move_view: account_view "\<lambda>st a. MoveCoinValue_to_u128 (MoveView_coin_value st a)"
  "\<lambda>st a. move_seq_val (MoveProjector_sequence_number st a)" MoveProjector_slot
  by unfold_locales (simp_all add: MoveProjector_slot_def MoveView_coin_value_def BalanceSlot_move_coin_value_def
      MoveProjector_sequence_number_def AccountNonce_move_sequence_def)

text \<open>Both views of an account agree, in every state: they are projections of one slot.\<close>

lemma views_agree:
  "EvmBalance_to_u128 (EvmView_balance_of st a) = MoveCoinValue_to_u128 (MoveView_coin_value st a)"
  "evm_nonce_val (EvmProjector_nonce st a) = move_seq_val (MoveProjector_sequence_number st a)"
  by (simp_all only: evm_view.balance_canonical move_view.balance_canonical evm_view.count_of_slot
      evm_view.slot_canonical move_view.count_of_slot move_view.slot_canonical)

section \<open>Nonces\<close>

text \<open>A balance change writes a slot with the default nonce; a blob change leaves every slot alone.\<close>

lemma change_slot:
  "State_slot_of (State_apply st c) a = State_slot_of st a \<or> nonce (State_slot_of (State_apply st c) a) = AccountNonce_new 0"
  by (cases c) (auto simp: slot_apply BalanceSlot_new_def AccountNonce_default_def AccountNonce_new_def
      State_slot_of_def State_apply.simps ims.get_set ims.get_set_bytes)

lemma changes_slot:
  assumes "applies\<^sup>*\<^sup>* st st'"
  shows "State_slot_of st' a = State_slot_of st a \<or> nonce (State_slot_of st' a) = AccountNonce_new 0"
  using assms
proof (induction rule: rtranclp_induct)
  case (step y z)
  from step.hyps(2) obtain c where "z = State_apply y c" by (rule appliesE)
  then show ?case using change_slot [of y c a] step.IH by auto
qed simp

lemma mutations_apply: "mutates\<^sup>*\<^sup>* st st' \<Longrightarrow> applies\<^sup>*\<^sup>* st st'"
  by (induction rule: rtranclp_induct) (auto dest: mutates_applies)

lemma default_slot: "nonce (State_slot_of State_default a) = AccountNonce_new 0"
  by (simp add: State_slot_of_def State_default_def ims.get_fresh BalanceSlot_default_def AccountNonce_default_def
      AccountNonce_new_def)

text \<open>
  C37: no transaction advances a nonce. After any sequence of calls of any entry points, each account has the
  nonce it started with or the nonce zero, in both views; an accepted transfer between two accounts leaves
  both with nonce zero, whatever they had; and in a ledger that started empty every nonce is always zero, so a
  transaction with nonce zero stays valid however often it was executed.
\<close>

theorem nonces_never_advance:
  assumes "mutates\<^sup>*\<^sup>* st st'"
  shows "(evm_nonce_val (EvmProjector_nonce st' a) = evm_nonce_val (EvmProjector_nonce st a) \<or>
          evm_nonce_val (EvmProjector_nonce st' a) = 0) \<and>
    (move_seq_val (MoveProjector_sequence_number st' a) = move_seq_val (MoveProjector_sequence_number st a) \<or>
     move_seq_val (MoveProjector_sequence_number st' a) = 0) \<and>
    (Bridge_submit st' (Transfer a b n) = (Inr (), st2) \<and> a \<noteq> b \<longrightarrow>
     EvmProjector_nonce st2 a = EvmNonce 0 \<and> EvmProjector_nonce st2 b = EvmNonce 0) \<and>
    (st = State_default \<longrightarrow> EvmProjector_nonce st' a = EvmNonce 0 \<and>
     EvmNonce_is_valid_for_next_tx (EvmProjector_nonce st' a) 0 \<and>
     MoveSequenceNumber_is_valid_for_next_tx (MoveProjector_sequence_number st' a) 0)"
proof -
  note slots = changes_slot [OF mutations_apply [OF assms], of a]
  have reset: "EvmProjector_nonce st2 a = EvmNonce 0 \<and> EvmProjector_nonce st2 b = EvmNonce 0"
    if "Bridge_submit st' (Transfer a b n) = (Inr (), st2)" "a \<noteq> b"
    using that by (auto simp: submit_transfer_cases EvmProjector_nonce_def slot_apply BalanceSlot_new_def
        AccountNonce_default_def AccountNonce_evm_nonce_def split: if_splits)
  have zero: "evm_nonce_val (EvmProjector_nonce st' a) = 0" if "st = State_default"
    using slots default_slot [of a] that by (auto simp: evm_view.count_of_slot evm_view.slot_canonical AccountNonce_new_def)
  then have "EvmProjector_nonce st' a = EvmNonce 0" "move_seq_val (MoveProjector_sequence_number st' a) = 0" if "st = State_default"
    using that views_agree(2) [of st' a] by (simp_all add: EvmNonce.expand)
  with reset evm_view.view_count_after [OF slots] move_view.view_count_after [OF slots]
  show ?thesis
    by (simp add: EvmNonce_is_valid_for_next_tx_def MoveSequenceNumber_is_valid_for_next_tx_def)
qed

theorem nonces_never_advance_witness:
  "Bridge_submit one_funded (Transfer (addr_of 1) (addr_of 2) 4) = (Inr (), snd (Bridge_submit one_funded (Transfer (addr_of 1) (addr_of 2) 4))) \<and>
   EvmProjector_nonce (snd (Bridge_submit one_funded (Transfer (addr_of 1) (addr_of 2) 4))) (addr_of 1) = EvmNonce 0 \<and>
   EvmNonce_is_valid_for_next_tx (EvmProjector_nonce one_funded (addr_of 1)) 0"
proof -
  let ?i = "Transfer (addr_of 1) (addr_of 2) 4"
  have run: "Bridge_submit one_funded ?i = (Inr (), snd (Bridge_submit one_funded ?i))"
    by (simp add: submit_transfer_cases one_funded_def)
  have "snd (Bridge_credit State_default (addr_of 1) 10) = one_funded" by code_simp
  then have "mutates\<^sup>*\<^sup>* State_default one_funded" by (metis mutates.credit r_into_rtranclp)
  note all = nonces_never_advance [OF this, of "addr_of 1" "addr_of 2" 4 "snd (Bridge_submit one_funded ?i)"]
  from all run have "EvmProjector_nonce (snd (Bridge_submit one_funded ?i)) (addr_of 1) = EvmNonce 0" by simp
  moreover from all have "EvmNonce_is_valid_for_next_tx (EvmProjector_nonce one_funded (addr_of 1)) 0"
    by (simp add: EvmNonce_is_valid_for_next_tx_def)
  ultimately show ?thesis using run by simp
qed

end
