(* ===== verification/Commitment_Scheme.thy ===== *)
theory Commitment_Scheme
  imports Verkle_Props Tree_Security
begin

text \<open>
  The commitment-scheme trait of \<open>state/src/tree/commit.rs\<close>, its two implementations, and the runtime tag of
  \<open>verkle.rs\<close>. The contract is the locale \<open>commitment_scheme\<close>: an empty subtree has the commitment the scheme
  names, and a node is committed to through the balances of its leaves and the commitments of its children
  only. Both schemes satisfy it, so under either a root says nothing about nonces. The Verkle scheme in addition
  commits to a zero balance as to no account at all.
\<close>

section \<open>The schemes\<close>

definition Blake3Scheme_empty :: "(bytes \<Rightarrow> bytes) \<Rightarrow> Commitment" where
  "Blake3Scheme_empty H = empty_commitment H"

definition Blake3Scheme_commit :: "(bytes \<Rightarrow> bytes) \<Rightarrow> Node \<Rightarrow> Commitment" where
  "Blake3Scheme_commit H node = commit_node H node"

definition Blake3Scheme_scheme_name :: string where
  "Blake3Scheme_scheme_name = ''blake3''"

definition BanderwagonIpaScheme_scheme_name :: string where
  "BanderwagonIpaScheme_scheme_name = ''banderwagon-ipa''"

datatype CommitmentSchemeKind = HashBased | VerkleKind

definition CommitmentSchemeKind_default :: CommitmentSchemeKind where
  "CommitmentSchemeKind_default = HashBased"

definition GroupElement_from_bytes :: "bytes \<Rightarrow> GroupElement" where
  "GroupElement_from_bytes bs = GroupElement bs"

definition GroupElement_to_bytes :: "GroupElement \<Rightarrow> bytes" where
  "GroupElement_to_bytes g = ge_bytes g"

text \<open>Names are stable labels: no two schemes share one; and a group element is its bytes.\<close>

lemma scheme_names_differ: "Blake3Scheme_scheme_name \<noteq> BanderwagonIpaScheme_scheme_name"
  by (simp add: Blake3Scheme_scheme_name_def BanderwagonIpaScheme_scheme_name_def)

lemma group_element_round_trip:
  "GroupElement_to_bytes (GroupElement_from_bytes bs) = bs" "GroupElement_from_bytes (GroupElement_to_bytes g) = g"
  by (simp_all add: GroupElement_from_bytes_def GroupElement_to_bytes_def)

section \<open>The contract\<close>

text \<open>A node with every nonce set to zero.\<close>

fun strip_nonces :: "Node \<Rightarrow> Node" where
  "strip_nonces Empty = Empty"
| "strip_nonces (Leaf slot) = Leaf (BalanceSlot_new (canonical slot))"
| "strip_nonces (Internal cs) = Internal (map (\<lambda>e. (fst e, strip_nonces (snd e))) cs)"

lemma strip_update: "strip_nonces (update_path node bs slot) = update_path (strip_nonces node) bs (BalanceSlot_new (canonical slot))"
proof (induction bs arbitrary: node)
  case (Cons b bs)
  have kids: "children_of_node (strip_nonces node) = map (\<lambda>e. (fst e, strip_nonces (snd e))) (children_of_node node)"
    by (cases node) (simp_all add: children_of_node_def)
  have "(case map_get (children_of_node (strip_nonces node)) b of Some c \<Rightarrow> c | None \<Rightarrow> Empty) =
      strip_nonces (case map_get (children_of_node node) b of Some c \<Rightarrow> c | None \<Rightarrow> Empty)"
    by (simp add: kids map_get_map split: option.split)
  then show ?case by (simp add: Let_def Cons.IH map_bt_insert [symmetric] kids)
qed simp

lemma strip_from_entries:
  "strip_nonces (root_node (StateTree_from_entries es)) =
     root_node (StateTree_from_entries (map (\<lambda>(a, s). (a, BalanceSlot_new (canonical s))) es))"
proof -
  have "strip_nonces (root_node (fold (\<lambda>(a, s) t. StateTree_update t a s) es t)) =
      root_node (fold (\<lambda>(a, s) t. StateTree_update t a s) (map (\<lambda>(a, s). (a, BalanceSlot_new (canonical s))) es) u)"
    if "strip_nonces (root_node t) = root_node u" for t u
    using that by (induction es arbitrary: t u) (auto simp: StateTree_update_def strip_update)
  then show ?thesis by (simp add: StateTree_from_entries_def StateTree_new_def)
qed

locale commitment_scheme =
  fixes ok :: "'p \<Rightarrow> bool"
    and empty_of :: "'p \<Rightarrow> Commitment"
    and commit_of :: "'p \<Rightarrow> Node \<Rightarrow> Commitment"
  assumes commit_empty: "ok p \<Longrightarrow> commit_of p Empty = empty_of p"
    and commit_leaf: "canonical s = canonical t \<Longrightarrow> commit_of p (Leaf s) = commit_of p (Leaf t)"
    and commit_internal: "ok p \<Longrightarrow> \<forall>e \<in> set cs. commit_of p (f (snd e)) = commit_of p (snd e) \<Longrightarrow>
      commit_of p (Internal (map (\<lambda>e. (fst e, f (snd e))) cs)) = commit_of p (Internal cs)"
begin

lemma commit_strip: "ok p \<Longrightarrow> commit_of p (strip_nonces node) = commit_of p node"
proof (induction node rule: strip_nonces.induct)
  case (2 slot)
  show ?case by (simp add: BalanceSlot_new_def commit_leaf [of "BalanceSlot_new (canonical slot)" slot, unfolded BalanceSlot_new_def])
next
  case (3 cs)
  then show ?case using commit_internal [of p cs strip_nonces] by simp
qed (simp add: commit_empty)

lemma root_new: "ok p \<Longrightarrow> StateTree_root_via (commit_of p) StateTree_new = empty_of p"
  by (simp add: StateTree_root_via_def StateTree_new_def commit_empty)

text \<open>Entries with the same balances have the same root, whatever their nonces.\<close>

lemma root_blind:
  assumes "ok p" "map (\<lambda>(a, s). (a, canonical s)) es = map (\<lambda>(a, s). (a, canonical s)) es'"
  shows "StateTree_root_via (commit_of p) (StateTree_from_entries es) = StateTree_root_via (commit_of p) (StateTree_from_entries es')"
proof -
  have strip: "map (\<lambda>(a, s). (a, BalanceSlot_new (canonical s))) es =
      map (\<lambda>(a, v). (a, BalanceSlot_new v)) (map (\<lambda>(a, s). (a, canonical s)) es)" for es :: "(Address \<times> BalanceSlot) list"
    by (simp add: comp_def case_prod_unfold)
  then have "strip_nonces (root_node (StateTree_from_entries es)) = strip_nonces (root_node (StateTree_from_entries es'))"
    by (simp only: strip_from_entries strip assms(2))
  then show ?thesis using commit_strip [OF assms(1)] unfolding StateTree_root_via_def by metis
qed

end

interpretation blake3_scheme: commitment_scheme "\<lambda>_. True" Blake3Scheme_empty Blake3Scheme_commit
proof unfold_locales
  fix H :: "bytes \<Rightarrow> bytes" and cs :: "(u8 \<times> Node) list" and f
  assume "\<forall>e \<in> set cs. Blake3Scheme_commit H (f (snd e)) = Blake3Scheme_commit H (snd e)"
  then have "map (\<lambda>e. (fst e, commit_node H (f (snd e)))) cs = map (\<lambda>e. (fst e, commit_node H (snd e))) cs"
    by (simp add: Blake3Scheme_commit_def)
  then show "Blake3Scheme_commit H (Internal (map (\<lambda>e. (fst e, f (snd e))) cs)) = Blake3Scheme_commit H (Internal cs)"
    by (simp only: Blake3Scheme_commit_def commit_node.simps map_map comp_def fst_conv snd_conv)
qed (simp_all add: Blake3Scheme_commit_def Blake3Scheme_empty_def leaf_preimage_def)

lemma point_of_commitment:
  "ipa_correct P \<Longrightarrow> BanderwagonIpaScheme_commit P m = BanderwagonIpaScheme_commit P n \<longleftrightarrow> commit_node_inner P m = commit_node_inner P n"
  using commitment_to_element_of [of P] by (metis BanderwagonIpaScheme_commit_def option.inject)

interpretation ipa_scheme: commitment_scheme "ipa_correct" "\<lambda>_. BanderwagonIpaScheme_empty" BanderwagonIpaScheme_commit
proof unfold_locales
  fix P :: "('e, 'f::comm_ring_1, 'p) ipa" and cs :: "(u8 \<times> Node) list" and f
  assume P: "ipa_correct P" and "\<forall>e \<in> set cs. BanderwagonIpaScheme_commit P (f (snd e)) = BanderwagonIpaScheme_commit P (snd e)"
  then have "map (\<lambda>e. (fst e, commit_node_inner P (f (snd e)))) cs = map (\<lambda>e. (fst e, commit_node_inner P (snd e))) cs"
    by (simp add: point_of_commitment [OF P])
  then show "BanderwagonIpaScheme_commit P (Internal (map (\<lambda>e. (fst e, f (snd e))) cs)) = BanderwagonIpaScheme_commit P (Internal cs)"
    by (simp only: BanderwagonIpaScheme_commit_def commit_node_inner.simps map_map comp_def fst_conv snd_conv)
qed (simp_all add: BanderwagonIpaScheme_commit_def BanderwagonIpaScheme_empty_def ipa_correctD canonical_u128_to_u64_pair_def)

text \<open>The pre-computed constant is not the commitment of the empty tree, unless the digest of the tag is zero.\<close>

lemma empty_constant_differs: "EMPTY_COMMITMENT = Blake3Scheme_empty H \<longleftrightarrow> H TAG_EMPTY = replicate 32 0"
  by (auto simp: EMPTY_COMMITMENT_def Blake3Scheme_empty_def empty_commitment_def)

section \<open>Zero balances under the Verkle scheme\<close>

lemma zero_leaf_point:
  assumes "ipa_correct P" "canonical s = 0"
  shows "commit_node_inner P (Leaf s) = el_zero P"
proof -
  have "(replicate POLY_WIDTH (0 :: 'b))[0 := 0, 1 := 0] = replicate POLY_WIDTH 0"
    by (simp add: list_update_same_conv list_eq_iff_nth_eq nth_list_update POLY_WIDTH_def)
  with assms show ?thesis by (simp add: canonical_u128_to_u64_pair_def ipa_correctD)
qed

lemma child_update:
  "child_or_empty (update_path node (b # bs) s) c =
     (if c = b then update_path (child_or_empty node b) bs s else child_or_empty node c)"
  by (simp add: child_or_empty_def Let_def)

lemma evals_eqI:
  assumes "\<And>b :: u8. node_evals P m ! unat b = node_evals P n ! unat b"
  shows "node_evals P m = node_evals P n"
proof (rule nth_equalityI)
  fix i assume "i < length (node_evals P m)"
  then have "unat (word_of_nat i :: u8) = i" by (simp add: POLY_WIDTH_def unat_of_nat)
  then show "node_evals P m ! i = node_evals P n ! i" using assms [of "word_of_nat i"] by simp
qed simp

text \<open>Writing a zero balance where there is none, or a zero balance already, keeps the point of the node.\<close>

lemma zero_update_point:
  assumes "ipa_correct P" "canonical s = 0"
    and "wf_tree (length bs) node" "case get_path node bs of Some old \<Rightarrow> canonical old = 0 | None \<Rightarrow> True"
  shows "commit_node_inner P (update_path node bs s) = commit_node_inner P node"
  using assms(3,4)
proof (induction bs arbitrary: node)
  case Nil
  then show ?case using zero_leaf_point [OF assms(1)] assms(2)
    by (cases node) (auto simp: wf_tree_def simp del: commit_node_inner.simps(2))
next
  case (Cons b bs)
  let ?new = "update_path node (b # bs) s"
  have wf: "wf_tree (Suc (length bs)) node" "wf_tree (Suc (length bs)) ?new"
    using Cons.prems(1) wf_update [OF Cons.prems(1), of s] by (simp_all add: wf_tree_def)
  have "commit_node_inner P (update_path (child_or_empty node b) bs s) = commit_node_inner P (child_or_empty node b)"
    using Cons.prems(2) by (intro Cons.IH wf_child_or_empty [OF wf(1)]) (simp add: get_path_child)
  then have "commit_node_inner P (child_or_empty ?new c) = commit_node_inner P (child_or_empty node c)" for c
    by (simp only: child_update if_split) simp
  then have "node_evals P ?new = node_evals P node"
    by (intro evals_eqI) (simp only: node_evals_child [OF assms(1) wf(1)] node_evals_child [OF assms(1) wf(2)])
  then show ?case by (simp only: commit_node_inner_evals [OF assms(1)])
qed

text \<open>
  A Verkle root does not tell an account with a zero balance from no account: entering one leaves the
  root as it was, so that the ledger of a thousand empty accounts has the root of the empty ledger.
\<close>

theorem verkle_zero_invisible:
  assumes "ipa_correct P" "wf_state_tree t" "wf_addr a" "canonical s = 0"
    and "case StateTree_get t a of Some old \<Rightarrow> canonical old = 0 | None \<Rightarrow> True"
  shows "StateTree_root_via (BanderwagonIpaScheme_commit P) (StateTree_update t a s) =
    StateTree_root_via (BanderwagonIpaScheme_commit P) t"
  using zero_update_point [OF assms(1,4), of "addr_bytes a" "root_node t"] assms(2,3,5)
  by (simp add: StateTree_root_via_def StateTree_update_def BanderwagonIpaScheme_commit_def wf_state_tree_def
      wf_addr_def StateTree_get_def)

lemma verkle_zero_invisible_witness:
  "StateTree_root_via (BanderwagonIpaScheme_commit toy_ipa) (StateTree_update StateTree_new (addr_of 7) (BalanceSlot_new 0)) =
     BanderwagonIpaScheme_empty"
  using verkle_zero_invisible [OF toy_ipa_correct, of StateTree_new "addr_of 7" "BalanceSlot_new 0"]
    ipa_scheme.root_new [OF toy_ipa_correct]
  by (simp add: wf_state_tree_def wf_tree_def StateTree_new_def StateTree_get_def BalanceSlot_new_def)

end
