(* ===== verification/Spec2Isabelle.thy ===== *)
theory Spec2Isabelle
  imports Bridge_Props Tree_Security Snapshot_Files Dag_Props Dispatcher Redb_Blocks L2_Sync L1_Reader Server_App Verkle_Props
    Aptos Telemetry Ledger Mutations Commitment_Scheme
begin

text \<open>
  A verification development of SuwappuDB (\<open>src/crates\<close>), a ledger database in which an EVM and a Move
  virtual machine share one balance slot per account. This theory is the entry point; the model and the
  proofs are in the theories it imports.

  \<^bold>\<open>The program.\<close> The state crate holds accounts and balance slots, the \<open>BalanceStore\<close> backends (in memory
  and \<open>redb\<close>), the 256-ary state tree with its BLAKE3 and Verkle commitments, snapshots, a DAG of blocks and
  the Move call site. The bridge crate holds the only component that may mutate the state: the bridge
  executes intents one by one, the bundle executor atomically, and the block executor in parallel by
  optimistic concurrency control. Around it are block storage and replay, anchoring of state roots on
  several chains, and syncing from an L2 node. The lane crate is the mempool in front of the bridge, and the
  server crate answers JSON-RPC queries.

  \<^bold>\<open>Conventions.\<close> Machine integers are words of their width; checked operations return options, unchecked ones
  wrap as in the release profile, and \<open>usize\<close> lengths are naturals. Structs are records, enums datatypes, byte
  arrays byte lists with their lengths as well-formedness predicates (\<open>wf_addr\<close>, \<open>wf_block\<close>, \<open>wf_anchor\<close>). A
  \<open>BTreeMap\<close> is a sorted association list and a \<open>HashMap\<close> an association list whose order stands for the
  iteration order (theory \<open>Prelude\<close>). \<open>Result\<close> is a sum with the error on the left; a panic or a loop that does
  not end is the value \<open>None\<close> of an option. External crates (\<open>blake3\<close>, \<open>hex\<close>, \<open>k256\<close>, \<open>pqcrypto-mldsa\<close>, \<open>redb\<close>,
  \<open>banderwagon\<close>, \<open>serde_json\<close>, the Aptos Move crates, the HTTP client, the file system) are arguments of the definitions; their documented behaviour is a
  named predicate (\<open>digest32\<close>, \<open>hex_ok\<close>, \<open>json_ok\<close>, \<open>k256_signs\<close>, \<open>redb_serves\<close>, \<open>ipa_correct\<close>, \<open>runs_coin\<close>, \<open>files_ok\<close>) that a
  concrete instance satisfies. No digest is assumed injective: what is assumed is the absence of collisions among the
  finitely many inputs that are hashed in the situation at hand.

  \<^bold>\<open>The theories\<close>, in dependency order, with the files under \<open>src/crates/suwappudb-\<close>:

  \<^item> \<open>Prelude\<close>: words and byte encodings, checked arithmetic, the two kinds of maps and their interface
    (locale \<open>kv_map\<close>, interpreted for both). \<open>Codec\<close>: decoders and the round-trip interface (locale \<open>codec\<close>).

  \<^item> \<open>Accounts\<close> (\<open>state/src/address_shape.rs\<close>, \<open>nonce_semantics.rs\<close>, \<open>balance_slot.rs\<close>): addresses, nonces, slots.

  \<^item> \<open>Store\<close> (\<open>state/src/store.rs\<close>, \<open>lib.rs\<close>): the store trait as the locale \<open>balance_store\<close>, interpreted by the
    in-memory store; \<open>State\<close> and its changes; the total supply.

  \<^item> \<open>Redb\<close>, \<open>Redb_Store\<close> (\<open>state/src/redb_store.rs\<close>): the \<open>redb\<close> parameter and the durable store, which refines
    the in-memory one over any database that behaves as documented.

  \<^item> \<open>Move_VM\<close> (\<open>state/src/vm/executor.rs\<close>): identifiers, module store, mock executor.

  \<^item> \<open>Bridge\<close>, \<open>Bridge_Props\<close> (\<open>bridge/src/lib.rs\<close>, \<open>bridge/src/vm/executor.rs\<close>, \<open>state/src/vm/tx.rs\<close>,
    \<open>projector.rs\<close>, \<open>lane/src/lib.rs\<close>): intents, every mutating entry point, both mock virtual machines and their
    views, the mempool. A submitted intent moves exactly its amount or changes nothing; every entry point has its
    exact effect on the supply; canonically equal EVM and Move transactions have equal effects.

  \<^item> \<open>Bundle\<close> (\<open>bridge/src/bundle\<close>): atomic bundles, with and without the Move runtime. Reverts restore every
    balance and blob, commits are the run of their transfers, the supply is conserved; and exactly which writes of
    Move calls survive a revert.

  \<^item> \<open>Aptos\<close> (\<open>state/src/vm/executor.rs\<close> behind its feature, \<open>aptos_session.rs\<close>, \<open>move/canonical-coin\<close>): the production
    Move executor over a parameter for the Aptos crates, its adapters, and the coin module of the repository. A
    coin transfer through it agrees with the bridge while balances fit in 64 bits, whoever the caller is; above
    that the excess is destroyed.

  \<^item> \<open>Mv_Store\<close>, \<open>Occ\<close>, \<open>Occ_Pass\<close>, \<open>Occ_Serial\<close>, \<open>Occ_Spec\<close> (\<open>bridge/src/occ\<close>): the multi-version store (locale
    \<open>versioned_store\<close>), the read and write sets, the parallel block executor. A thread schedule is an arbitrary
    sequence of worker indices; each store operation is one atomic step, and a worker left over by the schedule is
    drained. The abstract specification is the serial execution of the block: the executor returns its outcomes and
    balances under every schedule, within one iteration per transaction. The loop has the fuel \<open>2 n + 4\<close> of the
    source's own assertion; the proof shows that \<open>n\<close> iterations are enough, so the assertion never fails.

  \<^item> \<open>State_Tree\<close>, \<open>Tree_Security\<close> (\<open>state/src/tree\<close>, BLAKE3 scheme): the trie, its roots, proofs and the verifier.
    Roots bind the balances, inclusion proofs are sound, the prover is complete; absence proofs are sound only under
    a condition the verifier does not check.

  \<^item> \<open>Verkle\<close>, \<open>Verkle_Props\<close> (\<open>state/src/tree/verkle_scheme.rs\<close>, \<open>verkle.rs\<close>, \<open>ops.rs\<close>): the polynomial commitments,
    openings, prover and verifier. The prover is complete; what an accepted inclusion proof fixes is shown exactly,
    namely the low 64 bits of the balance; absence proofs fix nothing.

  \<^item> \<open>Commitment_Scheme\<close> (the trait of \<open>state/src/tree/commit.rs\<close>): both schemes behind one locale. Under either a root
    says nothing about nonces; under the Verkle scheme an account with a zero balance is like no account.

  \<^item> \<open>Snapshot\<close>, \<open>Snapshot_Files\<close> (\<open>state/src/snapshot.rs\<close>): both formats, capture, restore, validation, the snapshot
    manager and the files. What is captured and written is read and restored.

  \<^item> \<open>Block_Codec\<close>, \<open>Recovery\<close>, \<open>Redb_Blocks\<close> (\<open>bridge/src/recovery\<close>): block hashes and encoding, the block store
    trait (locale \<open>block_store\<close>, and the table \<open>dyn_BlockStore\<close> behind a trait object), the in-memory and the durable
    store, replay. Replay reproduces the live run under any other schedule, and what it accepts is a linked chain.

  \<^item> \<open>Dag\<close>, \<open>Dag_Search\<close>, \<open>Dag_Props\<close> (\<open>state/src/dag.rs\<close>): the block DAG. The queue loops are \<open>while_option\<close> and
    \<open>partial_function\<close>, and are proved to return; the depth-first search is a total function by its termination
    proof. Paths are shortest, closures and the cycle check exact (locale \<open>successors\<close> for both directions).

  \<^item> \<open>Anchor\<close>, \<open>Anchor_Log\<close>, \<open>Dispatcher\<close>, \<open>L1_Reader\<close> (\<open>bridge/src/anchor\<close>): anchors, the four authentication
    schemes, signers, the per-chain log, the dispatcher and its parity check, the readers. A log is reached by the
    inductive relation \<open>log_reachable\<close>; its entries are linked and authenticated, its tip fixes its history, and
    dispatching to MAC chains keeps every height in parity.

  \<^item> \<open>Json_Rpc\<close>, \<open>L2_Sync\<close>, \<open>Server\<close>, \<open>Server_App\<close> (\<open>bridge/src/sync/l2.rs\<close>, \<open>server/src\<close>): the JSON, hex and HTTP
    parameters, the syncer, bearer authentication, the two JSON-RPC handlers, the configuration and the routes.

  \<^item> \<open>Float64\<close>, \<open>Float64_Text\<close>, \<open>Metrics\<close>, \<open>Metrics_Text\<close>, \<open>Telemetry\<close> (\<open>state/src/metrics.rs\<close>, \<open>bridge/src/telemetry.rs\<close>):
    binary64 numbers with their rounding, order and shortest decimal form (seventeen digits are proved enough, and
    reading inverts printing); gauges, counters and histograms; the Prometheus text, from which a scraper reads back
    the numbers; what block reports and parity results leave there.

  \<^item> \<open>Ledger\<close>: every history of ledger operations, as an inductive relation; each state it reaches is well-formed and its
    supply is the net of credits and debits.

  \<^item> \<open>Mutations\<close>: every entry point that mutates the state is a sequence of \<open>State::apply\<close>, and therefore none advances
    a nonce; the two projector traits as one locale.

  \<^item> This theory: the way from execution over durable storage and anchoring to recovery.

  \<^bold>\<open>Not modelled.\<close> The crates behind the parameters, in particular the Move interpreter; sockets, process set-up and
  log output; \<open>Debug\<close> formatting; test-only mutators; the re-exports of the type facade; and the interleaving of
  calls that hold one lock for their whole duration, which the model runs one after the other. SP1 proofs are
  modelled as the code has them, which is to reject them all.
\<close>

section \<open>From execution to recovery\<close>

text \<open>Blocks produced from well-formed intents are well-formed, so the durable store can hold them.\<close>

lemma produced_wf:
  assumes "digest32 H" "length (hash_bytes prev) = 32" "\<forall>is \<in> set intentss. length is < 2 ^ 32 \<and> list_all wf_intent is"
    and "produce H sched reg k h prev st intentss = Some (bs, st1)"
  shows "\<forall>b \<in> set bs. wf_block b"
  using assms
proof (induction intentss arbitrary: k h prev st bs)
  case (Cons intents rest)
  obtain report s1 where live: "BlockExecutor_execute_with_registry H (sched k) st intents reg = Some (report, s1)"
    and root: "state_root report = StateTree_root H (StateTree_from_state s1)"
    using block_returns [of H "sched k" st intents reg] by blast
  let ?b = "\<lparr>blk_height = h, blk_parent = prev, blk_state_root = state_root report, blk_intents = intents\<rparr>"
  from Cons.prems(4) live obtain bs' where bs: "bs = ?b # bs'"
    and rest: "produce H sched reg (Suc k) (h + 1) (Block_hash H ?b) s1 rest = Some (bs', st1)"
    by (auto simp: Let_def)
  have "wf_block ?b"
    using Cons.prems(2,3) root commit_length [OF assms(1)] by (simp add: wf_block_def StateTree_root_def)
  moreover have "length (hash_bytes (Block_hash H ?b)) = 32" using assms(1) by (simp add: Block_hash_def digest32_def)
  from Cons.IH [OF assms(1) this _ rest] Cons.prems(3) have "\<forall>b \<in> set bs'. wf_block b" by auto
  ultimately show ?case by (simp add: bs)
qed simp

text \<open>
  C9: a node that loses its memory recovers what it anchored. Blocks are executed in parallel under any
  schedules, put into the durable store, and their roots dispatched to any MAC chains. Then all puts and
  all dispatches succeed; replaying the durable store under any other schedules gives the live state in
  every slot and blob; the parity check agrees, at every height, on the root recorded in the block of
  that height; and the root of the recovered state is the one anchored last.
\<close>

theorem recovery_end_to_end:
  assumes "produce (blake3 C) sched reg 0 0 GENESIS_PARENT st intentss = Some (blocks, live)"
    and "digest32 (blake3 C)" "inj_on (blake3 C) (block_preimage ` set blocks)" "length intentss \<le> 2 ^ 64"
    and "registry_respects reg" "registry_addrs_wf reg" "\<forall>is \<in> set intentss. \<forall>i \<in> set is. intent_addrs_wf i"
    and "\<forall>is \<in> set intentss. length is < 2 ^ 32 \<and> list_all wf_intent is" "wf_state st"
    and "block_tables_serve R content view" "c_blocks (content db0) = Map.empty" "c_heights (content db0) = Map.empty"
    and "cs \<noteq> []"
  shows "\<exists>db d recovered. put_blocks (blake3 C) R db0 blocks = Inr db \<and>
    dispatch_all C (register_all cs) 0 (map blk_state_root blocks) = Some d \<and>
    replay (blake3 C) sched' (RedbBlockStore_dyn R db) st reg 0 = Some (Inr (), recovered) \<and> state_eq live recovered \<and>
    (\<forall>i < length blocks. AnchorDispatcher_parity_check C d (word_of_nat i) = Some (Agreed (blk_state_root (blocks ! i)))) \<and>
    (blocks \<noteq> [] \<longrightarrow> AnchorDispatcher_parity_check C d (word_of_nat (length blocks - 1)) =
       Some (Agreed (StateTree_root (blake3 C) (StateTree_from_state recovered))))"
proof -
  let ?s = "fold (BlockStore_put (blake3 C)) blocks BlockStore_new"
  have len: "length blocks = length intentss"
    using produce_returns [of "blake3 C" sched reg 0 0 GENESIS_PARENT st intentss] assms(1) by auto
  have "\<forall>b \<in> set blocks. wf_block b"
    using produced_wf [OF assms(2) _ assms(8,1)] by (simp add: GENESIS_PARENT_def)
  from redb_blocks_agree [OF assms(10-12) this refl] obtain db where
    db: "put_blocks (blake3 C) R db0 blocks = Inr db"
    "replay (blake3 C) sched' (RedbBlockStore_dyn R db) st reg 0 = replay (blake3 C) sched' (InMemory_dyn ?s) st reg 0"
    by blast
  obtain recovered where r: "replay (blake3 C) sched' (InMemory_dyn ?s) st reg 0 = Some (Inr (), recovered)"
    "state_eq live recovered"
    "blocks \<noteq> [] \<longrightarrow> StateTree_root (blake3 C) (StateTree_from_state recovered) = blk_state_root (last blocks)"
    using replay_of_produced [OF assms(1) refl assms(3-7,9), of sched'] by blast
  obtain d where d: "dispatch_all C (register_all cs) 0 (map blk_state_root blocks) = Some d"
    "\<forall>i < length blocks. AnchorDispatcher_parity_check C d (word_of_nat i) = Some (Agreed (blk_state_root (blocks ! i)))"
    using dispatch_all_agrees [OF assms(13), of "map blk_state_root blocks" C] assms(4) by (auto simp: len)
  moreover have "last blocks = blocks ! (length blocks - 1)" if "blocks \<noteq> []" using that by (rule last_conv_nth)
  ultimately show ?thesis using db r by auto
qed

text \<open>A digest of the block preimage that keeps the height, which separates the blocks of a chain.\<close>

definition height_crypto :: "bytes crypto" where
  "height_crypto = toy_crypto\<lparr>blake3 := \<lambda>bs. pad32 (drop 20 bs)\<rparr>"

lemma height_digest: "digest32 (blake3 height_crypto)"
  by (auto simp: digest32_def height_crypto_def pad32_def min_def)

lemma height_digest_inj:
  assumes "sorted_wrt (<) (map blk_height bs)"
  shows "inj_on (blake3 height_crypto) (block_preimage ` set bs)"
proof (rule inj_onI, clarsimp)
  fix b c assume bc: "b \<in> set bs" "c \<in> set bs"
    and eq: "blake3 height_crypto (block_preimage b) = blake3 height_crypto (block_preimage c)"
  have "take 8 (blake3 height_crypto (block_preimage x)) = to_be_bytes (blk_height x)" for x
    by (simp add: height_crypto_def pad32_def block_preimage_def ascii_def)
  with eq have "to_be_bytes (blk_height b) = to_be_bytes (blk_height c)" by metis
  then have "blk_height b = blk_height c" by (simp add: to_be_bytes_inj)
  moreover have "inj_on blk_height (set bs)" using assms by (simp add: strict_sorted_iff distinct_map)
  ultimately show "block_preimage b = block_preimage c" using bc by (metis inj_onD)
qed

theorem recovery_end_to_end_witness:
  "\<exists>blocks live db d recovered.
     produce (blake3 height_crypto) (\<lambda>_. interleaved) ContractRegistry_new 0 0 GENESIS_PARENT occ_state replay_blocks_example
       = Some (blocks, live) \<and>
     put_blocks (blake3 height_crypto) fm_block_tables fm_no_blocks blocks = Inr db \<and>
     dispatch_all height_crypto (register_all [(ChainId 1, [1]), (ChainId 2, [2])]) 0 (map blk_state_root blocks) = Some d \<and>
     replay (blake3 height_crypto) (\<lambda>_. in_order) (RedbBlockStore_dyn fm_block_tables db) occ_state ContractRegistry_new 0
       = Some (Inr (), recovered) \<and> state_eq live recovered"
proof -
  obtain blocks live where run: "produce (blake3 height_crypto) (\<lambda>_. interleaved) ContractRegistry_new 0 0 GENESIS_PARENT
      occ_state replay_blocks_example = Some (blocks, live)" "length blocks = 3"
    using produce_returns [of "blake3 height_crypto" "\<lambda>_. interleaved" ContractRegistry_new 0 0 GENESIS_PARENT occ_state
        replay_blocks_example] by (auto simp: replay_blocks_example_def)
  have "sorted_wrt (<) (map blk_height blocks)"
    using chain_heights [OF produce_chain [OF run(1)]] run(2) by simp
  note inj = height_digest_inj [OF this]
  have wf: "wf_state occ_state" using occ_state_invar occ_state_addrs by (simp add: wf_state_def list_all_iff)
  have ints: "\<forall>is \<in> set replay_blocks_example. \<forall>i \<in> set is. intent_addrs_wf i"
    "\<forall>is \<in> set replay_blocks_example. length is < 2 ^ 32 \<and> list_all wf_intent is"
    by (auto simp: replay_blocks_example_def occ_block_def intent_addrs_wf_def)
  have fresh: "c_blocks (fm_blocks_view fm_no_blocks) = Map.empty" "c_heights (fm_blocks_view fm_no_blocks) = Map.empty"
    by (auto simp: fm_blocks_view_def fm_no_blocks_def)
  have "length replay_blocks_example \<le> 2 ^ 64" by (simp add: replay_blocks_example_def)
  from recovery_end_to_end [OF run(1) height_digest inj this registry_respects_new registry_addrs_wf_new ints wf
      fm_block_tables_serve fresh, of "[(ChainId 1, [1]), (ChainId 2, [2])]" "\<lambda>_. in_order"] run(1)
  show ?thesis by auto
qed

end
